(* ===== verification/Xv6_Prelude.thy ===== *)
theory Xv6_Prelude
  imports Main "HOL-Library.Word"
begin

text \<open>
  Shared vocabulary of the development: the machine types of \<^verbatim>\<open>kernel/types.h\<close>, the
  outcomes a kernel routine can have, byte-addressed memory with little-endian loads and
  stores, and the generic facts on lists, words and memory that the component theories use.
\<close>

unbundle bit_operations_syntax

section \<open>Machine types\<close>

type_synonym u8 = "8 word"
type_synonym u16 = "16 word"
type_synonym u32 = "32 word"
type_synonym u64 = "64 word"

type_synonym mem = "u64 \<Rightarrow> u8"

text \<open>Limits of \<^verbatim>\<open>kernel/param.h\<close> that kernel and user programs share.\<close>

definition NOFILE :: nat where
  "NOFILE = 16"

definition MAXARG :: nat where
  "MAXARG = 32"

section \<open>Outcomes of kernel routines\<close>

text \<open>
  The wait channels of \<^verbatim>\<open>sleep\<close> and \<^verbatim>\<open>wakeup\<close>. In the C code a channel is the address of
  the object waited for; distinct objects have distinct addresses.
\<close>

datatype chan =
    BufLock nat | InodeLock nat | LogChan
  | PipeRead u64 | PipeWrite u64
  | ConsRead | UartTx | TicksChan | ProcChan nat
  | DiskFree | DiskBuf nat

text \<open>
  A routine returns, panics with a message, goes to sleep on a channel, or runs for ever
  in a loop whose exit condition never holds.
\<close>

datatype 'a kres = Ok 'a | Panic string | Sleep chan | Hang

primrec kbind :: "'a kres \<Rightarrow> ('a \<Rightarrow> 'b kres) \<Rightarrow> 'b kres" where
  "kbind (Ok x) f = f x"
| "kbind (Panic e) f = Panic e"
| "kbind (Sleep c) f = Sleep c"
| "kbind Hang f = Hang"

named_theorems kres_simps \<open>case analysis of sequenced routines\<close>
named_theorems word_facts \<open>unsigned readings of machine-word arithmetic\<close>
named_theorems mem_simps \<open>loads after stores\<close>

lemma kbind_Ok_iff [kres_simps]: "kbind m f = Ok y \<longleftrightarrow> (\<exists>x. m = Ok x \<and> f x = Ok y)"
  by (cases m) auto

lemma kbind_OkE: "kbind m f = Ok y \<Longrightarrow> (\<And>x. m = Ok x \<Longrightarrow> f x = Ok y \<Longrightarrow> P) \<Longrightarrow> P"
  by (cases m) auto

lemma kbind_assoc: "kbind (kbind m f) g = kbind m (\<lambda>x. kbind (f x) g)"
  by (cases m) auto

lemma kbind_Ok_right [simp]: "kbind m Ok = m"
  by (cases m) auto

lemma kbind_cong [fundef_cong]:
  "m = m' \<Longrightarrow> (\<And>x. m' = Ok x \<Longrightarrow> f x = f' x) \<Longrightarrow> kbind m f = kbind m' f'"
  by (cases m') auto

lemma kres_distinct_if [kres_simps]:
  "(if b then Panic e else m) = Ok x \<longleftrightarrow> \<not> b \<and> m = Ok x"
  "(if b then m else Panic e) = Ok x \<longleftrightarrow> b \<and> m = Ok x"
  "(if b then Sleep c else m) = Ok x \<longleftrightarrow> \<not> b \<and> m = Ok x"
  "(if b then m else Sleep c) = Ok x \<longleftrightarrow> b \<and> m = Ok x"
  by auto

section \<open>Little-endian encodings\<close>

primrec le_word :: "u8 list \<Rightarrow> 'a::len word" where
  "le_word [] = 0"
| "le_word (b # bs) = ucast b OR push_bit 8 (le_word bs)"

primrec le_bytes :: "nat \<Rightarrow> 'a::len word \<Rightarrow> u8 list" where
  "le_bytes 0 w = []"
| "le_bytes (Suc n) w = ucast w # le_bytes n (drop_bit 8 w)"

lemma length_le_bytes [simp]: "length (le_bytes n w) = n"
  by (induction n arbitrary: w) auto

lemma le_word_le_bytes: "le_word (le_bytes n w) = take_bit (8 * n) w"
proof (induction n arbitrary: w)
  case 0
  then show ?case by simp
next
  case (Suc n)
  show ?case
    by (rule bit_word_eqI)
      (auto simp: Suc bit_simps)
qed

lemma le_word_bytes_id [simp]:
  "LENGTH('a) \<le> 8 * n \<Longrightarrow> le_word (le_bytes n (w :: 'a::len word)) = w"
  by (simp add: le_word_le_bytes take_bit_word_eq_self)

section \<open>Byte-addressed memory\<close>

text \<open>
  \<open>mread m a n\<close> is the \<open>n\<close> bytes at \<open>a\<close>; \<open>mwrite m a bs\<close> stores \<open>bs\<close> at \<open>a\<close>. The offset
  of an address is its difference from the start modulo \<open>2^64\<close>, as on the machine.
\<close>

definition mread :: "mem \<Rightarrow> u64 \<Rightarrow> nat \<Rightarrow> u8 list" where
  "mread m a n = map (\<lambda>k. m (a + of_nat k)) [0..<n]"

definition mwrite :: "mem \<Rightarrow> u64 \<Rightarrow> u8 list \<Rightarrow> mem" where
  "mwrite m a bs = (\<lambda>x. if unat (x - a) < length bs then bs ! unat (x - a) else m x)"

definition read64 :: "mem \<Rightarrow> u64 \<Rightarrow> u64" where
  "read64 m a = le_word (mread m a 8)"

definition write64 :: "mem \<Rightarrow> u64 \<Rightarrow> u64 \<Rightarrow> mem" where
  "write64 m a v = mwrite m a (le_bytes 8 v)"

text \<open>Two address ranges that share no byte.\<close>

definition disjoint_range :: "u64 \<Rightarrow> nat \<Rightarrow> u64 \<Rightarrow> nat \<Rightarrow> bool" where
  "disjoint_range a n b k \<longleftrightarrow> (\<forall>i < n. \<forall>j < k. a + of_nat i \<noteq> b + of_nat j)"

lemma length_mread [simp]: "length (mread m a n) = n"
  by (simp add: mread_def)

lemma nth_mread [simp]: "i < n \<Longrightarrow> mread m a n ! i = m (a + of_nat i)"
  by (simp add: mread_def)

lemma unat_of_nat_64 [word_facts]: "k < 2 ^ 64 \<Longrightarrow> unat (of_nat k :: u64) = k"
  by (simp add: unat_of_nat take_bit_nat_eq_self)

lemma unat_lt2p64: "unat (a :: u64) < 2 ^ 64"
  using unsigned_less [of a] by simp

lemma unat_lt2p32: "unat (a :: u32) < 2 ^ 32"
  using unsigned_less [of a] by simp

lemma addr_offset_iff: "k < 2 ^ 64 \<Longrightarrow> (x :: u64) = d + of_nat k \<longleftrightarrow> unat (x - d) = k"
proof
  assume "k < 2 ^ 64" and "unat (x - d) = k"
  then have "d + of_nat (unat (x - d)) = d + of_nat k" by simp
  then show "x = d + of_nat k" by simp
qed (simp add: unat_of_nat_64)

lemma mwrite_inside: "i < length bs \<Longrightarrow> length bs \<le> 2 ^ 64 \<Longrightarrow> mwrite m a bs (a + of_nat i) = bs ! i"
  by (simp add: mwrite_def unat_of_nat_64)

lemma mwrite_outside: "\<not> unat (x - a) < length bs \<Longrightarrow> mwrite m a bs x = m x"
  by (simp add: mwrite_def)

lemma disjoint_range_outside:
  assumes "disjoint_range a n b k" and "i < n"
  shows "\<not> unat (a + of_nat i - b) < k"
proof
  assume "unat (a + of_nat i - b) < k"
  moreover have "a + of_nat i = b + of_nat (unat (a + of_nat i - b))"
    by simp
  ultimately show False
    using assms unfolding disjoint_range_def by blast
qed

lemma mread_mwrite_same [mem_simps]:
  "length bs = n \<Longrightarrow> n \<le> 2 ^ 64 \<Longrightarrow> mread (mwrite m a bs) a n = bs"
  by (rule nth_equalityI) (auto simp: mwrite_inside)

lemma mread_mwrite_other [mem_simps]:
  "disjoint_range a n b (length bs) \<Longrightarrow> mread (mwrite m b bs) a n = mread m a n"
  by (rule nth_equalityI) (auto simp: mwrite_outside disjoint_range_outside)

lemma read64_write64_same [mem_simps, simp]: "read64 (write64 m a v) a = v"
  by (simp add: read64_def write64_def mread_mwrite_same)

lemma read64_write64_other [mem_simps]:
  "disjoint_range a 8 b 8 \<Longrightarrow> read64 (write64 m b v) a = read64 m a"
  by (simp add: read64_def write64_def mread_mwrite_other)

lemma mread_0 [simp]: "mread m a 0 = []"
  by (simp add: mread_def)

lemma mread_Suc: "mread m a (Suc n) = m a # mread m (a + 1) n"
  by (rule nth_equalityI) (auto simp: nth_Cons algebra_simps split: nat.splits)

lemma mread_snoc: "mread m a (Suc n) = mread m a n @ [m (a + of_nat n)]"
  by (simp add: mread_def)

lemma mwrite_Nil [simp]: "mwrite m a [] = m"
  by (simp add: mwrite_def)

lemma mwrite_Cons:
  assumes "length bs < 2 ^ 64"
  shows "mwrite m a (b # bs) = mwrite (m(a := b)) (a + 1) bs"
proof
  fix x
  show "mwrite m a (b # bs) x = mwrite (m(a := b)) (a + 1) bs x"
  proof (cases "x = a")
    case True
    have "\<not> unat (- 1 :: u64) < length bs" using assms by (simp add: unsigned_minus_1_eq_mask mask_eq_exp_minus_1)
    then show ?thesis using True by (simp add: mwrite_def)
  next
    case False
    then have "unat (x - a) \<noteq> 0" by (simp add: unat_eq_0)
    then obtain k where k: "unat (x - a) = Suc k" by (cases "unat (x - a)") auto
    then have "k < 2 ^ 64" using unat_lt2p64 [of "x - a"] by simp
    moreover have "x = a + of_nat (Suc k)"
      using k unat_lt2p64 [of "x - a"] by (subst addr_offset_iff) auto
    ultimately have "unat (x - (a + 1)) = k" by (simp add: unat_of_nat_64)
    then show ?thesis using k False by (simp add: mwrite_def)
  qed
qed

lemma mwrite_snoc:
  assumes "length bs < 2 ^ 64"
  shows "mwrite m a (bs @ [b]) = (mwrite m a bs)(a + of_nat (length bs) := b)"
  using assms by (auto simp: mwrite_def fun_eq_iff addr_offset_iff nth_append)

lemma mread_cong: "(\<And>i. i < n \<Longrightarrow> m (a + of_nat i) = m' (a + of_nat i)) \<Longrightarrow> mread m a n = mread m' a n"
  by (simp add: mread_def)

lemma disjoint_range_sym: "disjoint_range a n b k \<Longrightarrow> disjoint_range b k a n"
  unfolding disjoint_range_def by metis

text \<open>
  Objects of the same size at multiples of that size never overlap partially. The size is
  a power of two, so alignment is stable under the wrap-around of addresses.
\<close>

definition aligned :: "nat \<Rightarrow> u64 \<Rightarrow> bool" where
  "aligned k a \<longleftrightarrow> 2 ^ k dvd unat a"

lemma multiple_fits: 
  fixes x :: nat
  assumes "2 ^ k dvd x" "x < 2 ^ 64" "k \<le> 64"
  shows "x + 2 ^ k \<le> 2 ^ 64"
proof -
  obtain q where q: "x = 2 ^ k * q" using assms(1) by (elim dvdE)
  have e: "(2::nat) ^ 64 = 2 ^ k * 2 ^ (64 - k)"
    using assms(3) by (simp flip: power_add)
  have "2 ^ k * q < 2 ^ k * 2 ^ (64 - k)" using assms(2) unfolding q e .
  then have "q < 2 ^ (64 - k)" by simp
  then have "Suc q \<le> 2 ^ (64 - k)" by simp
  then have "2 ^ k * Suc q \<le> (2::nat) ^ k * 2 ^ (64 - k)" by (rule mult_le_mono2)
  then show ?thesis unfolding q e by (simp add: algebra_simps)
qed

lemma unat_plus_nat:
  "unat (a :: u64) + i < 2 ^ 64 \<Longrightarrow> unat (a + of_nat i) = unat a + i"
  by (simp add: unat_word_ariths unat_of_nat take_bit_nat_eq_self take_bit_eq_mod)

lemma unat_aligned_plus [word_facts]:
  assumes "aligned k a" "k \<le> 64" "i < 2 ^ k"
  shows "unat (a + of_nat i) = unat a + i"
proof -
  have "unat a + 2 ^ k \<le> 2 ^ 64"
    using assms unat_lt2p64 by (intro multiple_fits) (auto simp: aligned_def)
  with assms(3) show ?thesis by (intro unat_plus_nat) simp
qed

lemma aligned_cell_inj:
  assumes "aligned k a" "aligned k b" "k \<le> 64" "i < 2 ^ k" "j < 2 ^ k"
    and eq: "a + of_nat i = b + of_nat j"
  shows "a = b \<and> i = j"
proof -
  have u: "unat a + i = unat b + j"
    using assms by (metis unat_aligned_plus)
  obtain p q where p: "unat a = 2 ^ k * p" and q: "unat b = 2 ^ k * q"
    using assms(1,2) unfolding aligned_def by (elim dvdE)
  have "(unat a + i) div 2 ^ k = p" using p assms(4) by simp
  moreover have "(unat b + j) div 2 ^ k = q" using q assms(5) by simp
  ultimately have "p = q" using u by simp
  then show ?thesis using u p q by (auto simp: word_unat_eq_iff)
qed

lemma aligned_disjoint:
  "aligned k a \<Longrightarrow> aligned k b \<Longrightarrow> a \<noteq> b \<Longrightarrow> k \<le> 64 \<Longrightarrow> n \<le> 2 ^ k \<Longrightarrow> l \<le> 2 ^ k \<Longrightarrow>
    disjoint_range a n b l"
  unfolding disjoint_range_def using aligned_cell_inj by fastforce

lemma read64_write64_aligned [mem_simps]:
  "aligned 3 a \<Longrightarrow> aligned 3 b \<Longrightarrow> a \<noteq> b \<Longrightarrow> read64 (write64 m b v) a = read64 m a"
  by (rule read64_write64_other, rule aligned_disjoint [where k=3]) auto

section \<open>Scans of a table\<close>

text \<open>The loop \<^verbatim>\<open>for(x = tab; x < &tab[N]; x++) if(P(x)) ...\<close> from index \<open>i\<close> on, with \<open>n\<close> entries left.\<close>

primrec scan :: "nat \<Rightarrow> nat \<Rightarrow> (nat \<Rightarrow> bool) \<Rightarrow> nat option" where
  "scan 0 i P = None"
| "scan (Suc n) i P = (if P i then Some i else scan n (Suc i) P)"

lemma scan_None_from: "scan n i P = None \<longleftrightarrow> (\<forall>j < n. \<not> P (i + j))"
proof (induction n arbitrary: i)
  case (Suc n)
  show ?case by (auto simp: Suc less_Suc_eq_0_disj)
qed simp

lemma scan_Some_from: "scan n i P = Some k \<Longrightarrow> i \<le> k \<and> k < i + n \<and> P k \<and> (\<forall>j. i \<le> j \<and> j < k \<longrightarrow> \<not> P j)"
proof (induction n arbitrary: i)
  case (Suc n)
  show ?case
  proof (cases "P i")
    case False
    have "Suc i \<le> k \<and> k < Suc i + n \<and> P k \<and> (\<forall>j. Suc i \<le> j \<and> j < k \<longrightarrow> \<not> P j)"
      using Suc.prems False by (intro Suc.IH) simp
    moreover have "i \<le> j \<Longrightarrow> j = i \<or> Suc i \<le> j" for j by auto
    ultimately show ?thesis using False by (metis add_Suc_right add_Suc Suc_leD)
  qed (use Suc.prems in auto)
qed simp

lemma scan_None: "scan n 0 P = None \<longleftrightarrow> (\<forall>j < n. \<not> P j)"
  by (simp add: scan_None_from)

lemma scan_Some: "scan n 0 P = Some k \<longleftrightarrow> k < n \<and> P k \<and> (\<forall>j < k. \<not> P j)"
proof
  assume a: "k < n \<and> P k \<and> (\<forall>j < k. \<not> P j)"
  then obtain k' where k': "scan n 0 P = Some k'" using scan_None [of n P] by (cases "scan n 0 P") auto
  then have "P k' \<and> (\<forall>j < k'. \<not> P j)" using scan_Some_from [OF k'] by simp
  then have "k' = k" using a by (meson linorder_neqE_nat)
  then show "scan n 0 P = Some k" using k' by simp
next
  assume "scan n 0 P = Some k"
  from scan_Some_from [OF this] show "k < n \<and> P k \<and> (\<forall>j < k. \<not> P j)" by simp
qed

lemma scan_SomeD: "scan n 0 P = Some k \<Longrightarrow> k < n" "scan n 0 P = Some k \<Longrightarrow> P k"
  by (simp_all add: scan_Some)

end
