(* ===== verification/Kstring.thy ===== *)
theory Kstring
  imports Xv6_Prelude
begin

text \<open>
  The memory and string routines of \<^verbatim>\<open>kernel/string.c\<close> over byte-addressed memory, and
  their functional specifications. A read-only C string argument is the function giving
  its successive characters; a routine that writes takes and returns the memory. The
  pointer each routine returns is its first argument, so it is not returned again.
\<close>

section \<open>The routines\<close>

function memset_loop :: "mem \<Rightarrow> u64 \<Rightarrow> u8 \<Rightarrow> nat \<Rightarrow> nat \<Rightarrow> mem" where
  "memset_loop m cdst c i n =
     (if i < n then memset_loop (m(cdst + of_nat i := c)) cdst c (Suc i) n else m)"
  by pat_completeness auto
termination
  by (relation "measure (\<lambda>(m, cdst, c, i, n). n - i)") auto

declare memset_loop.simps [simp del]

definition memset :: "mem \<Rightarrow> u64 \<Rightarrow> u8 \<Rightarrow> nat \<Rightarrow> mem" where
  "memset m dst c n = memset_loop m dst c 0 n"

primrec memcmp :: "mem \<Rightarrow> u64 \<Rightarrow> u64 \<Rightarrow> nat \<Rightarrow> int" where
  "memcmp m s1 s2 0 = 0"
| "memcmp m s1 s2 (Suc n) =
     (if m s1 \<noteq> m s2 then uint (m s1) - uint (m s2) else memcmp m (s1 + 1) (s2 + 1) n)"

text \<open>The two directions of \<^verbatim>\<open>memmove\<close>: \<^verbatim>\<open>*--d = *--s\<close> and \<^verbatim>\<open>*d++ = *s++\<close>.\<close>

primrec memmove_down :: "mem \<Rightarrow> u64 \<Rightarrow> u64 \<Rightarrow> nat \<Rightarrow> mem" where
  "memmove_down m d s 0 = m"
| "memmove_down m d s (Suc n) = memmove_down (m(d - 1 := m (s - 1))) (d - 1) (s - 1) n"

primrec memmove_up :: "mem \<Rightarrow> u64 \<Rightarrow> u64 \<Rightarrow> nat \<Rightarrow> mem" where
  "memmove_up m d s 0 = m"
| "memmove_up m d s (Suc n) = memmove_up (m(d := m s)) (d + 1) (s + 1) n"

definition memmove :: "mem \<Rightarrow> u64 \<Rightarrow> u64 \<Rightarrow> nat \<Rightarrow> mem" where
  "memmove m dst src n =
     (if src < dst \<and> src + of_nat n > dst
      then memmove_down m (dst + of_nat n) (src + of_nat n) n
      else memmove_up m dst src n)"

definition memcpy :: "mem \<Rightarrow> u64 \<Rightarrow> u64 \<Rightarrow> nat \<Rightarrow> mem" where
  "memcpy m dst src n = memmove m dst src n"

fun strncmp :: "(nat \<Rightarrow> u8) \<Rightarrow> (nat \<Rightarrow> u8) \<Rightarrow> nat \<Rightarrow> int" where
  "strncmp p q n =
     (if n > 0 \<and> p 0 \<noteq> 0 \<and> p 0 = q 0
      then strncmp (\<lambda>i. p (Suc i)) (\<lambda>i. q (Suc i)) (n - 1)
      else if n = 0 then 0 else uint (p 0) - uint (q 0))"

declare strncmp.simps [simp del]

text \<open>The copying loop of \<^verbatim>\<open>strncpy\<close> returns the memory, the advanced \<^verbatim>\<open>s\<close> and what is left of \<^verbatim>\<open>n\<close>.\<close>

primrec strncpy_copy :: "mem \<Rightarrow> u64 \<Rightarrow> u64 \<Rightarrow> nat \<Rightarrow> mem \<times> u64 \<times> nat" where
  "strncpy_copy m s t 0 = (m, s, 0)"
| "strncpy_copy m s t (Suc n) =
     (if m t \<noteq> 0 then strncpy_copy (m(s := m t)) (s + 1) (t + 1) n
      else (m(s := m t), s + 1, n))"

primrec strncpy_pad :: "mem \<Rightarrow> u64 \<Rightarrow> nat \<Rightarrow> mem" where
  "strncpy_pad m s 0 = m"
| "strncpy_pad m s (Suc n) = strncpy_pad (m(s := 0)) (s + 1) n"

definition strncpy :: "mem \<Rightarrow> u64 \<Rightarrow> u64 \<Rightarrow> int \<Rightarrow> mem" where
  "strncpy m s t n = (case strncpy_copy m s t (nat n) of (m', s', k) \<Rightarrow> strncpy_pad m' s' k)"

primrec safestrcpy_copy :: "mem \<Rightarrow> u64 \<Rightarrow> u64 \<Rightarrow> nat \<Rightarrow> mem \<times> u64" where
  "safestrcpy_copy m s t 0 = (m, s)"
| "safestrcpy_copy m s t (Suc n) =
     (if m t \<noteq> 0 then safestrcpy_copy (m(s := m t)) (s + 1) (t + 1) n
      else (m(s := m t), s + 1))"

definition safestrcpy :: "mem \<Rightarrow> u64 \<Rightarrow> u64 \<Rightarrow> int \<Rightarrow> mem" where
  "safestrcpy m s t n =
     (if n \<le> 0 then m
      else case safestrcpy_copy m s t (nat (n - 1)) of (m', s') \<Rightarrow> m'(s' := 0))"

partial_function (option) strlen_from :: "(nat \<Rightarrow> u8) \<Rightarrow> nat \<Rightarrow> nat option" where
  "strlen_from s n = (if s n \<noteq> 0 then strlen_from s (Suc n) else Some n)"

definition strlen :: "(nat \<Rightarrow> u8) \<Rightarrow> nat option" where
  "strlen s = strlen_from s 0"

text \<open>The characters of a C string stored in memory, and in an array held as a list.\<close>

definition chars_at :: "mem \<Rightarrow> u64 \<Rightarrow> nat \<Rightarrow> u8" where
  "chars_at m a i = m (a + of_nat i)"

definition chars_of :: "u8 list \<Rightarrow> nat \<Rightarrow> u8" where
  "chars_of xs i = (if i < length xs then xs ! i else 0)"

text \<open>The string in the first \<open>n\<close> characters: up to the first NUL.\<close>

definition cstr :: "(nat \<Rightarrow> u8) \<Rightarrow> nat \<Rightarrow> u8 list" where
  "cstr p n = takeWhile (\<lambda>c. c \<noteq> 0) (map p [0..<n])"

section \<open>Block fill and block move\<close>

lemma memset_loop_eq:
  "i \<le> n \<Longrightarrow> n \<le> 2 ^ 64 \<Longrightarrow>
    memset_loop m d c i n x = (if i \<le> unat (x - d) \<and> unat (x - d) < n then c else m x)"
proof (induction m d c i n rule: memset_loop.induct)
  case (1 m d c i n)
  show ?case
  proof (cases "i < n")
    case True
    have "(x = d + of_nat i) = (unat (x - d) = i)"
      using True 1(3) by (intro addr_offset_iff) simp
    moreover have "memset_loop (m(d + of_nat i := c)) d c (Suc i) n x
        = (if Suc i \<le> unat (x - d) \<and> unat (x - d) < n then c else (m(d + of_nat i := c)) x)"
      using 1(1) [OF True] 1(3) True by (simp del: fun_upd_apply)
    ultimately show ?thesis
      using True by (subst memset_loop.simps) auto
  next
    case False
    then show ?thesis using 1(2) by (subst memset_loop.simps) auto
  qed
qed

lemma memset_eq: "n \<le> 2 ^ 64 \<Longrightarrow> memset m d c n = mwrite m d (replicate n c)"
  by (rule ext) (auto simp: memset_def memset_loop_eq mwrite_def)

text \<open>
  Copying upwards is safe when no byte is overwritten before it is read, copying
  downwards in the mirrored case.
\<close>

lemma memmove_up_eq:
  assumes "n \<le> 2 ^ 64" and "\<And>i j. j < i \<Longrightarrow> i < n \<Longrightarrow> d + of_nat j \<noteq> s + of_nat i"
  shows "memmove_up m d s n = mwrite m d (mread m s n)"
  using assms
proof (induction n arbitrary: m d s)
  case 0
  then show ?case by simp
next
  case (Suc n)
  have sep: "d + 1 + of_nat j \<noteq> s + 1 + of_nat i" if "j < i" "i < n" for i j
    using Suc.prems(2) [of "Suc j" "Suc i"] that by (simp add: algebra_simps)
  have "mread (m(d := m s)) (s + 1) n = mread m (s + 1) n"
  proof (rule mread_cong)
    fix i assume "i < n"
    then have "d \<noteq> s + 1 + of_nat i" using Suc.prems(2) [of 0 "Suc i"] by (simp add: algebra_simps)
    then show "(m(d := m s)) (s + 1 + of_nat i) = m (s + 1 + of_nat i)" by auto
  qed
  then show ?case
    using Suc.IH [OF _ sep] Suc.prems(1) by (simp add: mread_Suc mwrite_Cons)
qed

lemma memmove_down_eq:
  assumes "n \<le> 2 ^ 64" and "\<And>i j. i < j \<Longrightarrow> j < n \<Longrightarrow> d + of_nat j \<noteq> s + of_nat i"
  shows "memmove_down m (d + of_nat n) (s + of_nat n) n = mwrite m d (mread m s n)"
  using assms
proof (induction n arbitrary: m)
  case 0
  then show ?case by simp
next
  case (Suc n)
  let ?m = "m(d + of_nat n := m (s + of_nat n))"
  have rd: "mread ?m s n = mread m s n"
  proof (rule mread_cong)
    fix i assume "i < n"
    then have "d + of_nat n \<noteq> s + of_nat i" using Suc.prems(2) [of i n] by simp
    then show "?m (s + of_nat i) = m (s + of_nat i)" by auto
  qed
  have "memmove_down m (d + of_nat (Suc n)) (s + of_nat (Suc n)) (Suc n)
      = memmove_down ?m (d + of_nat n) (s + of_nat n) n"
    by (simp add: algebra_simps)
  also have "\<dots> = mwrite ?m d (mread m s n)"
    using Suc.IH [of ?m] Suc.prems rd by (simp del: fun_upd_apply)
  also have "\<dots> = mwrite m d (mread m s (Suc n))"
  proof -
    have "mwrite ?m d (mread m s n) = (mwrite m d (mread m s n))(d + of_nat n := m (s + of_nat n))"
      using Suc.prems(1) by (auto simp: mwrite_def fun_eq_iff addr_offset_iff)
    then show ?thesis using Suc.prems(1) by (simp add: mread_snoc mwrite_snoc)
  qed
  finally show ?case .
qed

text \<open>A range that does not run past the end of the address space.\<close>

definition no_wrap :: "u64 \<Rightarrow> nat \<Rightarrow> bool" where
  "no_wrap a n \<longleftrightarrow> unat a + n < 2 ^ 64"

lemma memmove_eq:
  assumes "no_wrap dst n" "no_wrap src n"
  shows "memmove m dst src n = mwrite m dst (mread m src n)"
proof (cases "src < dst \<and> src + of_nat n > dst")
  case True
  have "dst + of_nat j \<noteq> src + of_nat i" if "i < j" "j < n" for i j
  proof -
    have "unat src + i < unat dst + j" using True that by (simp add: word_less_nat_alt)
    then show ?thesis
      using assms that unat_plus_nat [of dst j] unat_plus_nat [of src i] by (auto simp: no_wrap_def)
  qed
  then show ?thesis
    using True assms by (simp add: memmove_def memmove_down_eq no_wrap_def)
next
  case False
  have "dst + of_nat j \<noteq> src + of_nat i" if "j < i" "i < n" for i j
  proof
    assume "dst + of_nat j = src + of_nat i"
    then have "unat dst + j = unat src + i"
      using assms that unat_plus_nat [of dst j] unat_plus_nat [of src i] by (auto simp: no_wrap_def)
    moreover have "\<not> (unat src < unat dst \<and> unat dst < unat src + n)"
      using False assms unat_plus_nat [of src n] by (auto simp: word_less_nat_alt no_wrap_def)
    ultimately show False using that by linarith
  qed
  then show ?thesis
    using False assms by (auto simp: memmove_def memmove_up_eq no_wrap_def)
qed

section \<open>Strings\<close>

lemma cstr_0 [simp]: "cstr p 0 = []"
  by (simp add: cstr_def)

lemma cstr_Suc: "cstr p (Suc n) = (if p 0 = 0 then [] else p 0 # cstr (\<lambda>i. p (Suc i)) n)"
proof -
  have "map p [0..<Suc n] = p 0 # map (\<lambda>i. p (Suc i)) [0..<n]"
    by (rule nth_equalityI) (auto simp: nth_Cons split: nat.splits simp del: upt_Suc)
  then show ?thesis unfolding cstr_def by simp
qed

lemma length_cstr: "length (cstr p n) \<le> n"
  unfolding cstr_def by (metis diff_zero length_map length_takeWhile_le length_upt)

lemma cstr_nonzero: "0 \<notin> set (cstr p n)"
  unfolding cstr_def by (auto dest: set_takeWhileD)

lemma cstr_cong: "(\<And>i. i < n \<Longrightarrow> p i = q i) \<Longrightarrow> cstr p n = cstr q n"
  unfolding cstr_def by (rule arg_cong [where f = "takeWhile (\<lambda>c. c \<noteq> 0)"]) simp

lemma chars_at_Suc: "chars_at m a (Suc i) = chars_at m (a + 1) i"
  by (simp add: chars_at_def algebra_simps)

lemma chars_at_0 [simp]: "chars_at m a 0 = m a"
  by (simp add: chars_at_def)

lemma cstr_at_Suc: "cstr (chars_at m a) (Suc n) = (if m a = 0 then [] else m a # cstr (chars_at m (a + 1)) n)"
  by (simp add: cstr_Suc chars_at_Suc)

lemma strncmp_0_iff: "strncmp p q n = 0 \<longleftrightarrow> cstr p n = cstr q n"
proof (induction p q n rule: strncmp.induct)
  case (1 p q n)
  show ?case
  proof (cases n)
    case 0
    then show ?thesis by (simp add: strncmp.simps)
  next
    case (Suc k)
    then show ?thesis
      using 1 by (subst strncmp.simps) (auto simp: cstr_Suc word_uint_eq_iff)
  qed
qed

lemma strlen_from_Some:
  "(\<And>i. n \<le> i \<Longrightarrow> i < k \<Longrightarrow> s i \<noteq> 0) \<Longrightarrow> s k = 0 \<Longrightarrow> n \<le> k \<Longrightarrow> strlen_from s n = Some k"
proof (induction "k - n" arbitrary: n)
  case 0
  then show ?case by (simp add: strlen_from.simps)
next
  case (Suc d)
  then have "strlen_from s (Suc n) = Some k" by (intro Suc.hyps) auto
  moreover have "s n \<noteq> 0" using Suc.prems Suc.hyps(2) by auto
  ultimately show ?case by (simp add: strlen_from.simps)
qed

lemma strlen_eq: "(\<And>i. i < k \<Longrightarrow> s i \<noteq> 0) \<Longrightarrow> s k = 0 \<Longrightarrow> strlen s = Some k"
  unfolding strlen_def by (rule strlen_from_Some) auto

lemma strncpy_pad_eq: "n \<le> 2 ^ 64 \<Longrightarrow> strncpy_pad m s n = mwrite m s (replicate n 0)"
  by (induction n arbitrary: m s) (auto simp: mwrite_Cons simp del: fun_upd_apply)

text \<open>The source of a string copy is not overwritten by it.\<close>

lemma cstr_upd_before:
  "d \<notin> (\<lambda>i. a + of_nat i) ` {..<n} \<Longrightarrow> cstr (chars_at (m(d := v)) a) n = cstr (chars_at m a) n"
  by (rule cstr_cong) (auto simp: chars_at_def)

lemma disjoint_range_step:
  assumes "disjoint_range s (Suc n) t (Suc n)"
  shows "disjoint_range (s + 1) n (t + 1) n" "s \<notin> (\<lambda>i. t + 1 + of_nat i) ` {..<n}"
proof -
  have *: "s + of_nat i \<noteq> t + of_nat j" if "i < Suc n" "j < Suc n" for i j
    using assms that unfolding disjoint_range_def by blast
  show "disjoint_range (s + 1) n (t + 1) n"
    unfolding disjoint_range_def using *[of "Suc i" "Suc j" for i j] by (auto simp: algebra_simps)
  show "s \<notin> (\<lambda>i. t + 1 + of_nat i) ` {..<n}"
    using *[of 0 "Suc j" for j] by (auto simp: algebra_simps)
qed

lemma strncpy_nat_eq:
  assumes "n \<le> 2 ^ 64" "disjoint_range s n t n"
  shows "(case strncpy_copy m s t n of (m', s', k) \<Rightarrow> strncpy_pad m' s' k)
    = mwrite m s (take n (cstr (chars_at m t) n @ replicate n 0))"
  using assms
proof (induction n arbitrary: m s t)
  case 0
  then show ?case by simp
next
  case (Suc n)
  note sep = disjoint_range_step [OF Suc.prems(2)]
  show ?case
  proof (cases "m t = 0")
    case True
    then show ?thesis
      using Suc.prems(1) by (simp add: cstr_at_Suc strncpy_pad_eq mwrite_Cons del: fun_upd_apply)
  next
    case False
    let ?m = "m(s := m t)" and ?c = "cstr (chars_at m (t + 1)) n"
    have len: "length ?c \<le> n" by (rule length_cstr)
    have "(case strncpy_copy ?m (s + 1) (t + 1) n of (m', s', k) \<Rightarrow> strncpy_pad m' s' k)
        = mwrite ?m (s + 1) (take n (?c @ replicate n 0))"
      using Suc.IH [of "s + 1" "t + 1" ?m] Suc.prems(1) sep
      by (simp add: cstr_upd_before del: fun_upd_apply)
    also have "\<dots> = mwrite m s (m t # take n (?c @ replicate n 0))"
      using Suc.prems(1) len by (subst mwrite_Cons) auto
    also have "m t # take n (?c @ replicate n 0) = take (Suc n) (cstr (chars_at m t) (Suc n) @ replicate (Suc n) 0)"
      using False len by (simp add: cstr_at_Suc min_def flip: replicate_Suc)
    finally show ?thesis using False by (simp del: fun_upd_apply)
  qed
qed

lemma strncpy_eq:
  "0 \<le> n \<Longrightarrow> nat n \<le> 2 ^ 64 \<Longrightarrow> disjoint_range s (nat n) t (nat n) \<Longrightarrow>
    strncpy m s t n = mwrite m s (take (nat n) (cstr (chars_at m t) (nat n) @ replicate (nat n) 0))"
  unfolding strncpy_def by (rule strncpy_nat_eq)

lemma safestrcpy_nat_eq:
  assumes "n < 2 ^ 64 - 1" "disjoint_range s n t n"
  shows "(case safestrcpy_copy m s t n of (m', s') \<Rightarrow> m'(s' := 0))
    = mwrite m s (cstr (chars_at m t) n @ 0 # (if length (cstr (chars_at m t) n) < n then [0] else []))"
  using assms
proof (induction n arbitrary: m s t)
  case 0
  then show ?case by (simp add: mwrite_Cons)
next
  case (Suc n)
  note sep = disjoint_range_step [OF Suc.prems(2)]
  show ?case
  proof (cases "m t = 0")
    case True
    then show ?thesis by (simp add: cstr_at_Suc mwrite_Cons del: fun_upd_apply)
  next
    case False
    let ?m = "m(s := m t)" and ?c = "cstr (chars_at m (t + 1)) n"
    let ?r = "?c @ 0 # (if length ?c < n then [0] else [])"
    have len: "length ?c \<le> n" by (rule length_cstr)
    have "(case safestrcpy_copy ?m (s + 1) (t + 1) n of (m', s') \<Rightarrow> m'(s' := 0)) = mwrite ?m (s + 1) ?r"
      using Suc.IH [of "s + 1" "t + 1" ?m] Suc.prems(1) sep
      by (simp add: cstr_upd_before del: fun_upd_apply)
    also have "\<dots> = mwrite m s (m t # ?r)"
      using Suc.prems(1) len by (subst mwrite_Cons) auto
    finally show ?thesis using False by (simp add: cstr_at_Suc del: fun_upd_apply)
  qed
qed

lemma cstr_mwrite:
  assumes "length bs < n" "n \<le> 2 ^ 64" "0 \<notin> set bs"
  shows "cstr (chars_at (mwrite m s (bs @ 0 # zs)) s) n = bs"
proof -
  let ?l = "map (chars_at (mwrite m s (bs @ 0 # zs)) s) [0..<n]"
  have nth: "?l ! i = (bs @ [0]) ! i" if "i \<le> length bs" for i
    using that assms by (simp add: chars_at_def mwrite_def unat_of_nat_64 nth_append)
  have "?l ! i \<noteq> 0" if "i < length bs" for i
  proof -
    have "bs ! i \<noteq> 0" using that assms(3) by (metis nth_mem)
    then show ?thesis using nth [of i] that by (simp add: nth_append)
  qed
  moreover have "?l ! length bs = 0"
    using nth [of "length bs"] by simp
  ultimately have "takeWhile (\<lambda>c. c \<noteq> 0) ?l = take (length bs) ?l"
    by (intro takeWhile_eq_take_P_nth) blast+
  also have "\<dots> = bs"
    by (rule nth_equalityI) (use nth assms in \<open>auto simp: nth_append\<close>)
  finally show ?thesis unfolding cstr_def .
qed

section \<open>Properties\<close>

text \<open>
  C22. \<^verbatim>\<open>memmove\<close> is correct for every overlap of its ranges: the destination ends up
  holding the bytes the source held before the call, and no other byte changes.
\<close>

theorem memmove_correct:
  assumes "no_wrap dst n" and "no_wrap src n"
  shows "mread (memmove m dst src n) dst n = mread m src n
    \<and> (\<forall>x. \<not> unat (x - dst) < n \<longrightarrow> memmove m dst src n x = m x)"
  using assms by (auto simp: memmove_eq mread_mwrite_same mwrite_outside no_wrap_def)

theorem memmove_correct_witness:
  "mread (memmove (\<lambda>x. ucast x) 102 100 4) 102 4 = [100, 101, 102, 103]"
proof -
  have "no_wrap 102 4" "no_wrap 100 4" by (simp_all add: no_wrap_def)
  then have "mread (memmove (\<lambda>x. ucast x) 102 100 4) 102 4 = mread (\<lambda>x. ucast x) 100 4"
    using memmove_correct [of 102 4 100 "\<lambda>x. ucast x"] by blast
  then show ?thesis by (simp add: mread_def upt_rec)
qed

text \<open>
  C23. \<^verbatim>\<open>safestrcpy\<close> always leaves a NUL-terminated string in the \<open>n\<close> bytes of its
  destination: the source string cut to \<open>n - 1\<close> characters. It writes nothing outside them.
\<close>

theorem safestrcpy_correct:
  assumes "0 < n" and "n < 2 ^ 31" and "disjoint_range s (nat n) t (nat n)"
  shows "cstr (chars_at (safestrcpy m s t n) s) (nat n) = cstr (chars_at m t) (nat n - 1)
    \<and> (\<exists>k < nat n. safestrcpy m s t n (s + of_nat k) = 0)
    \<and> (\<forall>x. \<not> unat (x - s) < nat n \<longrightarrow> safestrcpy m s t n x = m x)"
proof -
  let ?c = "cstr (chars_at m t) (nat n - 1)"
  let ?z = "if length ?c < nat n - 1 then [0 :: u8] else []"
  have small: "nat n < 2 ^ 31" using assms(1,2) by simp
  have "disjoint_range s (nat n - 1) t (nat n - 1)"
    using assms(3) by (auto simp: disjoint_range_def)
  then have eq: "safestrcpy m s t n = mwrite m s (?c @ 0 # ?z)"
    using assms(1) small by (simp add: safestrcpy_def safestrcpy_nat_eq nat_diff_distrib')
  have len: "length ?c < nat n" using length_cstr [of "chars_at m t" "nat n - 1"] assms(1) by linarith
  have "length (?c @ 0 # ?z) \<le> nat n"
    using len by (cases "length ?c < nat n - 1") (simp, linarith, simp)
  moreover have "safestrcpy m s t n (s + of_nat (length ?c)) = 0"
    unfolding eq using len small by (simp add: mwrite_def unat_of_nat_64)
  ultimately show ?thesis
    using cstr_mwrite [OF len _ cstr_nonzero, of m s ?z] small len
    unfolding eq by (auto intro!: exI [of _ "length ?c"] simp: mwrite_def)
qed

theorem safestrcpy_correct_witness:
  "cstr (chars_at (safestrcpy (\<lambda>x. if x = 203 then 0 else 65) 100 200 3) 100) 3 = [65, 65]"
proof -
  have "disjoint_range 100 (nat 3) 200 (nat 3)"
    by (auto simp: disjoint_range_def less_Suc_eq numeral_3_eq_3)
  then show ?thesis
    using safestrcpy_correct [of 3 100 200 "\<lambda>x. if x = 203 then 0 else 65"]
    by (simp add: cstr_def chars_at_def upt_rec)
qed

end
