(* ===== verification/Riscv.thy ===== *)
theory Riscv
  imports Xv6_Prelude
begin

text \<open>
  The address-arithmetic macros of \<^verbatim>\<open>kernel/riscv.h\<close> and the memory layout of
  \<^verbatim>\<open>kernel/memlayout.h\<close>: page rounding, page-table entries, the indices of a Sv39
  virtual address, and the laws that make them inverse to each other.
\<close>

section \<open>Pages\<close>

definition PGSIZE :: u64 where "PGSIZE = 4096"
definition PGSHIFT :: nat where "PGSHIFT = 12"

definition PGROUNDUP :: "u64 \<Rightarrow> u64" where
  "PGROUNDUP sz = (sz + PGSIZE - 1) AND NOT (PGSIZE - 1)"

definition PGROUNDDOWN :: "u64 \<Rightarrow> u64" where
  "PGROUNDDOWN a = a AND NOT (PGSIZE - 1)"

section \<open>Page-table entries\<close>

definition PTE_V :: u64 where "PTE_V = push_bit 0 1"
definition PTE_R :: u64 where "PTE_R = push_bit 1 1"
definition PTE_W :: u64 where "PTE_W = push_bit 2 1"
definition PTE_X :: u64 where "PTE_X = push_bit 3 1"
definition PTE_U :: u64 where "PTE_U = push_bit 4 1"

lemmas PTE_bits = PTE_V_def PTE_R_def PTE_W_def PTE_X_def PTE_U_def

definition PA2PTE :: "u64 \<Rightarrow> u64" where "PA2PTE pa = push_bit 10 (drop_bit 12 pa)"
definition PTE2PA :: "u64 \<Rightarrow> u64" where "PTE2PA pte = push_bit 12 (drop_bit 10 pte)"
definition PTE_FLAGS :: "u64 \<Rightarrow> u64" where "PTE_FLAGS pte = pte AND 0x3FF"

section \<open>Virtual addresses\<close>

definition PXMASK :: u64 where "PXMASK = 0x1FF"
definition PXSHIFT :: "nat \<Rightarrow> nat" where "PXSHIFT level = PGSHIFT + 9 * level"
definition PX :: "nat \<Rightarrow> u64 \<Rightarrow> u64" where "PX level va = drop_bit (PXSHIFT level) va AND PXMASK"

definition MAXVA :: u64 where "MAXVA = push_bit (9 + 9 + 9 + 12 - 1) 1"

section \<open>Memory layout\<close>

definition UART0 :: u64 where "UART0 = 0x10000000"
definition VIRTIO0 :: u64 where "VIRTIO0 = 0x10001000"
definition CLINT :: u64 where "CLINT = 0x2000000"
definition PLIC :: u64 where "PLIC = 0x0c000000"
definition KERNBASE :: u64 where "KERNBASE = 0x80000000"
definition PHYSTOP :: u64 where "PHYSTOP = KERNBASE + 128 * 1024 * 1024"
definition TRAMPOLINE :: u64 where "TRAMPOLINE = MAXVA - PGSIZE"
definition KSTACK :: "nat \<Rightarrow> u64" where "KSTACK p = TRAMPOLINE - (of_nat p + 1) * 2 * PGSIZE"
definition TRAPFRAME :: u64 where "TRAPFRAME = TRAMPOLINE - PGSIZE"

lemmas layout_defs = MAXVA_def KERNBASE_def PHYSTOP_def TRAMPOLINE_def TRAPFRAME_def PGSIZE_def
  UART0_def VIRTIO0_def CLINT_def PLIC_def

section \<open>Laws\<close>

lemma bit_PGMASK: "bit (PGSIZE - 1) n \<longleftrightarrow> n < 12"
proof -
  have "PGSIZE - 1 = (mask 12 :: u64)" by (simp add: PGSIZE_def mask_eq_exp_minus_1)
  then show ?thesis by (auto simp: bit_mask_iff)
qed

lemma PGROUNDDOWN_eq: "PGROUNDDOWN a = push_bit 12 (drop_bit 12 a)"
  unfolding PGROUNDDOWN_def by (rule bit_word_eqI) (auto simp: bit_simps bit_PGMASK)

lemma unat_PGROUNDDOWN: "unat (PGROUNDDOWN a) = 4096 * (unat a div 4096)"
proof -
  have "unat a div 4096 < 2 ^ 52"
    using unat_lt2p64 [of a] by (simp add: less_mult_imp_div_less)
  moreover have "unat (drop_bit 12 a) = unat a div 4096"
    by (simp add: drop_bit_eq_div unat_div)
  ultimately show ?thesis
    unfolding PGROUNDDOWN_eq unsigned_push_bit_eq by (simp add: push_bit_eq_mult take_bit_eq_mod)
qed

lemma aligned_PGROUNDDOWN: "aligned 12 (PGROUNDDOWN a)"
  by (simp add: aligned_def unat_PGROUNDDOWN)

lemma PGROUNDUP_DOWN: "PGROUNDUP a = PGROUNDDOWN (a + 4095)"
  by (simp add: PGROUNDUP_def PGROUNDDOWN_def PGSIZE_def add.commute)

lemma aligned_PGROUNDUP: "aligned 12 (PGROUNDUP a)"
  by (simp add: PGROUNDUP_DOWN aligned_PGROUNDDOWN)

lemma unat_PGROUNDUP:
  "unat a + 4095 < 2 ^ 64 \<Longrightarrow> unat (PGROUNDUP a) = 4096 * ((unat a + 4095) div 4096)"
  using unat_plus_nat [of a 4095] by (simp add: PGROUNDUP_DOWN unat_PGROUNDDOWN)

lemma aligned_iff_mod: "pa mod PGSIZE = 0 \<longleftrightarrow> aligned 12 pa"
  by (simp add: PGSIZE_def aligned_def word_unat_eq_iff unat_mod mod_eq_0_iff_dvd)

lemma PGROUNDDOWN_aligned [simp]: "aligned 12 a \<Longrightarrow> PGROUNDDOWN a = a"
  by (simp add: word_unat_eq_iff unat_PGROUNDDOWN aligned_def)

lemma bit_u64: "bit (a :: u64) n \<Longrightarrow> n < 64"
  using bit_imp_le_length [of a n] by simp

lemma aligned_bits: "aligned k a \<longleftrightarrow> (\<forall>n < k. \<not> bit a n)"
proof -
  have "aligned k a \<longleftrightarrow> take_bit k a = 0"
    unfolding aligned_def word_unat_eq_iff unsigned_take_bit_eq by (simp add: take_bit_eq_0_iff)
  also have "\<dots> \<longleftrightarrow> (\<forall>n < k. \<not> bit a n)"
    by (auto simp: bit_eq_iff bit_simps dest: bit_u64)
  finally show ?thesis .
qed

lemma less_pow2_bits:
  assumes "(a :: u64) < 2 ^ k" "k < 64" "k \<le> n"
  shows "\<not> bit a n"
proof -
  have "(2::nat) ^ k < 2 ^ 64" using assms(2) by (rule power_strict_increasing) simp
  then have "unat (2 ^ k :: u64) = 2 ^ k" using unat_of_nat_64 [of "2 ^ k"] by simp
  then have "unat a < 2 ^ k" using assms(1) by (simp add: word_less_nat_alt)
  then have "unat a < 2 ^ n"
    using power_increasing [OF assms(3), of "2::nat"] by (simp add: less_le_trans)
  then have "drop_bit n (unat a) = 0" by (simp add: drop_bit_eq_div)
  then have "\<not> bit (unat a) n" by (simp add: bit_iff_odd drop_bit_eq_div)
  then show ?thesis by (simp add: bit_unsigned_iff)
qed

lemma PTE2PA_PA2PTE:
  assumes "aligned 12 pa" "pa < 2 ^ 56" "flags < 2 ^ 10"
  shows "PTE2PA (PA2PTE pa OR flags) = pa"
proof (rule bit_word_eqI)
  fix n assume n: "n < LENGTH(64)"
  show "bit (PTE2PA (PA2PTE pa OR flags)) n = bit pa n"
  proof (cases "n < 12")
    case True
    then show ?thesis using assms(1) by (simp add: PTE2PA_def bit_simps aligned_bits)
  next
    case False
    then have "\<not> bit flags (n - 2)" by (intro less_pow2_bits [OF assms(3)]) auto
    moreover have "bit pa n \<Longrightarrow> n < 56"
      using less_pow2_bits [OF assms(2), of n] by fastforce
    ultimately show ?thesis using False n by (auto simp: PTE2PA_def PA2PTE_def bit_simps)
  qed
qed

end
