(* ===== verification/Kalloc.thy ===== *)
theory Kalloc
  imports Kstring Riscv
begin

text \<open>
  The physical page allocator of \<^verbatim>\<open>kernel/kalloc.c\<close>. The free list is threaded through
  the free pages themselves: the first eight bytes of a free page hold the address of the
  next one. \<open>kend\<close> is the linker symbol \<^verbatim>\<open>end\<close>, the first address after the kernel image.
  The routines run under \<^verbatim>\<open>kmem.lock\<close>, so each is one atomic step here.
\<close>

section \<open>The allocator\<close>

record kmem =
  ram :: mem
  freelist :: u64

definition kfree :: "u64 \<Rightarrow> u64 \<Rightarrow> kmem \<Rightarrow> kmem kres" where
  "kfree kend pa k =
     (if pa mod PGSIZE \<noteq> 0 \<or> pa < kend \<or> pa \<ge> PHYSTOP then Panic ''kfree''
      else let m = memset (ram k) pa 1 4096;
               m = write64 m pa (freelist k)
           in Ok (k\<lparr>ram := m, freelist := pa\<rparr>))"

function freerange_loop :: "u64 \<Rightarrow> u64 \<Rightarrow> u64 \<Rightarrow> kmem \<Rightarrow> kmem kres" where
  "freerange_loop kend p pa_end k =
     (if p + PGSIZE \<le> pa_end
      then kbind (kfree kend p k) (\<lambda>k. freerange_loop kend (p + PGSIZE) pa_end k)
      else Ok k)"
  by pat_completeness auto
termination
proof (relation "measure (\<lambda>(kend, p, pa_end, k). unat PHYSTOP - unat p)", goal_cases)
  case (2 kend p pa_end k k')
  then have "p < PHYSTOP" by (auto simp: kfree_def split: if_splits)
  then have "unat p < unat PHYSTOP" by (simp add: word_less_nat_alt)
  moreover have "unat (p + PGSIZE) = unat p + 4096"
    using unat_plus_nat [of p 4096] \<open>p < PHYSTOP\<close>
    by (simp add: PGSIZE_def PHYSTOP_def KERNBASE_def word_less_nat_alt)
  ultimately show ?case by simp
qed simp

definition freerange :: "u64 \<Rightarrow> u64 \<Rightarrow> u64 \<Rightarrow> kmem \<Rightarrow> kmem kres" where
  "freerange kend pa_start pa_end k = freerange_loop kend (PGROUNDUP pa_start) pa_end k"

definition kinit :: "u64 \<Rightarrow> kmem \<Rightarrow> kmem kres" where
  "kinit kend k = freerange kend kend PHYSTOP k"

definition kalloc :: "kmem \<Rightarrow> kmem \<times> u64" where
  "kalloc k =
     (let r = freelist k;
          k = (if r \<noteq> 0 then k\<lparr>freelist := read64 (ram k) r\<rparr> else k)
      in if r \<noteq> 0 then (k\<lparr>ram := memset (ram k) r 5 4096\<rparr>, r) else (k, r))"

declare freerange_loop.simps [simp del]

section \<open>The free list in memory\<close>

text \<open>\<open>flist m h ps\<close>: following the links from \<open>h\<close> visits exactly the pages \<open>ps\<close>.\<close>

primrec flist :: "mem \<Rightarrow> u64 \<Rightarrow> u64 list \<Rightarrow> bool" where
  "flist m h [] \<longleftrightarrow> h = 0"
| "flist m h (p # ps) \<longleftrightarrow> h = p \<and> p \<noteq> 0 \<and> flist m (read64 m p) ps"

definition is_page :: "u64 \<Rightarrow> u64 \<Rightarrow> bool" where
  "is_page kend p \<longleftrightarrow> p \<noteq> 0 \<and> aligned 12 p \<and> kend \<le> p \<and> p < PHYSTOP"

definition kmem_inv :: "u64 \<Rightarrow> kmem \<Rightarrow> u64 list \<Rightarrow> bool" where
  "kmem_inv kend k ps \<longleftrightarrow>
     flist (ram k) (freelist k) ps \<and> distinct ps \<and> (\<forall>p \<in> set ps. is_page kend p)"

lemma flist_cong: "(\<And>p. p \<in> set ps \<Longrightarrow> read64 m p = read64 m' p) \<Longrightarrow> flist m h ps = flist m' h ps"
  by (induction ps arbitrary: h) auto

lemma flist_Nil_iff: "flist m 0 ps \<longleftrightarrow> ps = []"
  by (cases ps) auto

text \<open>\<open>same_outside\<close>: two memories that agree outside one page.\<close>

definition same_outside :: "u64 \<Rightarrow> mem \<Rightarrow> mem \<Rightarrow> bool" where
  "same_outside p m m' \<longleftrightarrow> (\<forall>x. \<not> unat (x - p) < 4096 \<longrightarrow> m x = m' x)"

lemma same_outside_refl [simp]: "same_outside p m m"
  by (simp add: same_outside_def)

lemma same_outside_trans: "same_outside p m m' \<Longrightarrow> same_outside p m' m'' \<Longrightarrow> same_outside p m m''"
  by (simp add: same_outside_def)

lemma same_outside_mwrite: "length bs \<le> 4096 \<Longrightarrow> same_outside p m (mwrite m p bs)"
  by (auto simp: same_outside_def mwrite_def)

lemma same_outside_memset: "same_outside p m (memset m p c 4096)"
  by (simp add: memset_eq same_outside_mwrite)

lemma same_outside_write64: "same_outside p m (write64 m p v)"
  by (simp add: write64_def same_outside_mwrite)

lemma page_offset_iff:
  assumes "aligned 12 p" "aligned 12 q" "p \<noteq> q" "i < 4096"
  shows "\<not> unat (q + of_nat i - p) < 4096"
  using disjoint_range_outside [of q 4096 p 4096 i] aligned_disjoint [of 12 q p 4096 4096] assms
  by simp

lemma same_outside_mread:
  assumes "same_outside p m m'" "aligned 12 p" "aligned 12 q" "p \<noteq> q" "n \<le> 4096"
  shows "mread m q n = mread m' q n"
  using assms page_offset_iff [of p q] by (intro mread_cong) (auto simp: same_outside_def)

lemma same_outside_read64:
  "same_outside p m m' \<Longrightarrow> aligned 12 p \<Longrightarrow> aligned 12 q \<Longrightarrow> p \<noteq> q \<Longrightarrow> read64 m q = read64 m' q"
  unfolding read64_def by (subst same_outside_mread) auto

text \<open>Storing into a page that is not free keeps the free list.\<close>

lemma kmem_inv_frame:
  assumes "kmem_inv kend k ps" "same_outside p (ram k) m" "aligned 12 p" "p \<notin> set ps"
  shows "kmem_inv kend (k\<lparr>ram := m\<rparr>) ps"
proof -
  have "read64 (ram k) q = read64 m q" if "q \<in> set ps" for q
    using assms that by (intro same_outside_read64) (auto simp: kmem_inv_def is_page_def)
  then show ?thesis using assms(1) flist_cong [of ps "ram k" m] by (simp add: kmem_inv_def)
qed

section \<open>The allocator refines a stack of pages\<close>

lemma kalloc_empty: "kmem_inv kend k [] \<Longrightarrow> kalloc k = (k, 0)"
  by (simp add: kmem_inv_def kalloc_def)

lemma kalloc_pop:
  assumes "kmem_inv kend k (p # ps)"
  shows "\<exists>k'. kalloc k = (k', p) \<and> kmem_inv kend k' ps \<and> same_outside p (ram k) (ram k')
    \<and> mread (ram k') p 4096 = replicate 4096 5"
proof -
  let ?k = "k\<lparr>freelist := read64 (ram k) p\<rparr>"
  have p: "freelist k = p" "p \<noteq> 0" "aligned 12 p" "p \<notin> set ps"
    using assms by (auto simp: kmem_inv_def is_page_def)
  have "kmem_inv kend ?k ps" using assms by (simp add: kmem_inv_def)
  then have "kmem_inv kend (?k\<lparr>ram := memset (ram k) p 5 4096\<rparr>) ps"
    by (rule kmem_inv_frame) (use p same_outside_memset in auto)
  then show ?thesis
    using p same_outside_memset [of p "ram k" 5] by (auto simp: kalloc_def memset_eq mread_mwrite_same)
qed

lemma kfree_push:
  assumes "kmem_inv kend k ps" "is_page kend p" "p \<notin> set ps"
  shows "\<exists>k'. kfree kend p k = Ok k' \<and> kmem_inv kend k' (p # ps) \<and> same_outside p (ram k) (ram k')"
proof -
  let ?m = "write64 (memset (ram k) p 1 4096) p (freelist k)"
  have so: "same_outside p (ram k) ?m"
    using same_outside_memset same_outside_write64 same_outside_trans by blast
  have "kmem_inv kend (k\<lparr>ram := ?m\<rparr>) ps"
    by (rule kmem_inv_frame [OF assms(1) so]) (use assms in \<open>auto simp: is_page_def\<close>)
  then have "kmem_inv kend (k\<lparr>ram := ?m, freelist := p\<rparr>) (p # ps)"
    using assms(2,3) by (simp add: kmem_inv_def is_page_def)
  then show ?thesis
    using assms(2) so by (auto simp: kfree_def aligned_iff_mod is_page_def Let_def)
qed

lemma kfree_panics: "\<not> is_page kend p \<Longrightarrow> p \<noteq> 0 \<Longrightarrow> kfree kend p k = Panic ''kfree''"
  by (auto simp: kfree_def aligned_iff_mod is_page_def)

section \<open>The allocator interface\<close>

text \<open>
  What the rest of the kernel relies on: an allocator hands out the pages of a list one by
  one and takes back any page that is not in it.
\<close>

locale page_allocator =
  fixes alloc :: "'s \<Rightarrow> 's \<times> u64"
    and free :: "u64 \<Rightarrow> 's \<Rightarrow> 's kres"
    and invar :: "'s \<Rightarrow> u64 list \<Rightarrow> bool"
    and page :: "u64 \<Rightarrow> bool"
  assumes alloc_pop: "invar s (p # ps) \<Longrightarrow> \<exists>s'. alloc s = (s', p) \<and> invar s' ps"
    and alloc_nil: "invar s [] \<Longrightarrow> alloc s = (s, 0)"
    and free_push: "invar s ps \<Longrightarrow> page p \<Longrightarrow> p \<notin> set ps \<Longrightarrow> \<exists>s'. free p s = Ok s' \<and> invar s' (p # ps)"
    and invar_distinct: "invar s ps \<Longrightarrow> distinct ps"
    and invar_page: "invar s ps \<Longrightarrow> p \<in> set ps \<Longrightarrow> page p"
    and page_nonnull: "page p \<Longrightarrow> p \<noteq> 0"
begin

lemma alloc_cases:
  assumes "invar s ps" "alloc s = (s', p)"
  shows "p = 0 \<and> ps = [] \<and> s' = s \<or> p \<noteq> 0 \<and> (\<exists>qs. ps = p # qs \<and> invar s' qs)"
proof (cases ps)
  case Nil
  then show ?thesis using assms alloc_nil by auto
next
  case (Cons q qs)
  then show ?thesis
    using assms alloc_pop [of s q qs] invar_page [of s ps q] page_nonnull by auto
qed

lemma alloc_fresh:
  assumes "invar s ps" "alloc s = (s', p)" "p \<noteq> 0"
  shows "page p \<and> p \<in> set ps \<and> (\<exists>qs. ps = p # qs \<and> invar s' qs \<and> p \<notin> set qs)"
  using alloc_cases [OF assms(1,2)] assms invar_distinct invar_page by fastforce

lemma alloc_free:
  assumes "invar s ps" "alloc s = (s', p)" "p \<noteq> 0"
  shows "\<exists>s''. free p s' = Ok s'' \<and> invar s'' ps"
  using alloc_fresh [OF assms] free_push by blast

end

interpretation ka: page_allocator kalloc "kfree kend" "kmem_inv kend" "is_page kend"
proof unfold_locales
  show "\<exists>s'. kalloc s = (s', p) \<and> kmem_inv kend s' ps" if "kmem_inv kend s (p # ps)" for s p ps
    using kalloc_pop [OF that] by blast
  show "\<exists>s'. kfree kend p s = Ok s' \<and> kmem_inv kend s' (p # ps)"
    if "kmem_inv kend s ps" "is_page kend p" "p \<notin> set ps" for s ps p
    using kfree_push [OF that] by blast
qed (auto simp: kalloc_empty kmem_inv_def is_page_def)

section \<open>Initialisation\<close>

definition pages_from :: "u64 \<Rightarrow> nat \<Rightarrow> u64 list" where
  "pages_from p n = map (\<lambda>i. p + of_nat (4096 * i)) [0..<n]"

lemma pages_from_Suc: "pages_from p (Suc n) = p # pages_from (p + 4096) n"
  unfolding pages_from_def
  by (rule nth_equalityI) (auto simp: nth_Cons algebra_simps simp del: upt_Suc split: nat.splits)

lemma unat_pages_from: "unat p + 4096 * n < 2 ^ 64 \<Longrightarrow> i < n \<Longrightarrow> unat (pages_from p n ! i) = unat p + 4096 * i"
  using unat_plus_nat [of p "4096 * i"] by (simp add: pages_from_def)

lemma freerange_loop_ok:
  assumes "kmem_inv kend k ps" "aligned 12 p" "p \<noteq> 0" "kend \<le> p" "pa_end \<le> PHYSTOP"
    and "unat p + 4096 * n \<le> unat pa_end" "unat pa_end < unat p + 4096 * Suc n"
    and "\<forall>q \<in> set ps. unat q < unat p"
  shows "\<exists>k'. freerange_loop kend p pa_end k = Ok k' \<and> kmem_inv kend k' (rev (pages_from p n) @ ps)"
  using assms
proof (induction n arbitrary: p k ps)
  case 0
  have "unat (p + PGSIZE) = unat p + 4096"
    using unat_plus_nat [of p 4096] 0(6) unat_lt2p64 [of pa_end] 0(5)
    by (simp add: PGSIZE_def PHYSTOP_def KERNBASE_def word_le_nat_alt)
  then have "\<not> p + PGSIZE \<le> pa_end" using 0(7) by (simp add: word_le_nat_alt)
  then show ?case using 0 by (simp add: freerange_loop.simps pages_from_def)
next
  case (Suc n)
  have small: "unat pa_end \<le> 0x88000000"
    using Suc.prems(5) by (simp add: PHYSTOP_def KERNBASE_def word_le_nat_alt)
  have next_p: "unat (p + PGSIZE) = unat p + 4096"
    using unat_plus_nat [of p 4096] Suc.prems(6) small by (simp add: PGSIZE_def)
  have ne: "p + PGSIZE \<noteq> 0" using next_p by (metis add_is_0 unat_0 zero_neq_numeral)
  have "unat p < unat PHYSTOP" using Suc.prems(6) small by (simp add: PHYSTOP_def KERNBASE_def)
  then have "is_page kend p" using Suc.prems by (simp add: is_page_def word_less_nat_alt)
  then obtain k1 where k1: "kfree kend p k = Ok k1" "kmem_inv kend k1 (p # ps)"
    using ka.free_push [OF Suc.prems(1)] Suc.prems(8) by blast
  have "\<exists>k'. freerange_loop kend (p + PGSIZE) pa_end k1 = Ok k'
      \<and> kmem_inv kend k' (rev (pages_from (p + PGSIZE) n) @ p # ps)"
    using Suc.prems next_p ne
    by (intro Suc.IH [OF k1(2)]) (auto simp: aligned_def word_le_nat_alt)
  moreover have "p + PGSIZE \<le> pa_end" using Suc.prems(6) next_p by (simp add: word_le_nat_alt)
  ultimately show ?case
    using k1(1) by (subst freerange_loop.simps) (simp add: pages_from_Suc PGSIZE_def)
qed

text \<open>All pages the allocator manages: those between the kernel image and \<^verbatim>\<open>PHYSTOP\<close>.\<close>

definition managed_pages :: "u64 \<Rightarrow> nat" where
  "managed_pages kend = (unat PHYSTOP - unat (PGROUNDUP kend)) div 4096"

definition all_pages :: "u64 \<Rightarrow> u64 list" where
  "all_pages kend = pages_from (PGROUNDUP kend) (managed_pages kend)"

definition in_ram :: "u64 \<Rightarrow> bool" where
  "in_ram kend \<longleftrightarrow> KERNBASE \<le> kend \<and> kend \<le> PHYSTOP"

lemma PGROUNDUP_in_ram:
  assumes "in_ram kend"
  shows "PGROUNDUP kend \<noteq> 0" "kend \<le> PGROUNDUP kend" "PGROUNDUP kend \<le> PHYSTOP"
proof -
  have b: "2147483648 \<le> unat kend" "unat kend \<le> 2281701376"
    using assms by (simp_all add: in_ram_def word_le_nat_alt KERNBASE_def PHYSTOP_def)
  have u: "unat (PGROUNDUP kend) = 4096 * ((unat kend + 4095) div 4096)"
    using b by (intro unat_PGROUNDUP) simp
  show "PGROUNDUP kend \<noteq> 0" using u b by (auto simp flip: unat_eq_0)
  show "kend \<le> PGROUNDUP kend" unfolding word_le_nat_alt u by linarith
  show "PGROUNDUP kend \<le> PHYSTOP" using u b by (simp add: word_le_nat_alt PHYSTOP_def KERNBASE_def)
qed

lemma managed_pages_bound: "x < d + 4096 * Suc ((x - d) div 4096)" for x d :: nat
proof -
  have "x - d < 4096 * Suc ((x - d) div 4096)"
    by (metis dividend_less_times_div mult_Suc_right zero_less_numeral)
  then show ?thesis by linarith
qed

lemma kinit_ok:
  assumes "in_ram kend" "freelist k = 0"
  shows "\<exists>k'. kinit kend k = Ok k' \<and> kmem_inv kend k' (rev (all_pages kend))"
proof -
  note r = PGROUNDUP_in_ram [OF assms(1)]
  have "kmem_inv kend k []" using assms(2) by (simp add: kmem_inv_def)
  moreover have "unat (PGROUNDUP kend) \<le> unat PHYSTOP" using r(3) by (simp add: word_le_nat_alt)
  then have "unat (PGROUNDUP kend) + 4096 * managed_pages kend \<le> unat PHYSTOP"
    unfolding managed_pages_def by linarith
  moreover have "unat PHYSTOP < unat (PGROUNDUP kend) + 4096 * Suc (managed_pages kend)"
    unfolding managed_pages_def by (rule managed_pages_bound)
  ultimately have "\<exists>k'. freerange_loop kend (PGROUNDUP kend) PHYSTOP k = Ok k'
      \<and> kmem_inv kend k' (rev (pages_from (PGROUNDUP kend) (managed_pages kend)) @ [])"
    by (intro freerange_loop_ok) (use r aligned_PGROUNDUP in auto)
  then show ?thesis by (simp add: kinit_def freerange_def all_pages_def)
qed

section \<open>Runs of the allocator with its clients\<close>

text \<open>
  A run of the allocator: boot, then any sequence of allocations, frees of pages the
  clients own, and stores of the clients into pages they own. \<open>U\<close> is the set of owned pages.
\<close>

inductive kmem_run :: "u64 \<Rightarrow> kmem \<Rightarrow> u64 set \<Rightarrow> bool" for kend where
  boot: "kinit kend k0 = Ok k \<Longrightarrow> freelist k0 = 0 \<Longrightarrow> kmem_run kend k {}"
| alloc: "kmem_run kend k U \<Longrightarrow> kalloc k = (k', p) \<Longrightarrow>
    kmem_run kend k' (if p = 0 then U else insert p U)"
| free: "kmem_run kend k U \<Longrightarrow> p \<in> U \<Longrightarrow> kfree kend p k = Ok k' \<Longrightarrow> kmem_run kend k' (U - {p})"
| store: "kmem_run kend k U \<Longrightarrow> p \<in> U \<Longrightarrow> i < 4096 \<Longrightarrow>
    kmem_run kend (k\<lparr>ram := (ram k)(p + of_nat i := v)\<rparr>) U"

definition kmem_owned :: "u64 \<Rightarrow> kmem \<Rightarrow> u64 set \<Rightarrow> bool" where
  "kmem_owned kend k U \<longleftrightarrow> (\<exists>ps. kmem_inv kend k ps \<and> U \<inter> set ps = {} \<and>
     U \<union> set ps = set (all_pages kend) \<and> (\<forall>p \<in> U. is_page kend p))"

lemma same_outside_store: "i < 4096 \<Longrightarrow> same_outside p m (m(p + of_nat i := v))"
  by (auto simp: same_outside_def unat_of_nat_64)

lemma kmem_run_owned: "kmem_run kend k U \<Longrightarrow> in_ram kend \<Longrightarrow> kmem_owned kend k U"
proof (induction rule: kmem_run.induct)
  case (boot k0 k)
  then show ?case
    using kinit_ok [of kend k0] by (auto simp: kmem_owned_def intro: exI [of _ "rev (all_pages kend)"])
next
  case (alloc k U k' p)
  then obtain ps where ps: "kmem_inv kend k ps" "U \<inter> set ps = {}" "U \<union> set ps = set (all_pages kend)"
    "\<forall>p \<in> U. is_page kend p" by (auto simp: kmem_owned_def)
  show ?case
  proof (cases "p = 0")
    case True
    then show ?thesis
      using ka.alloc_cases [OF ps(1) alloc(2)] alloc.IH [OF alloc.prems] by auto
  next
    case False
    then obtain qs where "ps = p # qs" "kmem_inv kend k' qs" "p \<notin> set qs" "is_page kend p"
      using ka.alloc_fresh [OF ps(1) alloc(2)] by blast
    then show ?thesis using ps False by (auto simp: kmem_owned_def intro!: exI [of _ qs])
  qed
next
  case (free k U p k')
  then obtain ps where ps: "kmem_inv kend k ps" "U \<inter> set ps = {}" "U \<union> set ps = set (all_pages kend)"
    "\<forall>p \<in> U. is_page kend p" by (auto simp: kmem_owned_def)
  then have "kmem_inv kend k' (p # ps)"
    using ka.free_push [OF ps(1), of p] free(2,3) by auto
  then show ?case using ps free(2) by (auto simp: kmem_owned_def intro!: exI [of _ "p # ps"])
next
  case (store k U p i v)
  then obtain ps where ps: "kmem_inv kend k ps" "U \<inter> set ps = {}" "U \<union> set ps = set (all_pages kend)"
    "\<forall>p \<in> U. is_page kend p" by (auto simp: kmem_owned_def)
  have "kmem_inv kend (k\<lparr>ram := (ram k)(p + of_nat i := v)\<rparr>) ps"
    by (rule kmem_inv_frame [OF ps(1) same_outside_store]) (use ps store in \<open>auto simp: is_page_def\<close>)
  then show ?case using ps by (auto simp: kmem_owned_def)
qed

section \<open>Properties\<close>

text \<open>
  C3. Exclusive ownership of physical pages. In every state reached from boot by allocations,
  frees of owned pages and stores into owned pages: \<^verbatim>\<open>kalloc\<close> returns an aligned page inside
  the managed memory that nobody owns, it returns 0 only when every managed page is owned,
  and \<^verbatim>\<open>kfree\<close> of an owned page does not panic.
\<close>

theorem kalloc_exclusive:
  assumes "kmem_run kend k U" and "in_ram kend"
  shows "(\<forall>k' p. kalloc k = (k', p) \<and> p \<noteq> 0 \<longrightarrow> p \<notin> U \<and> p \<in> set (all_pages kend) \<and> is_page kend p)
    \<and> (\<forall>k'. kalloc k = (k', 0) \<longrightarrow> U = set (all_pages kend))
    \<and> (\<forall>p \<in> U. \<exists>k'. kfree kend p k = Ok k')"
proof -
  obtain ps where ps: "kmem_inv kend k ps" "U \<inter> set ps = {}" "U \<union> set ps = set (all_pages kend)"
    "\<forall>p \<in> U. is_page kend p"
    using kmem_run_owned [OF assms] by (auto simp: kmem_owned_def)
  have "p \<notin> U \<and> p \<in> set (all_pages kend) \<and> is_page kend p"
    if "kalloc k = (k', p)" "p \<noteq> 0" for k' p
    using ka.alloc_fresh [OF ps(1) that] ps(2,3) by blast
  moreover have "U = set (all_pages kend)" if "kalloc k = (k', 0)" for k'
    using ka.alloc_cases [OF ps(1) that] ps(3) by simp
  moreover have "\<exists>k'. kfree kend p k = Ok k'" if "p \<in> U" for p
    using ka.free_push [OF ps(1), of p] ps(2,4) that by blast
  ultimately show ?thesis by blast
qed

theorem kalloc_exclusive_witness:
  "\<exists>k k1 p. kinit 0x87fff000 \<lparr>ram = (\<lambda>_. 0), freelist = 0\<rparr> = Ok k \<and> kalloc k = (k1, p) \<and>
     p = 0x87fff000 \<and> (\<exists>k2. kfree 0x87fff000 p k1 = Ok k2)"
proof -
  let ?k0 = "\<lparr>ram = (\<lambda>_. 0), freelist = 0\<rparr>" and ?kend = "0x87fff000 :: u64"
  have r: "in_ram ?kend" by (simp add: in_ram_def KERNBASE_def PHYSTOP_def)
  have ap: "all_pages ?kend = [?kend]"
    by (simp add: all_pages_def managed_pages_def PGROUNDUP_def PGSIZE_def PHYSTOP_def KERNBASE_def pages_from_def)
  obtain k where k: "kinit ?kend ?k0 = Ok k" "kmem_inv ?kend k [?kend]"
    using kinit_ok [OF r, of ?k0] ap by auto
  have run: "kmem_run ?kend k {}" by (rule kmem_run.boot [OF k(1)]) simp
  obtain k1 where k1: "kalloc k = (k1, ?kend)" using ka.alloc_pop [OF k(2)] by blast
  have "kmem_run ?kend k1 {?kend}" using kmem_run.alloc [OF run k1] by simp
  then have "\<exists>k2. kfree ?kend ?kend k1 = Ok k2" using kalloc_exclusive [OF _ r] by blast
  then show ?thesis using k(1) k1 by blast
qed

end
