(* ===== verification/Vm.thy ===== *)
theory Vm
  imports Kalloc
begin

text \<open>
  Virtual memory, \<^verbatim>\<open>kernel/vm.c\<close>. Page tables live in physical memory: a table is a page of
  512 entries of eight bytes, and the routines read and write those entries with 64-bit
  loads and stores. A pointer to an entry is its address, 0 the null pointer. Data copied
  from or to kernel variables is a byte list.
\<close>

section \<open>Walking the page table\<close>

definition pte_addr :: "u64 \<Rightarrow> nat \<Rightarrow> u64 \<Rightarrow> u64" where
  "pte_addr pagetable level va = pagetable + 8 * PX level va"

primrec walk_from :: "nat \<Rightarrow> u64 \<Rightarrow> u64 \<Rightarrow> bool \<Rightarrow> kmem \<Rightarrow> kmem \<times> u64" where
  "walk_from 0 pagetable va alloc k = (k, pte_addr pagetable 0 va)"
| "walk_from (Suc level) pagetable va alloc k =
     (let pte = pte_addr pagetable (Suc level) va in
      if read64 (ram k) pte AND PTE_V \<noteq> 0
      then walk_from level (PTE2PA (read64 (ram k) pte)) va alloc k
      else if \<not> alloc then (k, 0)
      else case kalloc k of (k, pagetable) \<Rightarrow>
        if pagetable = 0 then (k, 0)
        else let m = memset (ram k) pagetable 0 4096;
                 m = write64 m pte (PA2PTE pagetable OR PTE_V)
             in walk_from level pagetable va alloc (k\<lparr>ram := m\<rparr>))"

definition walk :: "u64 \<Rightarrow> u64 \<Rightarrow> bool \<Rightarrow> kmem \<Rightarrow> (kmem \<times> u64) kres" where
  "walk pagetable va alloc k =
     (if va \<ge> MAXVA then Panic ''walk'' else Ok (walk_from 2 pagetable va alloc k))"

definition walkaddr :: "u64 \<Rightarrow> u64 \<Rightarrow> kmem \<Rightarrow> u64 kres" where
  "walkaddr pagetable va k =
     (if va \<ge> MAXVA then Ok 0
      else kbind (walk pagetable va False k) (\<lambda>(k, pte).
        if pte = 0 then Ok 0
        else if read64 (ram k) pte AND PTE_V = 0 then Ok 0
        else if read64 (ram k) pte AND PTE_U = 0 then Ok 0
        else Ok (PTE2PA (read64 (ram k) pte))))"

definition kvmpa :: "u64 \<Rightarrow> u64 \<Rightarrow> kmem \<Rightarrow> u64 kres" where
  "kvmpa kernel_pagetable va k =
     (let off = va mod PGSIZE in
      kbind (walk kernel_pagetable va False k) (\<lambda>(k, pte).
        if pte = 0 then Panic ''kvmpa''
        else if read64 (ram k) pte AND PTE_V = 0 then Panic ''kvmpa''
        else Ok (PTE2PA (read64 (ram k) pte) + off)))"

section \<open>Adding and removing mappings\<close>

function mappages_loop :: "u64 \<Rightarrow> u64 \<Rightarrow> u64 \<Rightarrow> u64 \<Rightarrow> u64 \<Rightarrow> kmem \<Rightarrow> (kmem \<times> int) kres" where
  "mappages_loop pagetable a lst pa perm k =
     kbind (walk pagetable a True k) (\<lambda>(k, pte).
       if pte = 0 then Ok (k, - 1)
       else if read64 (ram k) pte AND PTE_V \<noteq> 0 then Panic ''remap''
       else let k = k\<lparr>ram := write64 (ram k) pte (PA2PTE pa OR perm OR PTE_V)\<rparr> in
         if a = lst then Ok (k, 0)
         else mappages_loop pagetable (a + PGSIZE) lst (pa + PGSIZE) perm k)"
  by pat_completeness auto

lemma walk_Ok_bound: "walk pagetable a alloc k = Ok r \<Longrightarrow> unat a < 2 ^ 38"
  by (auto simp: walk_def MAXVA_def word_le_nat_alt split: if_splits)

lemma unat_next_page: "unat a < 2 ^ 38 \<Longrightarrow> unat (a + PGSIZE) = unat a + 4096"
  using unat_plus_nat [of a 4096] by (simp add: PGSIZE_def)

termination mappages_loop
  by (relation "measure (\<lambda>(pagetable, a, lst, pa, perm, k). 2 ^ 38 - unat a)")
    (auto dest: walk_Ok_bound simp: unat_next_page)

definition mappages :: "u64 \<Rightarrow> u64 \<Rightarrow> u64 \<Rightarrow> u64 \<Rightarrow> u64 \<Rightarrow> kmem \<Rightarrow> (kmem \<times> int) kres" where
  "mappages pagetable va sz pa perm k =
     (let a = PGROUNDDOWN va; lst = PGROUNDDOWN (va + sz - 1)
      in mappages_loop pagetable a lst pa perm k)"

definition kvmmap :: "u64 \<Rightarrow> u64 \<Rightarrow> u64 \<Rightarrow> u64 \<Rightarrow> u64 \<Rightarrow> kmem \<Rightarrow> kmem kres" where
  "kvmmap kernel_pagetable va pa sz perm k =
     kbind (mappages kernel_pagetable va sz pa perm k) (\<lambda>(k, r).
       if r \<noteq> 0 then Panic ''kvmmap'' else Ok k)"

function uvmunmap_loop :: "u64 \<Rightarrow> u64 \<Rightarrow> u64 \<Rightarrow> u64 \<Rightarrow> bool \<Rightarrow> kmem \<Rightarrow> kmem kres" where
  "uvmunmap_loop kend pagetable a lst do_free k =
     (if a < lst
      then kbind (walk pagetable a False k) (\<lambda>(k, pte).
        if pte = 0 then Panic ''uvmunmap: walk''
        else if read64 (ram k) pte AND PTE_V = 0 then Panic ''uvmunmap: not mapped''
        else if PTE_FLAGS (read64 (ram k) pte) = PTE_V then Panic ''uvmunmap: not a leaf''
        else kbind (if do_free then kfree kend (PTE2PA (read64 (ram k) pte)) k else Ok k) (\<lambda>k.
          uvmunmap_loop kend pagetable (a + PGSIZE) lst do_free
            (k\<lparr>ram := write64 (ram k) pte 0\<rparr>)))
      else Ok k)"
  by pat_completeness auto
termination
  by (relation "measure (\<lambda>(kend, pagetable, a, lst, do_free, k). 2 ^ 38 - unat a)")
    (auto dest: walk_Ok_bound simp: unat_next_page)

definition uvmunmap :: "u64 \<Rightarrow> u64 \<Rightarrow> u64 \<Rightarrow> u64 \<Rightarrow> bool \<Rightarrow> kmem \<Rightarrow> kmem kres" where
  "uvmunmap kend pagetable va npages do_free k =
     (if va mod PGSIZE \<noteq> 0 then Panic ''uvmunmap: not aligned''
      else uvmunmap_loop kend pagetable va (va + npages * PGSIZE) do_free k)"

declare mappages_loop.simps [simp del] uvmunmap_loop.simps [simp del]

section \<open>User address spaces\<close>

definition uvmcreate :: "kmem \<Rightarrow> kmem \<times> u64" where
  "uvmcreate k =
     (case kalloc k of (k, pagetable) \<Rightarrow>
        if pagetable = 0 then (k, 0)
        else (k\<lparr>ram := memset (ram k) pagetable 0 4096\<rparr>, pagetable))"

definition uvminit :: "u64 \<Rightarrow> u8 list \<Rightarrow> kmem \<Rightarrow> kmem kres" where
  "uvminit pagetable src k =
     (if length src \<ge> 4096 then Panic ''inituvm: more than a page''
      else case kalloc k of (k, mem) \<Rightarrow>
        let k = k\<lparr>ram := memset (ram k) mem 0 4096\<rparr> in
        kbind (mappages pagetable 0 PGSIZE mem (PTE_W OR PTE_R OR PTE_X OR PTE_U) k) (\<lambda>(k, _).
          Ok (k\<lparr>ram := mwrite (ram k) mem src\<rparr>)))"

definition uvmdealloc :: "u64 \<Rightarrow> u64 \<Rightarrow> u64 \<Rightarrow> u64 \<Rightarrow> kmem \<Rightarrow> (kmem \<times> u64) kres" where
  "uvmdealloc kend pagetable oldsz newsz k =
     (if newsz \<ge> oldsz then Ok (k, oldsz)
      else kbind
        (if PGROUNDUP newsz < PGROUNDUP oldsz
         then let npages = (PGROUNDUP oldsz - PGROUNDUP newsz) div PGSIZE
              in uvmunmap kend pagetable (PGROUNDUP newsz) (scast (ucast npages :: 32 word)) True k
         else Ok k) (\<lambda>k. Ok (k, newsz)))"

function uvmalloc_loop :: "u64 \<Rightarrow> u64 \<Rightarrow> u64 \<Rightarrow> u64 \<Rightarrow> u64 \<Rightarrow> kmem \<Rightarrow> (kmem \<times> u64) kres" where
  "uvmalloc_loop kend pagetable oldsz a newsz k =
     (if a < newsz
      then case kalloc k of (k, mem) \<Rightarrow>
        if mem = 0
        then kbind (uvmdealloc kend pagetable a oldsz k) (\<lambda>(k, _). Ok (k, 0))
        else let k = k\<lparr>ram := memset (ram k) mem 0 4096\<rparr> in
          kbind (mappages pagetable a PGSIZE mem (PTE_W OR PTE_X OR PTE_R OR PTE_U) k) (\<lambda>(k, r).
            if r \<noteq> 0
            then kbind (kfree kend mem k) (\<lambda>k.
                   kbind (uvmdealloc kend pagetable a oldsz k) (\<lambda>(k, _). Ok (k, 0)))
            else uvmalloc_loop kend pagetable oldsz (a + PGSIZE) newsz k)
      else Ok (k, newsz))"
  by pat_completeness auto

lemma mappages_loop_Ok_bound:
  "mappages_loop pagetable a lst pa perm k = Ok r \<Longrightarrow> unat a < 2 ^ 38"
  by (subst (asm) mappages_loop.simps) (auto simp: kres_simps dest: walk_Ok_bound)

lemma mappages_Ok_bound: "mappages pagetable a sz pa perm k = Ok r \<Longrightarrow> unat a < 2 ^ 38"
proof -
  assume "mappages pagetable a sz pa perm k = Ok r"
  then have "unat (PGROUNDDOWN a) < 2 ^ 38"
    unfolding mappages_def Let_def by (rule mappages_loop_Ok_bound)
  then have "unat a div 4096 < 2 ^ 26" by (simp add: unat_PGROUNDDOWN)
  then show ?thesis by (simp add: div_less_iff_less_mult)
qed

termination uvmalloc_loop
  by (relation "measure (\<lambda>(kend, pagetable, oldsz, a, newsz, k). 2 ^ 38 - unat a)")
    (auto dest: mappages_Ok_bound simp: unat_next_page)

definition uvmalloc :: "u64 \<Rightarrow> u64 \<Rightarrow> u64 \<Rightarrow> u64 \<Rightarrow> kmem \<Rightarrow> (kmem \<times> u64) kres" where
  "uvmalloc kend pagetable oldsz newsz k =
     (if newsz < oldsz then Ok (k, oldsz)
      else let oldsz = PGROUNDUP oldsz in uvmalloc_loop kend pagetable oldsz oldsz newsz k)"

text \<open>
  \<^verbatim>\<open>freewalk\<close> recurses through the child tables with no bound of its own; \<open>fuel\<close> is the depth
  it may reach. A Sv39 table has three levels, so fuel 3 is enough.
\<close>

function freewalk :: "nat \<Rightarrow> u64 \<Rightarrow> u64 \<Rightarrow> kmem \<Rightarrow> kmem kres"
  and freewalk_loop :: "nat \<Rightarrow> u64 \<Rightarrow> u64 \<Rightarrow> nat \<Rightarrow> kmem \<Rightarrow> kmem kres" where
  "freewalk 0 kend pagetable k = Hang"
| "freewalk (Suc fuel) kend pagetable k =
     kbind (freewalk_loop fuel kend pagetable 0 k) (kfree kend pagetable)"
| "freewalk_loop fuel kend pagetable i k =
     (if i < 512
      then let pte = read64 (ram k) (pagetable + 8 * of_nat i) in
        if pte AND PTE_V \<noteq> 0 \<and> pte AND (PTE_R OR PTE_W OR PTE_X) = 0
        then kbind (freewalk fuel kend (PTE2PA pte) k) (\<lambda>k.
               freewalk_loop fuel kend pagetable (Suc i)
                 (k\<lparr>ram := write64 (ram k) (pagetable + 8 * of_nat i) 0\<rparr>))
        else if pte AND PTE_V \<noteq> 0 then Panic ''freewalk: leaf''
        else freewalk_loop fuel kend pagetable (Suc i) k
      else Ok k)"
  by pat_completeness auto
termination
  by (relation "measures [\<lambda>x. case x of Inl (f, _) \<Rightarrow> f | Inr (f, _) \<Rightarrow> f,
       \<lambda>x. case x of Inl _ \<Rightarrow> 0 | Inr (f, e, p, i, k) \<Rightarrow> 513 - i]") auto

definition uvmfree :: "u64 \<Rightarrow> u64 \<Rightarrow> u64 \<Rightarrow> kmem \<Rightarrow> kmem kres" where
  "uvmfree kend pagetable sz k =
     kbind (if sz > 0 then uvmunmap kend pagetable 0 (PGROUNDUP sz div PGSIZE) True k else Ok k)
       (freewalk 3 kend pagetable)"

definition uvmcopy_err :: "u64 \<Rightarrow> u64 \<Rightarrow> u64 \<Rightarrow> kmem \<Rightarrow> (kmem \<times> int) kres" where
  "uvmcopy_err kend new i k = kbind (uvmunmap kend new 0 (i div PGSIZE) True k) (\<lambda>k. Ok (k, - 1))"

function uvmcopy_loop :: "u64 \<Rightarrow> u64 \<Rightarrow> u64 \<Rightarrow> u64 \<Rightarrow> u64 \<Rightarrow> kmem \<Rightarrow> (kmem \<times> int) kres" where
  "uvmcopy_loop kend old new i sz k =
     (if i < sz
      then kbind (walk old i False k) (\<lambda>(k, pte).
        if pte = 0 then Panic ''uvmcopy: pte should exist''
        else if read64 (ram k) pte AND PTE_V = 0 then Panic ''uvmcopy: page not present''
        else let pa = PTE2PA (read64 (ram k) pte);
                 flags = PTE_FLAGS (read64 (ram k) pte) in
          case kalloc k of (k, mem) \<Rightarrow>
            if mem = 0 then uvmcopy_err kend new i k
            else let k = k\<lparr>ram := memmove (ram k) mem pa 4096\<rparr> in
              kbind (mappages new i PGSIZE mem flags k) (\<lambda>(k, r).
                if r \<noteq> 0
                then kbind (kfree kend mem k) (uvmcopy_err kend new i)
                else uvmcopy_loop kend old new (i + PGSIZE) sz k))
      else Ok (k, 0))"
  by pat_completeness auto
termination
  by (relation "measure (\<lambda>(kend, old, new, i, sz, k). 2 ^ 38 - unat i)")
    (auto dest: mappages_Ok_bound simp: unat_next_page)

definition uvmcopy :: "u64 \<Rightarrow> u64 \<Rightarrow> u64 \<Rightarrow> u64 \<Rightarrow> kmem \<Rightarrow> (kmem \<times> int) kres" where
  "uvmcopy kend old new sz k = uvmcopy_loop kend old new 0 sz k"

definition uvmclear :: "u64 \<Rightarrow> u64 \<Rightarrow> kmem \<Rightarrow> kmem kres" where
  "uvmclear pagetable va k =
     kbind (walk pagetable va False k) (\<lambda>(k, pte).
       if pte = 0 then Panic ''uvmclear''
       else Ok (k\<lparr>ram := write64 (ram k) pte (read64 (ram k) pte AND NOT PTE_U)\<rparr>))"

declare freewalk_loop.simps [simp del] uvmcopy_loop.simps [simp del] uvmalloc_loop.simps [simp del]

section \<open>Copying between kernel and user memory\<close>

text \<open>The number of bytes from \<open>va\<close> to the end of its page, at most \<open>len\<close>.\<close>

definition page_chunk :: "u64 \<Rightarrow> nat \<Rightarrow> nat" where
  "page_chunk va len =
     (let n = unat (PGSIZE - (va - PGROUNDDOWN va)) in if n > len then len else n)"

lemma unat_page_offset: "unat (va - PGROUNDDOWN va) = unat va mod 4096"
proof -
  have "PGROUNDDOWN va \<le> va" by (simp add: word_le_nat_alt unat_PGROUNDDOWN)
  then show ?thesis by (simp add: unat_sub unat_PGROUNDDOWN minus_mult_div_eq_mod)
qed

lemma unat_page_rest: "unat (PGSIZE - (va - PGROUNDDOWN va)) = 4096 - unat va mod 4096"
proof -
  have "va - PGROUNDDOWN va \<le> PGSIZE"
    by (simp add: word_le_nat_alt unat_page_offset PGSIZE_def less_imp_le)
  then show ?thesis by (simp add: unat_sub unat_page_offset PGSIZE_def)
qed

lemma page_chunk_eq: "page_chunk va len = min len (4096 - unat va mod 4096)"
  by (simp add: page_chunk_def unat_page_rest min_def Let_def)

lemma page_chunk_pos: "0 < len \<Longrightarrow> 0 < page_chunk va len"
  by (simp add: page_chunk_eq)

function copyout :: "u64 \<Rightarrow> u64 \<Rightarrow> u8 list \<Rightarrow> kmem \<Rightarrow> (kmem \<times> int) kres" where
  "copyout pagetable dstva src k =
     (if length src > 0
      then let va0 = PGROUNDDOWN dstva in
        kbind (walkaddr pagetable va0 k) (\<lambda>pa0.
          if pa0 = 0 then Ok (k, - 1)
          else let n = page_chunk dstva (length src);
                   k = k\<lparr>ram := mwrite (ram k) (pa0 + (dstva - va0)) (take n src)\<rparr>
               in copyout pagetable (va0 + PGSIZE) (drop n src) k)
      else Ok (k, 0))"
  by pat_completeness auto
termination
  by (relation "measure (\<lambda>(pagetable, dstva, src, k). length src)") (auto simp: page_chunk_pos)

text \<open>\<open>copyin\<close> returns the bytes stored through \<^verbatim>\<open>dst\<close> before it returned.\<close>

function copyin :: "u64 \<Rightarrow> u64 \<Rightarrow> nat \<Rightarrow> kmem \<Rightarrow> (u8 list \<times> int) kres" where
  "copyin pagetable srcva len k =
     (if len > 0
      then let va0 = PGROUNDDOWN srcva in
        kbind (walkaddr pagetable va0 k) (\<lambda>pa0.
          if pa0 = 0 then Ok ([], - 1)
          else let n = page_chunk srcva len in
            kbind (copyin pagetable (va0 + PGSIZE) (len - n) k) (\<lambda>(bs, r).
              Ok (mread (ram k) (pa0 + (srcva - va0)) n @ bs, r)))
      else Ok ([], 0))"
  by pat_completeness auto
termination
  by (relation "measure (\<lambda>(pagetable, srcva, len, k). len)") (auto simp: page_chunk_pos)

text \<open>The inner loop of \<^verbatim>\<open>copyinstr\<close>: the bytes stored from one page, and whether a NUL was.\<close>

primrec copyinstr_page :: "mem \<Rightarrow> u64 \<Rightarrow> nat \<Rightarrow> u8 list \<times> bool" where
  "copyinstr_page m p 0 = ([], False)"
| "copyinstr_page m p (Suc n) =
     (if m p = 0 then ([0], True)
      else case copyinstr_page m (p + 1) n of (bs, got_null) \<Rightarrow> (m p # bs, got_null))"

function copyinstr :: "u64 \<Rightarrow> u64 \<Rightarrow> nat \<Rightarrow> kmem \<Rightarrow> (u8 list \<times> int) kres" where
  "copyinstr pagetable srcva max_len k =
     (if max_len > 0
      then let va0 = PGROUNDDOWN srcva in
        kbind (walkaddr pagetable va0 k) (\<lambda>pa0.
          if pa0 = 0 then Ok ([], - 1)
          else let n = page_chunk srcva max_len in
            case copyinstr_page (ram k) (pa0 + (srcva - va0)) n of (bs, got_null) \<Rightarrow>
              if got_null then Ok (bs, 0)
              else kbind (copyinstr pagetable (va0 + PGSIZE) (max_len - n) k) (\<lambda>(bs', r). Ok (bs @ bs', r)))
      else Ok ([], - 1))"
  by pat_completeness auto
termination
  by (relation "measure (\<lambda>(pagetable, srcva, max_len, k). max_len)") (auto simp: page_chunk_pos)

declare copyout.simps [simp del] copyin.simps [simp del] copyinstr.simps [simp del]

section \<open>The kernel page table\<close>

text \<open>\<open>etext\<close> and \<open>trampoline\<close> are the linker symbols of the same names.\<close>

definition kvminit :: "u64 \<Rightarrow> u64 \<Rightarrow> kmem \<Rightarrow> (kmem \<times> u64) kres" where
  "kvminit etext trampoline k =
     (case kalloc k of (k, kernel_pagetable) \<Rightarrow>
      let k = k\<lparr>ram := memset (ram k) kernel_pagetable 0 4096\<rparr> in
      kbind (kvmmap kernel_pagetable UART0 UART0 PGSIZE (PTE_R OR PTE_W) k) (\<lambda>k.
      kbind (kvmmap kernel_pagetable VIRTIO0 VIRTIO0 PGSIZE (PTE_R OR PTE_W) k) (\<lambda>k.
      kbind (kvmmap kernel_pagetable CLINT CLINT 0x10000 (PTE_R OR PTE_W) k) (\<lambda>k.
      kbind (kvmmap kernel_pagetable PLIC PLIC 0x400000 (PTE_R OR PTE_W) k) (\<lambda>k.
      kbind (kvmmap kernel_pagetable KERNBASE KERNBASE (etext - KERNBASE) (PTE_R OR PTE_X) k) (\<lambda>k.
      kbind (kvmmap kernel_pagetable etext etext (PHYSTOP - etext) (PTE_R OR PTE_W) k) (\<lambda>k.
      kbind (kvmmap kernel_pagetable TRAMPOLINE trampoline PGSIZE (PTE_R OR PTE_X) k) (\<lambda>k.
        Ok (k, kernel_pagetable)))))))))"

end
