(* ===== verification/Vm_Map.thy ===== *)
theory Vm_Map
  imports Vm
begin

text \<open>
  The page table as a map from virtual pages to entries. \<open>table_at\<close> is the table reached
  after \<open>d\<close> steps from the root, \<open>pte_of\<close> the leaf entry of a virtual address; a well-formed
  tree reaches no table along two different paths. \<^verbatim>\<open>walk\<close> keeps the map, a store into a leaf
  slot updates it at one virtual page.
\<close>

section \<open>Indices of a virtual address\<close>

lemma PX_eq: "PX level va = take_bit 9 (drop_bit (12 + 9 * level) va)"
proof -
  have "PXMASK = mask 9" by (simp add: PXMASK_def mask_eq_exp_minus_1)
  then show ?thesis by (simp add: PX_def PXSHIFT_def PGSHIFT_def take_bit_eq_mask add.commute)
qed

lemma unat_PX: "unat (PX level va) < 512"
proof -
  have "unat (PX level va) = take_bit 9 (unat (drop_bit (12 + 9 * level) va))"
    by (simp only: PX_eq unsigned_take_bit_eq)
  also have "\<dots> < 2 ^ 9" by (rule take_bit_nat_less_exp)
  finally show ?thesis by simp
qed

text \<open>The part of the address that selects the table after \<open>d\<close> steps; \<open>pre va 3\<close> is the page number.\<close>

definition pre :: "u64 \<Rightarrow> nat \<Rightarrow> u64" where
  "pre va d = drop_bit (39 - 9 * d) va"

lemma pre_Suc:
  assumes "d \<le> 2"
  shows "pre va (Suc d) = pre va' (Suc d) \<longleftrightarrow>
    pre va d = pre va' d \<and> PX (2 - d) va = PX (2 - d) va'"
proof -
  let ?j = "30 - 9 * d"
  have e: "39 - 9 * Suc d = ?j" "39 - 9 * d = 9 + ?j" "12 + 9 * (2 - d) = ?j"
    using assms by auto
  have "drop_bit ?j va = drop_bit ?j va' \<longleftrightarrow>
      drop_bit 9 (drop_bit ?j va) = drop_bit 9 (drop_bit ?j va') \<and>
      take_bit 9 (drop_bit ?j va) = take_bit 9 (drop_bit ?j va')"
    by (metis bits_ident)
  then show ?thesis unfolding pre_def PX_eq e by simp
qed

lemma pre_0: "va < MAXVA \<Longrightarrow> pre va 0 = 0"
proof -
  assume "va < MAXVA"
  then have "unat va < 2 ^ 39" by (simp add: MAXVA_def word_less_nat_alt)
  then show ?thesis by (simp add: pre_def word_unat_eq_iff unat_drop_bit_eq drop_bit_eq_div unat_div)
qed

lemma pre_le: "d \<le> e \<Longrightarrow> e \<le> 3 \<Longrightarrow> pre va d = drop_bit (9 * (e - d)) (pre va e)"
proof -
  assume "d \<le> e" "e \<le> 3"
  then have "39 - 9 * d = 9 * (e - d) + (39 - 9 * e)" by linarith
  then show ?thesis by (simp add: pre_def)
qed

lemma pre_mono: "pre va e = pre va' e \<Longrightarrow> d \<le> e \<Longrightarrow> e \<le> 3 \<Longrightarrow> pre va d = pre va' d"
  by (simp only: pre_le)

lemma pre_3: "pre va 3 = pre va' 3 \<longleftrightarrow> PGROUNDDOWN va = PGROUNDDOWN va'"
proof -
  have "pre va 3 = drop_bit 12 va" for va by (simp add: pre_def)
  moreover have "drop_bit 12 (PGROUNDDOWN va) = drop_bit 12 va" for va
    by (rule bit_word_eqI) (auto simp: PGROUNDDOWN_eq bit_simps dest: bit_u64)
  ultimately show ?thesis by (metis PGROUNDDOWN_eq)
qed

section \<open>Slots\<close>

lemma pte_addr_offset: "pte_addr t l va = t + of_nat (8 * unat (PX l va))"
  by (simp add: pte_addr_def)

lemma aligned_12_3: "aligned 12 t \<Longrightarrow> aligned 3 t"
  unfolding aligned_def by (rule dvd_trans [of _ "2 ^ 12"]) simp_all

lemma aligned_slot: "aligned 12 t \<Longrightarrow> i < 512 \<Longrightarrow> aligned 3 (t + of_nat (8 * i))"
  using unat_aligned_plus [of 12 t "8 * i"] aligned_12_3 [of t] by (simp add: aligned_def)

lemma aligned_pte_addr: "aligned 12 t \<Longrightarrow> aligned 3 (pte_addr t l va)"
  using aligned_slot [OF _ unat_PX] by (simp add: pte_addr_offset)

lemma pte_addr_inj:
  assumes "aligned 12 t" "aligned 12 t'" "pte_addr t l va = pte_addr t' l' va'"
  shows "t = t' \<and> PX l va = PX l' va'"
proof -
  have "t = t' \<and> 8 * unat (PX l va) = 8 * unat (PX l' va')"
    using assms unat_PX [of l va] unat_PX [of l' va']
    by (intro aligned_cell_inj [of 12]) (auto simp: pte_addr_offset)
  then show ?thesis by (simp add: word_unat_eq_iff)
qed

lemma pte_addr_nonnull: "is_page kend t \<Longrightarrow> pte_addr t l va \<noteq> 0"
proof
  assume p: "is_page kend t" and "pte_addr t l va = 0"
  then have "unat t + 8 * unat (PX l va) = 0"
    using unat_aligned_plus [of 12 t "8 * unat (PX l va)"] unat_PX [of l va]
    by (simp add: pte_addr_offset is_page_def)
  then show False using p by (simp add: is_page_def unat_eq_0)
qed

lemma pte_addr_byte: "pte_addr t l va + of_nat j = t + of_nat (8 * unat (PX l va) + j)"
  by (simp add: pte_addr_def)

lemma unat_pte_addr_byte:
  "j < 8 \<Longrightarrow> unat (pte_addr t l va + of_nat j - t) = 8 * unat (PX l va) + j"
  unfolding pte_addr_byte using unat_PX [of l va]
  by (simp add: unat_of_nat_64 del: of_nat_add of_nat_mult)

text \<open>A slot of one page and the contents of another.\<close>

lemma read_slot_same_outside:
  assumes "same_outside p m m'" "aligned 12 p" "aligned 12 t" "p \<noteq> t"
  shows "read64 m' (pte_addr t l va) = read64 m (pte_addr t l va)"
proof -
  have "m' (pte_addr t l va + of_nat j) = m (pte_addr t l va + of_nat j)" if "j < 8" for j
  proof -
    have "\<not> unat (t + of_nat (8 * unat (PX l va) + j) - p) < 4096"
      using page_offset_iff [of p t "8 * unat (PX l va) + j"] assms that unat_PX [of l va] by simp
    then show ?thesis using assms(1) by (metis same_outside_def pte_addr_byte)
  qed
  then show ?thesis unfolding read64_def by (subst mread_cong [of 8 m']) auto
qed

lemma read_slot_write:
  assumes "aligned 12 t" "aligned 12 t'" "pte_addr t l va \<noteq> pte_addr t' l' va'"
  shows "read64 (write64 m (pte_addr t' l' va') v) (pte_addr t l va) = read64 m (pte_addr t l va)"
  using assms by (intro read64_write64_aligned) (auto simp: aligned_pte_addr)

lemma le_word_replicate_0: "le_word (replicate n 0) = 0"
  by (induction n) auto

lemma read_slot_zeroed:
  assumes "aligned 12 p"
  shows "read64 (memset m p 0 4096) (pte_addr p l va) = 0"
proof -
  have "mread (memset m p 0 4096) (pte_addr p l va) 8 = replicate 8 0"
  proof (rule nth_equalityI)
    fix j assume "j < length (mread (memset m p 0 4096) (pte_addr p l va) 8)"
    then have "j < 8" by simp
    then have "unat (pte_addr p l va + of_nat j - p) = 8 * unat (PX l va) + j"
      by (rule unat_pte_addr_byte)
    then show "mread (memset m p 0 4096) (pte_addr p l va) 8 ! j = replicate 8 0 ! j"
      using \<open>j < 8\<close> unat_PX [of l va] by (simp add: memset_eq mwrite_def)
  qed simp
  then show ?thesis by (simp add: read64_def le_word_replicate_0)
qed

section \<open>Tables and entries\<close>

primrec table_at :: "mem \<Rightarrow> u64 \<Rightarrow> u64 \<Rightarrow> nat \<Rightarrow> u64 option" where
  "table_at m pt va 0 = Some pt"
| "table_at m pt va (Suc d) =
     (case table_at m pt va d of None \<Rightarrow> None
      | Some t \<Rightarrow> (let pte = read64 m (pte_addr t (2 - d) va)
                in if pte AND PTE_V \<noteq> 0 then Some (PTE2PA pte) else None))"

definition pte_of :: "mem \<Rightarrow> u64 \<Rightarrow> u64 \<Rightarrow> u64" where
  "pte_of m pt va = (case table_at m pt va 2 of None \<Rightarrow> 0 | Some t \<Rightarrow> read64 m (pte_addr t 0 va))"

definition tables :: "mem \<Rightarrow> u64 \<Rightarrow> u64 set" where
  "tables m pt = {t. \<exists>d va. d \<le> 2 \<and> va < MAXVA \<and> table_at m pt va d = Some t}"

definition pt_inv :: "u64 \<Rightarrow> mem \<Rightarrow> u64 \<Rightarrow> bool" where
  "pt_inv kend m pt \<longleftrightarrow>
     (\<forall>t \<in> tables m pt. is_page kend t) \<and>
     (\<forall>d d' va va' t. d \<le> 2 \<longrightarrow> d' \<le> 2 \<longrightarrow> va < MAXVA \<longrightarrow> va' < MAXVA \<longrightarrow>
        table_at m pt va d = Some t \<longrightarrow> table_at m pt va' d' = Some t \<longrightarrow>
        d = d' \<and> pre va d = pre va' d')"

lemma tablesI: "table_at m pt va d = Some t \<Longrightarrow> d \<le> 2 \<Longrightarrow> va < MAXVA \<Longrightarrow> t \<in> tables m pt"
  unfolding tables_def by blast

lemma pt_inv_page: "pt_inv kend m pt \<Longrightarrow> table_at m pt va d = Some t \<Longrightarrow> d \<le> 2 \<Longrightarrow> va < MAXVA \<Longrightarrow> is_page kend t"
  unfolding pt_inv_def using tablesI by blast

lemma pt_inv_inj:
  "pt_inv kend m pt \<Longrightarrow> table_at m pt va d = Some t \<Longrightarrow> table_at m pt va' d' = Some t \<Longrightarrow>
    d \<le> 2 \<Longrightarrow> d' \<le> 2 \<Longrightarrow> va < MAXVA \<Longrightarrow> va' < MAXVA \<Longrightarrow> d = d' \<and> pre va d = pre va' d'"
  unfolding pt_inv_def by blast

lemma is_page_aligned: "is_page kend t \<Longrightarrow> aligned 12 t"
  by (simp add: is_page_def)

lemma pt_inv_aligned:
  "pt_inv kend m pt \<Longrightarrow> table_at m pt va d = Some t \<Longrightarrow> d \<le> 2 \<Longrightarrow> va < MAXVA \<Longrightarrow> aligned 12 t"
  by (rule is_page_aligned [OF pt_inv_page])

lemma table_at_pre: "d \<le> 3 \<Longrightarrow> pre va d = pre va' d \<Longrightarrow> table_at m pt va d = table_at m pt va' d"
proof (induction d)
  case (Suc d)
  then have "pre va d = pre va' d" "PX (2 - d) va = PX (2 - d) va'"
    using pre_Suc [of d va va'] by auto
  with Suc show ?case by (simp add: pte_addr_def cong: option.case_cong)
qed simp

lemma pte_of_pre: "pre va 3 = pre va' 3 \<Longrightarrow> pte_of m pt va = pte_of m pt va'"
proof -
  assume a: "pre va 3 = pre va' 3"
  then have "pre va 2 = pre va' 2" by (rule pre_mono) simp_all
  moreover have "PX 0 va = PX 0 va'" using a pre_Suc [of 2 va va'] by (simp add: numeral_3_eq_3)
  ultimately show ?thesis using table_at_pre [of 2 va va'] by (simp add: pte_of_def pte_addr_def split: option.split)
qed

text \<open>Memory that agrees on the slots of every table gives the same map.\<close>

lemma table_at_frame:
  assumes "\<And>t l va. t \<in> tables m pt \<Longrightarrow> read64 m' (pte_addr t l va) = read64 m (pte_addr t l va)"
    and "va < MAXVA" "d \<le> 3"
  shows "table_at m' pt va d = table_at m pt va d"
  using assms(3)
proof (induction d)
  case (Suc d)
  then show ?case using assms(1) [OF tablesI [of m pt va d]] assms(2)
    by (auto split: option.splits simp: Let_def)
qed simp

lemma pte_of_frame:
  assumes "\<And>t l va. t \<in> tables m pt \<Longrightarrow> read64 m' (pte_addr t l va) = read64 m (pte_addr t l va)"
    and "va < MAXVA"
  shows "pte_of m' pt va = pte_of m pt va"
proof -
  have "table_at m' pt va 2 = table_at m pt va 2"
    using assms by (intro table_at_frame) auto
  then show ?thesis
    using assms(1) [OF tablesI [of m pt va 2]] assms(2) by (simp add: pte_of_def split: option.split)
qed

lemma tables_cong: "(\<And>va d. va < MAXVA \<Longrightarrow> d \<le> 2 \<Longrightarrow> table_at m' pt va d = table_at m pt va d) \<Longrightarrow> tables m' pt = tables m pt"
  unfolding tables_def by (metis (no_types, lifting))

lemma pt_inv_cong:
  assumes "\<And>va d. va < MAXVA \<Longrightarrow> d \<le> 2 \<Longrightarrow> table_at m' pt va d = table_at m pt va d"
  shows "pt_inv kend m' pt = pt_inv kend m pt"
proof -
  have "tables m' pt = tables m pt" by (rule tables_cong) (rule assms)
  then show ?thesis using assms by (simp add: pt_inv_def)
qed

section \<open>A store into a leaf slot\<close>

text \<open>In a well-formed tree two paths meet in a slot only if they have the same prefix.\<close>

lemma slot_iff:
  assumes inv: "pt_inv kend m pt" and t: "table_at m pt va d = Some t" "table_at m pt va' e = Some t'"
    and b: "va < MAXVA" "va' < MAXVA" "d \<le> 2" "e \<le> 2"
  shows "pte_addr t' (2 - e) va' = pte_addr t (2 - d) va \<longleftrightarrow> e = d \<and> pre va' (Suc d) = pre va (Suc d)"
proof
  assume "pte_addr t' (2 - e) va' = pte_addr t (2 - d) va"
  then have eq: "t' = t" "PX (2 - e) va' = PX (2 - d) va"
    using pte_addr_inj pt_inv_aligned [OF inv] t b by blast+
  moreover have "e = d" "pre va' e = pre va d"
    using pt_inv_inj [OF inv t(2) _ b(4,3,2,1)] t(1) eq(1) by blast+
  ultimately show "e = d \<and> pre va' (Suc d) = pre va (Suc d)" using pre_Suc [of d va' va] b by simp
next
  assume a: "e = d \<and> pre va' (Suc d) = pre va (Suc d)"
  then have "pre va' d = pre va d" "PX (2 - d) va' = PX (2 - d) va"
    using pre_Suc [of d va' va] b by auto
  then show "pte_addr t' (2 - e) va' = pte_addr t (2 - d) va"
    using a t table_at_pre [of d va' va] b by (simp add: pte_addr_def)
qed

lemma leaf_write_table_at:
  assumes inv: "pt_inv kend m pt" and t: "va < MAXVA" "table_at m pt va 2 = Some t"
    and va': "va' < MAXVA" and "d \<le> 2"
  shows "table_at (write64 m (pte_addr t 0 va) v) pt va' d = table_at m pt va' d"
  using \<open>d \<le> 2\<close>
proof (induction d)
  case (Suc d)
  then have IH: "table_at (write64 m (pte_addr t 0 va) v) pt va' d = table_at m pt va' d" by simp
  show ?case
  proof (cases "table_at m pt va' d")
    case (Some t')
    have "pte_addr t' (2 - d) va' \<noteq> pte_addr t 0 va"
      using slot_iff [OF inv t(2) Some] t va' Suc.prems by simp
    then have "read64 (write64 m (pte_addr t 0 va) v) (pte_addr t' (2 - d) va') = read64 m (pte_addr t' (2 - d) va')"
      using pt_inv_aligned [OF inv t(2)] pt_inv_aligned [OF inv Some] t va' Suc.prems
      by (intro read_slot_write) auto
    then show ?thesis using IH Some by simp
  qed (simp add: IH)
qed simp

lemma leaf_write_pte_of:
  assumes inv: "pt_inv kend m pt" and t: "va < MAXVA" "table_at m pt va 2 = Some t" and va': "va' < MAXVA"
  shows "pte_of (write64 m (pte_addr t 0 va) v) pt va' = (if pre va' 3 = pre va 3 then v else pte_of m pt va')"
proof -
  have eq: "table_at (write64 m (pte_addr t 0 va) v) pt va' 2 = table_at m pt va' 2"
    using leaf_write_table_at [OF assms] by simp
  show ?thesis
  proof (cases "table_at m pt va' 2")
    case None
    then have "pre va' 3 \<noteq> pre va 3"
      using t table_at_pre [of 2 va' va] pre_mono [of va' 3 va 2] by auto
    then show ?thesis using eq None by (simp add: pte_of_def)
  next
    case (Some t')
    have "pte_addr t' 0 va' = pte_addr t 0 va \<longleftrightarrow> pre va' 3 = pre va 3"
      using slot_iff [OF inv t(2) Some] t va' by (simp add: numeral_3_eq_3)
    then show ?thesis
      using eq Some read_slot_write [of t' t 0 va' 0 va] pt_inv_aligned [OF inv t(2)]
        pt_inv_aligned [OF inv Some] t va' by (auto simp: pte_of_def)
  qed
qed

section \<open>Linking a fresh table\<close>

lemma PTE2PA_table: "is_page kend p \<Longrightarrow> PTE2PA (PA2PTE p OR PTE_V) = p"
  by (rule PTE2PA_PA2PTE) (auto simp: is_page_def PTE_bits PHYSTOP_def KERNBASE_def word_less_nat_alt)

lemma or_PTE_V: "(x OR PTE_V) AND PTE_V \<noteq> 0"
proof
  assume "(x OR PTE_V) AND PTE_V = 0"
  then have "bit ((x OR PTE_V) AND PTE_V) 0 = bit (0 :: u64) 0" by simp
  then show False by (simp add: PTE_bits bit_simps)
qed

lemma install_table_at:
  assumes inv: "pt_inv kend m pt" and va: "va < MAXVA" and d: "d \<le> 1"
    and t: "table_at m pt va d = Some t" and nv: "read64 m (pte_addr t (2 - d) va) AND PTE_V = 0"
    and p: "is_page kend p" "p \<notin> tables m pt"
    and m1: "same_outside p m m1" "\<And>l va. read64 m1 (pte_addr p l va) = 0"
    and va': "va' < MAXVA" and "d' \<le> 2"
  shows "table_at (write64 m1 (pte_addr t (2 - d) va) (PA2PTE p OR PTE_V)) pt va' d' =
    (if d' = Suc d \<and> pre va' (Suc d) = pre va (Suc d) then Some p else table_at m pt va' d')"
    (is "table_at ?m' pt va' d' = _")
  using \<open>d' \<le> 2\<close>
proof (induction d')
  case (Suc e)
  have at: "aligned 12 t" "t \<noteq> p" "aligned 12 p"
    using pt_inv_aligned [OF inv t] tablesI [OF t] va d p by (auto simp: is_page_def)
  show ?case
  proof (cases "e = Suc d \<and> pre va' (Suc d) = pre va (Suc d)")
    case True
    then have "table_at ?m' pt va' e = Some p" using Suc by simp
    moreover have "read64 ?m' (pte_addr p (2 - e) va') = 0"
      using at m1(2) read_slot_write [of p t "2 - e" va' "2 - d" va] pte_addr_inj [of p t] by metis
    moreover have "table_at m pt va' e = None"
      using True t nv table_at_pre [of "Suc d" va' va] d by simp
    ultimately show ?thesis using True by simp
  next
    case False
    then have IH: "table_at ?m' pt va' e = table_at m pt va' e" using Suc by auto
    show ?thesis
    proof (cases "table_at m pt va' e")
      case None
      have "\<not> (e = d \<and> pre va' (Suc d) = pre va (Suc d))"
        using None t pre_mono [of va' "Suc d" va d] table_at_pre [of d va' va] d by auto
      then show ?thesis using IH None by auto
    next
      case (Some t')
      have iff: "pte_addr t' (2 - e) va' = pte_addr t (2 - d) va \<longleftrightarrow> e = d \<and> pre va' (Suc d) = pre va (Suc d)"
        using slot_iff [OF inv t Some] va va' d Suc.prems by simp
      have at': "aligned 12 t'" "t' \<noteq> p"
        using pt_inv_aligned [OF inv Some] tablesI [OF Some] va' Suc.prems p(2) by auto
      then have m1': "read64 m1 (pte_addr t' (2 - e) va') = read64 m (pte_addr t' (2 - e) va')"
        using read_slot_same_outside [OF m1(1)] at by auto
      show ?thesis
        using IH Some iff PTE2PA_table [OF p(1)] or_PTE_V m1' read_slot_write [OF at'(1) at(1)]
        by (cases "e = d \<and> pre va' (Suc d) = pre va (Suc d)") auto
    qed
  qed
qed simp

lemma install_pte_of:
  assumes inv: "pt_inv kend m pt" and va: "va < MAXVA" and d: "d \<le> 1"
    and t: "table_at m pt va d = Some t" and nv: "read64 m (pte_addr t (2 - d) va) AND PTE_V = 0"
    and p: "is_page kend p" "p \<notin> tables m pt"
    and m1: "same_outside p m m1" "\<And>l va. read64 m1 (pte_addr p l va) = 0"
    and va': "va' < MAXVA"
  shows "pte_of (write64 m1 (pte_addr t (2 - d) va) (PA2PTE p OR PTE_V)) pt va' = pte_of m pt va'"
    (is "pte_of ?m' pt va' = _")
proof -
  have at: "aligned 12 t" "t \<noteq> p" "aligned 12 p"
    using pt_inv_aligned [OF inv t] tablesI [OF t] va d p by (auto simp: is_page_def)
  have eq: "table_at ?m' pt va' 2 =
      (if 2 = Suc d \<and> pre va' (Suc d) = pre va (Suc d) then Some p else table_at m pt va' 2)"
    using install_table_at [OF assms] by simp
  show ?thesis
  proof (cases "2 = Suc d \<and> pre va' (Suc d) = pre va (Suc d)")
    case True
    have "read64 ?m' (pte_addr p 0 va') = 0"
      using at m1(2) read_slot_write [of p t 0 va' "2 - d" va] pte_addr_inj [of p t] by metis
    have "table_at m pt va' (Suc d) = table_at m pt va (Suc d)"
      using True d by (intro table_at_pre) auto
    moreover have "table_at m pt va (Suc d) = None" using t nv by simp
    ultimately have "table_at m pt va' 2 = None" using True by metis
    moreover have "table_at ?m' pt va' 2 = Some p" using True eq by metis
    ultimately show ?thesis
      using \<open>read64 ?m' (pte_addr p 0 va') = 0\<close> by (simp only: pte_of_def option.case)
  next
    case False
    then have eq: "table_at ?m' pt va' 2 = table_at m pt va' 2" using eq by auto
    show ?thesis
    proof (cases "table_at m pt va' 2")
      case (Some t')
      have at': "aligned 12 t'" "t' \<noteq> p"
        using pt_inv_aligned [OF inv Some] tablesI [OF Some] va' p(2) by auto
      have "pte_addr t' 0 va' \<noteq> pte_addr t (2 - d) va"
        using slot_iff [OF inv t Some] va va' d by auto
      then show ?thesis
        using Some eq read_slot_write [OF at'(1) at(1)] read_slot_same_outside [OF m1(1) at(3) at'(1)] at'(2)
        by (auto simp: pte_of_def)
    qed (simp add: eq pte_of_def)
  qed
qed

lemma install_tables:
  assumes inv: "pt_inv kend m pt" and va: "va < MAXVA" and d: "d \<le> 1"
    and t: "table_at m pt va d = Some t" and nv: "read64 m (pte_addr t (2 - d) va) AND PTE_V = 0"
    and p: "is_page kend p" "p \<notin> tables m pt"
    and m1: "same_outside p m m1" "\<And>l va. read64 m1 (pte_addr p l va) = 0"
  shows "tables (write64 m1 (pte_addr t (2 - d) va) (PA2PTE p OR PTE_V)) pt = insert p (tables m pt)"
    (is "tables ?m' pt = _")
proof (intro set_eqI iffI)
  note tab = install_table_at [OF assms]
  fix q
  show "q \<in> insert p (tables m pt)" if "q \<in> tables ?m' pt"
    using that unfolding tables_def by (auto simp: tab split: if_splits)
  assume "q \<in> insert p (tables m pt)"
  then consider "q = p" | d' va' where "d' \<le> 2" "va' < MAXVA" "table_at m pt va' d' = Some q"
    unfolding tables_def by blast
  then show "q \<in> tables ?m' pt"
  proof cases
    case 1
    have "table_at ?m' pt va (Suc d) = Some p" using tab [OF va, of "Suc d"] d by simp
    then show ?thesis using 1 tablesI [of ?m' pt va "Suc d"] va d by simp
  next
    case 2
    have "\<not> (d' = Suc d \<and> pre va' (Suc d) = pre va (Suc d))"
      using 2 t nv table_at_pre [of "Suc d" va' va] d by auto
    then have "table_at ?m' pt va' d' = Some q" using tab [OF 2(2,1)] 2 by auto
    then show ?thesis using tablesI 2 by blast
  qed
qed

lemma install_pt_inv:
  assumes inv: "pt_inv kend m pt" and va: "va < MAXVA" and d: "d \<le> 1"
    and t: "table_at m pt va d = Some t" and nv: "read64 m (pte_addr t (2 - d) va) AND PTE_V = 0"
    and p: "is_page kend p" "p \<notin> tables m pt"
    and m1: "same_outside p m m1" "\<And>l va. read64 m1 (pte_addr p l va) = 0"
  shows "pt_inv kend (write64 m1 (pte_addr t (2 - d) va) (PA2PTE p OR PTE_V)) pt" (is "pt_inv kend ?m' pt")
  unfolding pt_inv_def install_tables [OF assms]
proof (rule conjI)
  show "\<forall>t \<in> insert p (tables m pt). is_page kend t" using inv p by (auto simp: pt_inv_def)
  have "e = e' \<and> pre v e = pre v' e'"
    if a: "e \<le> 2" "e' \<le> 2" "v < MAXVA" "v' < MAXVA" "table_at ?m' pt v e = Some q" "table_at ?m' pt v' e' = Some q"
    for e e' v v' q
  proof -
    have "q \<in> tables m pt" if "table_at m pt w f = Some q" "w < MAXVA" "f \<le> 2" for w f
      using tablesI that by blast
    then show ?thesis
      using a install_table_at [OF assms a(3,1)] install_table_at [OF assms a(4,2)] p(2)
        pt_inv_inj [OF inv _ _ a(1,2,3,4)]
      by (auto split: if_splits)
  qed
  then show "\<forall>d d' va va' t. d \<le> 2 \<longrightarrow> d' \<le> 2 \<longrightarrow> va < MAXVA \<longrightarrow> va' < MAXVA \<longrightarrow>
      table_at ?m' pt va d = Some t \<longrightarrow> table_at ?m' pt va' d' = Some t \<longrightarrow> d = d' \<and> pre va d = pre va' d'"
    by blast
qed

section \<open>Address space and free list together\<close>

definition same_except :: "u64 set \<Rightarrow> mem \<Rightarrow> mem \<Rightarrow> bool" where
  "same_except S m m' \<longleftrightarrow> (\<forall>x. (\<forall>t \<in> S. \<not> unat (x - t) < 4096) \<longrightarrow> m' x = m x)"

lemma same_except_trans: "same_except S m m' \<Longrightarrow> same_except S m' m'' \<Longrightarrow> same_except S m m''"
  by (auto simp: same_except_def)

lemma same_except_outside: "same_outside p m m' \<Longrightarrow> p \<in> S \<Longrightarrow> same_except S m m'"
  by (auto simp: same_except_def same_outside_def)

lemma same_outside_slot: "same_outside t m (write64 m (pte_addr t l va) v)"
proof -
  have "unat (x - t) < 4096" if "unat (x - pte_addr t l va) < 8" for x
  proof -
    let ?j = "unat (x - pte_addr t l va)"
    have "x = pte_addr t l va + of_nat ?j" by simp
    then have "unat (x - t) = 8 * unat (PX l va) + ?j"
      using unat_pte_addr_byte [of ?j t l va] that by simp
    then show ?thesis using that unat_PX [of l va] by simp
  qed
  then show ?thesis unfolding same_outside_def write64_def by (metis length_le_bytes mwrite_outside)
qed

text \<open>\<open>vm_ok\<close>: the tables of \<open>pt\<close> are a tree of managed pages, none of them on the free list.\<close>

definition vm_ok :: "u64 \<Rightarrow> u64 \<Rightarrow> kmem \<Rightarrow> u64 list \<Rightarrow> bool" where
  "vm_ok kend pt k ps \<longleftrightarrow>
     kmem_inv kend k ps \<and> pt_inv kend (ram k) pt \<and> tables (ram k) pt \<inter> set ps = {}"

text \<open>
  \<open>vm_ext\<close>: a step that may turn free pages into tables, and changes no byte outside the
  tables and the free pages it started from.
\<close>

definition vm_ext :: "u64 \<Rightarrow> u64 \<Rightarrow> kmem \<Rightarrow> u64 list \<Rightarrow> kmem \<Rightarrow> u64 list \<Rightarrow> bool" where
  "vm_ext kend pt k ps k' ps' \<longleftrightarrow>
     vm_ok kend pt k' ps' \<and>
     tables (ram k') pt \<union> set ps' = tables (ram k) pt \<union> set ps \<and>
     tables (ram k) pt \<subseteq> tables (ram k') pt \<and>
     same_except (tables (ram k) pt \<union> set ps) (ram k) (ram k')"

lemma vm_ext_refl: "vm_ok kend pt k ps \<Longrightarrow> vm_ext kend pt k ps k ps"
  by (simp add: vm_ext_def same_except_def)

lemma vm_ext_trans:
  "vm_ext kend pt k ps k' ps' \<Longrightarrow> vm_ext kend pt k' ps' k'' ps'' \<Longrightarrow> vm_ext kend pt k ps k'' ps''"
  unfolding vm_ext_def by (metis (no_types, lifting) same_except_trans subset_trans)

lemma vm_ext_leaf_write:
  assumes ok: "vm_ok kend pt k ps" and va: "va < MAXVA" and t: "table_at (ram k) pt va 2 = Some t"
  shows "vm_ext kend pt k ps (k\<lparr>ram := write64 (ram k) (pte_addr t 0 va) v\<rparr>) ps"
proof -
  let ?m = "write64 (ram k) (pte_addr t 0 va) v"
  have inv: "pt_inv kend (ram k) pt" "kmem_inv kend k ps" using ok by (auto simp: vm_ok_def)
  have eq: "table_at ?m pt va' d = table_at (ram k) pt va' d" if "va' < MAXVA" "d \<le> 2" for va' d
    using leaf_write_table_at [OF inv(1) va t that] .
  have tt: "t \<in> tables (ram k) pt" using tablesI [OF t] va by simp
  then have "t \<notin> set ps" using ok by (auto simp: vm_ok_def)
  then have "kmem_inv kend (k\<lparr>ram := ?m\<rparr>) ps"
    using kmem_inv_frame [OF inv(2) same_outside_slot] pt_inv_aligned [OF inv(1) t] va by simp
  then show ?thesis
    using ok same_except_outside [OF same_outside_slot tt] tables_cong [OF eq] pt_inv_cong [OF eq] tt
    by (simp add: vm_ext_def vm_ok_def insert_absorb same_except_def same_outside_def)
qed

text \<open>The branch of \<^verbatim>\<open>walk\<close> that allocates and links a table page.\<close>

lemma vm_ext_install:
  assumes ok: "vm_ok kend pt k (p # ps)" and ka: "kalloc k = (k1, p)" and va: "va < MAXVA" and d: "d \<le> 1"
    and t: "table_at (ram k) pt va d = Some t" and nv: "read64 (ram k) (pte_addr t (2 - d) va) AND PTE_V = 0"
  defines "k' \<equiv> k1\<lparr>ram := write64 (memset (ram k1) p 0 4096) (pte_addr t (2 - d) va) (PA2PTE p OR PTE_V)\<rparr>"
  shows "vm_ext kend pt k (p # ps) k' ps" "table_at (ram k') pt va (Suc d) = Some p"
    "va' < MAXVA \<Longrightarrow> pte_of (ram k') pt va' = pte_of (ram k) pt va'"
proof -
  let ?m1 = "memset (ram k1) p 0 4096"
  have inv: "kmem_inv kend k (p # ps)" "pt_inv kend (ram k) pt" using ok by (auto simp: vm_ok_def)
  have k1: "kmem_inv kend k1 ps" "same_outside p (ram k) (ram k1)"
    using kalloc_pop [OF inv(1)] ka by auto
  have p: "is_page kend p" "p \<notin> set ps" "p \<notin> tables (ram k) pt" "aligned 12 p"
    using ok by (auto simp: vm_ok_def kmem_inv_def is_page_def)
  have tt: "t \<in> tables (ram k) pt" "aligned 12 t"
    using tablesI [OF t] pt_inv_aligned [OF inv(2) t] va d by auto
  have so: "same_outside p (ram k) ?m1" using k1(2) same_outside_memset same_outside_trans by blast
  note inst = inv(2) va d t nv p(1,3) so read_slot_zeroed [OF p(4)]
  show at: "table_at (ram k') pt va (Suc d) = Some p"
    using install_table_at [OF inst va, of "Suc d"] d by (simp add: k'_def)
  show "va' < MAXVA \<Longrightarrow> pte_of (ram k') pt va' = pte_of (ram k) pt va'"
    using install_pte_of [OF inst] by (simp add: k'_def)
  have "t \<notin> set ps" using tt ok by (auto simp: vm_ok_def)
  moreover have "kmem_inv kend (k1\<lparr>ram := ?m1\<rparr>) ps"
    using kmem_inv_frame [OF k1(1) same_outside_memset] p by simp
  ultimately have km: "kmem_inv kend k' ps"
    using kmem_inv_frame [of kend "k1\<lparr>ram := ?m1\<rparr>" ps t] same_outside_slot tt by (simp add: k'_def)
  have se: "same_except (tables (ram k) pt \<union> set (p # ps)) (ram k) (ram k')"
    using same_except_trans [OF same_except_outside [OF so] same_except_outside [OF same_outside_slot]] tt(1)
    by (simp add: k'_def)
  have "tables (ram k') pt = insert p (tables (ram k) pt)" "pt_inv kend (ram k') pt"
    using install_tables [OF inst] install_pt_inv [OF inst] by (auto simp: k'_def)
  then show "vm_ext kend pt k (p # ps) k' ps"
    using km ok p(2) se by (auto simp: vm_ext_def vm_ok_def)
qed

text \<open>\<^verbatim>\<open>walk(..., 1)\<close>: the address of the leaf slot, or 0 with the free list exhausted.\<close>

lemma walk_from_alloc:
  assumes "vm_ok kend pt k ps" "va < MAXVA" "l \<le> 2" "table_at (ram k) pt va (2 - l) = Some t"
    "walk_from l t va True k = (k', s)"
  shows "\<exists>ps'. vm_ext kend pt k ps k' ps' \<and>
    (\<forall>va' < MAXVA. pte_of (ram k') pt va' = pte_of (ram k) pt va') \<and>
    (if s = 0 then ps' = [] else \<exists>t. table_at (ram k') pt va 2 = Some t \<and> s = pte_addr t 0 va)"
  using assms
proof (induction l arbitrary: k ps t)
  case 0
  have "is_page kend t" using 0 pt_inv_page [of kend "ram k" pt va 2 t] by (simp add: vm_ok_def)
  then show ?case using 0 vm_ext_refl [OF 0(1)] pte_addr_nonnull [of kend t 0 va] by auto
next
  case (Suc l)
  have d: "2 - l = Suc (1 - l)" "2 - Suc l = 1 - l" "Suc l = 2 - (1 - l)"
    "2 - (Suc 0 - l) = Suc l" using Suc.prems(3) by auto
  let ?e = "read64 (ram k) (pte_addr t (Suc l) va)"
  show ?case
  proof (cases "?e AND PTE_V = 0")
    case False
    then have "table_at (ram k) pt va (2 - l) = Some (PTE2PA ?e)"
      using Suc.prems(4) unfolding d(1,2) by (simp add: d(4))
    then show ?thesis using Suc.IH [of k ps "PTE2PA ?e"] Suc.prems False by auto
  next
    case True
    show ?thesis
    proof (cases ps)
      case Nil
      then have "kalloc k = (k, 0)" using Suc.prems(1) kalloc_empty [of kend k] by (simp add: vm_ok_def)
      then have "k' = k" "s = 0" using Suc.prems(5) True by auto
      then show ?thesis using Nil vm_ext_refl [OF Suc.prems(1)] by auto
    next
      case (Cons p ps1)
      then obtain k1 where ka: "kalloc k = (k1, p)" and p: "p \<noteq> 0"
        using kalloc_pop [of kend k p ps1] Suc.prems(1) by (auto simp: vm_ok_def kmem_inv_def is_page_def)
      let ?k = "k1\<lparr>ram := write64 (memset (ram k1) p 0 4096) (pte_addr t (Suc l) va) (PA2PTE p OR PTE_V)\<rparr>"
      have inst: "vm_ext kend pt k ps ?k ps1" "table_at (ram ?k) pt va (2 - l) = Some p"
        "\<And>va'. va' < MAXVA \<Longrightarrow> pte_of (ram ?k) pt va' = pte_of (ram k) pt va'"
        using vm_ext_install [OF _ ka Suc.prems(2), of kend pt ps1 "1 - l" t] Suc.prems True Cons
        unfolding d(1,2) by (simp_all add: d(4))
      have w: "walk_from l p va True ?k = (k', s)" using Suc.prems(5) True ka p by (simp add: Let_def)
      have "vm_ok kend pt ?k ps1" using inst(1) by (simp add: vm_ext_def)
      from Suc.IH [OF this Suc.prems(2) _ inst(2) w] Suc.prems(3) inst(1,3) show ?thesis
        by (auto intro: vm_ext_trans)
    qed
  qed
qed

section \<open>Adding mappings\<close>

lemma PGROUNDDOWN_range:
  assumes "aligned 12 a"
  shows "PGROUNDDOWN v = a \<longleftrightarrow> unat a \<le> unat v \<and> unat v < unat a + 4096"
proof -
  obtain q where q: "unat a = 4096 * q" using assms by (auto simp: aligned_def)
  have "PGROUNDDOWN v = a \<longleftrightarrow> 4096 * (unat v div 4096) = 4096 * q"
    by (simp add: word_unat_eq_iff unat_PGROUNDDOWN q mult.commute)
  also have "\<dots> \<longleftrightarrow> 4096 * q \<le> unat v \<and> unat v < 4096 * q + 4096" by auto
  finally show ?thesis using q by simp
qed

lemma same_page_range: "aligned 12 a \<Longrightarrow> pre v 3 = pre a 3 \<longleftrightarrow> unat a \<le> unat v \<and> unat v < unat a + 4096"
  by (simp add: pre_3 PGROUNDDOWN_aligned PGROUNDDOWN_range)

lemma aligned_next: "aligned 12 a \<Longrightarrow> aligned 12 b \<Longrightarrow> unat a \<le> unat b \<Longrightarrow> a \<noteq> b \<Longrightarrow> unat a + 4096 \<le> unat b"
  by (auto simp: aligned_def word_unat_eq_iff elim!: dvdE)

lemma walk_alloc:
  assumes "vm_ok kend pt k ps" "va < MAXVA"
  obtains k' s ps' where "walk pt va True k = Ok (k', s)" "vm_ext kend pt k ps k' ps'"
    "\<And>va'. va' < MAXVA \<Longrightarrow> pte_of (ram k') pt va' = pte_of (ram k) pt va'"
    "s = 0 \<and> ps' = [] \<or> s \<noteq> 0 \<and> (\<exists>t. table_at (ram k') pt va 2 = Some t \<and> s = pte_addr t 0 va)"
proof -
  obtain k' s where w: "walk_from 2 pt va True k = (k', s)" by fastforce
  then have "walk pt va True k = Ok (k', s)" using assms(2) by (simp add: walk_def)
  then show thesis using walk_from_alloc [OF assms _ _ w] that by (auto split: if_splits)
qed

text \<open>The entries after mapping the virtual range \<open>[a, b)\<close> to physical pages from \<open>pa\<close> on.\<close>

definition mapped :: "u64 \<Rightarrow> nat \<Rightarrow> u64 \<Rightarrow> u64 \<Rightarrow> (u64 \<Rightarrow> u64) \<Rightarrow> u64 \<Rightarrow> u64" where
  "mapped a b pa perm f v =
     (if unat a \<le> unat v \<and> unat v < b then PA2PTE (pa + (PGROUNDDOWN v - a)) OR perm OR PTE_V else f v)"

lemma mapped_step:
  assumes "aligned 12 a" "unat a + 4096 \<le> b" "unat (a + 4096) = unat a + 4096"
  shows "mapped (a + 4096) b (pa + 4096) perm
     (\<lambda>v. if pre v 3 = pre a 3 then PA2PTE pa OR perm OR PTE_V else f v) v = mapped a b pa perm f v"
  using assms PGROUNDDOWN_range [OF assms(1), of v]
  by (auto simp: mapped_def same_page_range algebra_simps)

lemma mapped_cong: "f v = g v \<Longrightarrow> mapped a b pa perm f v = mapped a b pa perm g v"
  by (simp add: mapped_def)

text \<open>One iteration of the loop of \<^verbatim>\<open>mappages\<close>.\<close>

lemma mappages_loop_step:
  assumes ok: "vm_ok kend pt k ps" and a: "a < MAXVA" and nv: "pte_of (ram k) pt a AND PTE_V = 0"
  obtains (full) k1 where "mappages_loop pt a lst pa perm k = Ok (k1, - 1)" "vm_ext kend pt k ps k1 []"
      "\<And>v. v < MAXVA \<Longrightarrow> pte_of (ram k1) pt v = pte_of (ram k) pt v"
  | (set) k2 ps1 where "vm_ext kend pt k ps k2 ps1"
      "mappages_loop pt a lst pa perm k =
        (if a = lst then Ok (k2, 0) else mappages_loop pt (a + 4096) lst (pa + 4096) perm k2)"
      "\<And>v. v < MAXVA \<Longrightarrow>
        pte_of (ram k2) pt v = (if pre v 3 = pre a 3 then PA2PTE pa OR perm OR PTE_V else pte_of (ram k) pt v)"
proof -
  obtain k1 s ps1 where w: "walk pt a True k = Ok (k1, s)" "vm_ext kend pt k ps k1 ps1"
    "\<And>va'. va' < MAXVA \<Longrightarrow> pte_of (ram k1) pt va' = pte_of (ram k) pt va'"
    "s = 0 \<and> ps1 = [] \<or> s \<noteq> 0 \<and> (\<exists>t. table_at (ram k1) pt a 2 = Some t \<and> s = pte_addr t 0 a)"
    using walk_alloc [OF ok a] by blast
  show thesis
  proof (cases "s = 0")
    case True
    then have "mappages_loop pt a lst pa perm k = Ok (k1, - 1)"
      using w(1) by (subst mappages_loop.simps) simp
    then show thesis using full w True by auto
  next
    case False
    then obtain t where t: "table_at (ram k1) pt a 2 = Some t" "s = pte_addr t 0 a" using w(4) by blast
    have ok1: "vm_ok kend pt k1 ps1" using w(2) by (simp add: vm_ext_def)
    have nv: "read64 (ram k1) s AND PTE_V = 0" using w(3) [OF a] nv t by (simp add: pte_of_def)
    define k2 where "k2 = k1\<lparr>ram := write64 (ram k1) s (PA2PTE pa OR perm OR PTE_V)\<rparr>"
    show thesis
    proof (rule set)
      show "vm_ext kend pt k ps k2 ps1"
        using vm_ext_trans [OF w(2) vm_ext_leaf_write [OF ok1 a t(1)]] t(2) by (simp add: k2_def)
      show "mappages_loop pt a lst pa perm k =
          (if a = lst then Ok (k2, 0) else mappages_loop pt (a + 4096) lst (pa + 4096) perm k2)"
        using w(1) False nv by (subst mappages_loop.simps) (simp add: k2_def PGSIZE_def)
      show "pte_of (ram k2) pt v = (if pre v 3 = pre a 3 then PA2PTE pa OR perm OR PTE_V else pte_of (ram k) pt v)"
        if "v < MAXVA" for v
        using leaf_write_pte_of [of kend "ram k1" pt a t v] ok1 a t that w(3) by (simp add: k2_def vm_ok_def)
    qed
  qed
qed

lemma mappages_loop_ok:
  assumes "vm_ok kend pt k ps" "aligned 12 a" "aligned 12 lst" "unat a \<le> unat lst" "lst < MAXVA"
    and "\<And>v. v < MAXVA \<Longrightarrow> unat a \<le> unat v \<Longrightarrow> unat v < unat lst + 4096 \<Longrightarrow> pte_of (ram k) pt v AND PTE_V = 0"
  shows "\<exists>k' r ps' b. mappages_loop pt a lst pa perm k = Ok (k', r) \<and> vm_ext kend pt k ps k' ps' \<and>
    (r = 0 \<and> b = unat lst + 4096 \<or> r = - 1 \<and> ps' = [] \<and> unat a \<le> b \<and> b \<le> unat lst) \<and>
    (\<forall>v < MAXVA. pte_of (ram k') pt v = mapped a b pa perm (pte_of (ram k) pt) v)"
  using assms
proof (induction "unat lst - unat a" arbitrary: a pa k ps rule: less_induct)
  case less
  have a: "a < MAXVA" using less.prems by (simp add: word_less_nat_alt)
  have nv: "pte_of (ram k) pt a AND PTE_V = 0" using less.prems(4) by (intro less.prems(6) a) auto
  note rng = same_page_range [OF less.prems(2)] PGROUNDDOWN_range [OF less.prems(2)]
  from less.prems(1) a nv show ?case
  proof (cases rule: mappages_loop_step [where lst = lst and pa = pa and perm = perm])
    case (full k1)
    then show ?thesis using less.prems(4)
      by (intro exI [of _ k1] exI [of _ "- 1"] exI [of _ "[]"] exI [of _ "unat a"]) (auto simp: mapped_def)
  next
    case (set k2 ps1)
    show ?thesis
    proof (cases "a = lst")
      case True
      have "mapped a (unat a + 4096) pa perm (pte_of (ram k) pt) v = pte_of (ram k2) pt v" if "v < MAXVA" for v
        using set(3) [OF that] rng(1) [of v] rng(2) [of v, THEN iffD2] by (auto simp: mapped_def)
      then show ?thesis using set True
        by (intro exI [of _ k2] exI [of _ 0] exI [of _ ps1] exI [of _ "unat a + 4096"]) simp
    next
      case neq: False
      have lt: "unat a + 4096 \<le> unat lst" using neq less.prems(2-4) aligned_next by blast
      have nxt: "unat (a + 4096) = unat a + 4096"
        using unat_next_page [of a] a by (simp add: PGSIZE_def MAXVA_def word_less_nat_alt)
      have ok2: "vm_ok kend pt k2 ps1" using set(1) by (simp add: vm_ext_def)
      have nv2: "pte_of (ram k2) pt v AND PTE_V = 0"
        if "v < MAXVA" "unat (a + 4096) \<le> unat v" "unat v < unat lst + 4096" for v
        using set(3) [OF that(1)] rng less.prems(6) [OF that(1)] that nxt by simp
      have al: "aligned 12 (a + 4096)" using less.prems(2) nxt by (simp add: aligned_def)
      have "unat lst - unat (a + 4096) < unat lst - unat a" "unat (a + 4096) \<le> unat lst"
        using lt nxt by auto
      from less.hyps [OF this(1) ok2 al less.prems(3) this(2) less.prems(5) nv2, of "pa + 4096"]
      obtain k' r ps' b where IH: "mappages_loop pt (a + 4096) lst (pa + 4096) perm k2 = Ok (k', r)"
        "vm_ext kend pt k2 ps1 k' ps'"
        "r = 0 \<and> b = unat lst + 4096 \<or> r = - 1 \<and> ps' = [] \<and> unat (a + 4096) \<le> b \<and> b \<le> unat lst"
        "\<forall>v < MAXVA. pte_of (ram k') pt v = mapped (a + 4096) b (pa + 4096) perm (pte_of (ram k2) pt) v"
        by blast
      have "pte_of (ram k') pt v = mapped a b pa perm (pte_of (ram k) pt) v" if "v < MAXVA" for v
      proof -
        have "pte_of (ram k') pt v = mapped (a + 4096) b (pa + 4096) perm
            (\<lambda>v. if pre v 3 = pre a 3 then PA2PTE pa OR perm OR PTE_V else pte_of (ram k) pt v) v"
          using IH(4) set(3) [OF that] that by (simp add: mapped_def)
        then show ?thesis using mapped_step [OF less.prems(2) _ nxt, of b] IH(3) lt nxt by auto
      qed
      then show ?thesis
        using set(2) neq IH vm_ext_trans [OF set(1) IH(2)] nxt lt
        by (intro exI [of _ k'] exI [of _ r] exI [of _ ps'] exI [of _ b]) auto
    qed
  qed
qed

section \<open>Looking an address up\<close>

lemma walk_from_lookup:
  assumes "pt_inv kend (ram k) pt" "va < MAXVA" "l \<le> 2" "table_at (ram k) pt va (2 - l) = Some t"
  shows "walk_from l t va False k =
    (k, case table_at (ram k) pt va 2 of None \<Rightarrow> 0 | Some t \<Rightarrow> pte_addr t 0 va)"
  using assms(3,4)
proof (induction l arbitrary: t)
  case (Suc l)
  have d: "2 - l = Suc (1 - l)" "2 - Suc l = 1 - l" "2 - (Suc 0 - l) = Suc l" using Suc.prems(1) by auto
  let ?e = "read64 (ram k) (pte_addr t (Suc l) va)"
  show ?case
  proof (cases "?e AND PTE_V = 0")
    case False
    then have "table_at (ram k) pt va (2 - l) = Some (PTE2PA ?e)"
      using Suc.prems(2) unfolding d(1,2) by (simp add: d(3))
    then show ?thesis using Suc.IH Suc.prems(1) False by simp
  next
    case True
    then have "table_at (ram k) pt va (2 - l) = None"
      using Suc.prems(2) unfolding d(1,2) by (simp add: d(3))
    moreover have "l = 0 \<or> l = 1" using Suc.prems(1) by auto
    ultimately show ?thesis using True by (auto simp: numeral_2_eq_2)
  qed
qed simp

lemma walk_lookup:
  assumes "pt_inv kend (ram k) pt" "va < MAXVA"
  shows "walk pt va False k = Ok (k, case table_at (ram k) pt va 2 of None \<Rightarrow> 0 | Some t \<Rightarrow> pte_addr t 0 va)"
  using walk_from_lookup [OF assms, of 2 pt] assms(2) by (simp add: walk_def)

text \<open>The frame a user address is in, 0 if it has none a user may access.\<close>

definition user_frame :: "mem \<Rightarrow> u64 \<Rightarrow> u64 \<Rightarrow> u64" where
  "user_frame m pt va =
     (if va < MAXVA \<and> pte_of m pt va AND PTE_V \<noteq> 0 \<and> pte_of m pt va AND PTE_U \<noteq> 0
      then PTE2PA (pte_of m pt va) else 0)"

lemma walkaddr_frame:
  assumes "pt_inv kend (ram k) pt"
  shows "walkaddr pt va k = Ok (user_frame (ram k) pt va)"
proof (cases "va < MAXVA")
  case True
  show ?thesis
  proof (cases "table_at (ram k) pt va 2")
    case None
    then show ?thesis using True walk_lookup [OF assms True]
      by (simp add: walkaddr_def user_frame_def pte_of_def)
  next
    case (Some t)
    then have "pte_addr t 0 va \<noteq> 0" using pt_inv_page [OF assms Some] True pte_addr_nonnull by simp
    then show ?thesis using True Some walk_lookup [OF assms True]
      by (auto simp: walkaddr_def user_frame_def pte_of_def)
  qed
qed (auto simp: walkaddr_def user_frame_def)

text \<open>A zeroed page is an empty page table.\<close>

lemma empty_table:
  assumes "is_page kend pt" "\<And>l va. read64 m (pte_addr pt l va) = 0"
  shows "tables m pt = {pt}" "pt_inv kend m pt" "pte_of m pt va = 0"
proof -
  have 1: "table_at m pt va (Suc d) = None" for va d
    by (induction d) (auto simp: assms)
  have d: "table_at m pt va d = (if d = 0 then Some pt else None)" for va d
    by (cases d) (auto simp: 1 simp del: table_at.simps(2))
  show "tables m pt = {pt}" unfolding tables_def d by (auto intro!: exI [of _ 0] simp: MAXVA_def)
  then show "pt_inv kend m pt" unfolding pt_inv_def d by (auto simp: assms pre_0 split: if_splits)
  show "pte_of m pt va = 0" by (simp add: pte_of_def d)
qed

end
