(* ===== verification/Vm_Copy.thy ===== *)
theory Vm_Copy
  imports Vm_Map
begin

text \<open>
  What the routines of \<^verbatim>\<open>kernel/vm.c\<close> do to an address space: \<^verbatim>\<open>mappages\<close> maps exactly the
  requested pages, \<^verbatim>\<open>copyout\<close> and \<^verbatim>\<open>copyin\<close> move bytes through the page table, also across
  page boundaries.
\<close>

section \<open>Mapping a range\<close>

lemma page_floor_le: "4096 * (a div 4096) \<le> v \<longleftrightarrow> 4096 * (a div 4096) \<le> 4096 * (v div 4096)" for a v :: nat
  using less_eq_div_iff_mult_less_eq [of 4096 "a div 4096" v] by (simp add: mult.commute)

lemma less_page_end: "v < 4096 * (e div 4096) + 4096 \<longleftrightarrow> 4096 * (v div 4096) \<le> e" for v e :: nat
  using less_eq_div_iff_mult_less_eq [of 4096 "v div 4096" e] div_less_iff_less_mult [of 4096 v "Suc (e div 4096)"]
  by (simp add: mult.commute algebra_simps less_Suc_eq_le)

lemma page_range_iff:
  "unat (PGROUNDDOWN a) \<le> unat v \<and> unat v < unat (PGROUNDDOWN e) + 4096 \<longleftrightarrow>
    PGROUNDDOWN a \<le> PGROUNDDOWN v \<and> PGROUNDDOWN v \<le> e"
  using page_floor_le [of "unat a" "unat v"] less_page_end [of "unat v" "unat e"]
  by (simp add: word_le_nat_alt unat_PGROUNDDOWN)

text \<open>
  C7. \<^verbatim>\<open>mappages\<close> on a range whose pages are unmapped does not panic. It returns 0 with the
  entry of every page from the one of \<open>va\<close> to the one of \<open>va + size - 1\<close> set to consecutive
  frames from \<open>pa\<close> with permissions \<open>perm\<close> and every other entry unchanged, or -1 with the
  free list exhausted. In both cases the tables stay a tree of pages disjoint from the free
  list, every page is a table or free as before, and no byte outside those pages changes.
\<close>

theorem mappages_correct:
  assumes "vm_ok kend pt k ps" "0 < sz" "unat va + unat sz \<le> 2 ^ 38"
    and "\<forall>v < MAXVA. PGROUNDDOWN va \<le> PGROUNDDOWN v \<and> PGROUNDDOWN v \<le> va + sz - 1 \<longrightarrow> pte_of (ram k) pt v AND PTE_V = 0"
  shows "\<exists>k' r ps'. mappages pt va sz pa perm k = Ok (k', r) \<and> vm_ext kend pt k ps k' ps' \<and>
    (r = - 1 \<and> ps' = [] \<or>
     r = 0 \<and> (\<forall>v < MAXVA. pte_of (ram k') pt v =
       (if PGROUNDDOWN va \<le> PGROUNDDOWN v \<and> PGROUNDDOWN v \<le> va + sz - 1
        then PA2PTE (pa + (PGROUNDDOWN v - PGROUNDDOWN va)) OR perm OR PTE_V
        else pte_of (ram k) pt v)))"
proof -
  let ?a = "PGROUNDDOWN va" and ?e = "va + sz - 1"
  have "1 \<le> sz" using assms(2) by (simp add: word_le_nat_alt word_less_nat_alt)
  have "unat (va + sz) = unat va + unat sz" using assms(3) by (simp add: unat_word_ariths)
  then have e: "unat ?e = unat va + unat sz - 1"
    using \<open>1 \<le> sz\<close> by (subst unat_sub) (auto simp: word_le_nat_alt)
  have "unat ?a \<le> unat (PGROUNDDOWN ?e)"
    using e \<open>1 \<le> sz\<close> by (simp add: unat_PGROUNDDOWN word_le_nat_alt div_le_mono)
  moreover have "PGROUNDDOWN ?e < MAXVA"
    using e assms(3) \<open>1 \<le> sz\<close> by (simp add: unat_PGROUNDDOWN MAXVA_def word_less_nat_alt word_le_nat_alt)
  ultimately obtain k' r ps' b where l: "mappages_loop pt ?a (PGROUNDDOWN ?e) pa perm k = Ok (k', r)"
    "vm_ext kend pt k ps k' ps'"
    "r = 0 \<and> b = unat (PGROUNDDOWN ?e) + 4096 \<or> r = - 1 \<and> ps' = [] \<and> unat ?a \<le> b \<and> b \<le> unat (PGROUNDDOWN ?e)"
    "\<forall>v < MAXVA. pte_of (ram k') pt v = mapped ?a b pa perm (pte_of (ram k) pt) v"
    using mappages_loop_ok [OF assms(1) aligned_PGROUNDDOWN aligned_PGROUNDDOWN, of va ?e pa perm]
      assms(4) page_range_iff [of va _ ?e] by blast
  have m: "mappages pt va sz pa perm k = Ok (k', r)" using l(1) by (simp add: mappages_def Let_def)
  show ?thesis
  proof (cases "r = 0")
    case True
    then have "pte_of (ram k') pt v =
       (if ?a \<le> PGROUNDDOWN v \<and> PGROUNDDOWN v \<le> ?e
        then PA2PTE (pa + (PGROUNDDOWN v - ?a)) OR perm OR PTE_V else pte_of (ram k) pt v)" if "v < MAXVA" for v
      using l(3,4) that page_range_iff [of va v ?e] by (simp add: mapped_def)
    then show ?thesis using m l(2) True by blast
  qed (use m l(2,3) in blast)
qed

text \<open>A memory with an empty page table and two free pages.\<close>

definition demo_kmem :: kmem where
  "demo_kmem = \<lparr>ram = write64 (\<lambda>_. 0) 0x80101000 0x80102000, freelist = 0x80101000\<rparr>"

lemma read64_zero: "read64 (\<lambda>_. 0) a = 0"
  by (simp add: read64_def mread_def map_replicate_const le_word_replicate_0)

lemma demo_page: "is_page 0x80100000 0x80100000" "is_page 0x80100000 0x80101000" "is_page 0x80100000 0x80102000"
  by (simp_all add: is_page_def aligned_def PHYSTOP_def KERNBASE_def)

lemma demo_slot: "read64 (ram demo_kmem) (pte_addr 0x80100000 l va) = 0"
  using read_slot_same_outside [OF same_outside_write64 [of "0x80101000" "\<lambda>_. 0"], of "0x80100000"] demo_page
  by (simp add: demo_kmem_def is_page_def read64_zero)

lemma demo_vm_ok: "vm_ok 0x80100000 0x80100000 demo_kmem [0x80101000, 0x80102000]"
proof -
  have "read64 (ram demo_kmem) 0x80102000 = 0"
    using read64_write64_aligned [of "0x80102000" "0x80101000" "\<lambda>_. 0"]
    by (simp add: demo_kmem_def read64_zero aligned_def)
  then have "kmem_inv 0x80100000 demo_kmem [0x80101000, 0x80102000]"
    using demo_page by (simp add: kmem_inv_def demo_kmem_def)
  then show ?thesis
    using empty_table [OF demo_page(1) demo_slot] by (simp add: vm_ok_def)
qed

lemma demo_pte_of: "pte_of (ram demo_kmem) 0x80100000 va = 0"
  by (rule empty_table(3) [OF demo_page(1) demo_slot])

theorem mappages_correct_witness:
  "\<exists>k' r ps'. mappages 0x80100000 0x1234 0x1000 0x80110000 PTE_R demo_kmem = Ok (k', r) \<and>
    vm_ext 0x80100000 0x80100000 demo_kmem [0x80101000, 0x80102000] k' ps' \<and>
    (r = - 1 \<and> ps' = [] \<or>
     r = 0 \<and> (\<forall>v < MAXVA. pte_of (ram k') 0x80100000 v =
       (if 0x1000 \<le> PGROUNDDOWN v \<and> PGROUNDDOWN v \<le> 0x2233
        then PA2PTE (0x80110000 + (PGROUNDDOWN v - 0x1000)) OR PTE_R OR PTE_V else 0)))"
proof -
  have "PGROUNDDOWN 0x1234 = 0x1000" by (simp add: PGROUNDDOWN_def PGSIZE_def)
  then show ?thesis
    using mappages_correct [OF demo_vm_ok, of "0x1000" "0x1234" "0x80110000" PTE_R]
    by (simp add: demo_pte_of split del: if_split cong: if_cong)
qed

section \<open>Copying through the page table\<close>

lemma aligned_PTE2PA: "aligned 12 (PTE2PA pte)"
proof -
  have "PTE2PA pte = drop_bit 10 pte * 4096" by (simp add: PTE2PA_def push_bit_eq_mult)
  then have "unat (PTE2PA pte) = unat (drop_bit 10 pte) * 4096 mod 2 ^ 64"
    by (simp only: unat_word_ariths) simp
  then show ?thesis unfolding aligned_def by (simp add: dvd_mod)
qed

lemma aligned_user_frame: "aligned 12 (user_frame m pt va)"
  by (simp add: user_frame_def aligned_PTE2PA) (simp add: aligned_def)

lemma MAXVA_page: "PGROUNDDOWN va < MAXVA \<longleftrightarrow> va < MAXVA"
proof -
  have "4096 * (unat va div 4096) < 4096 * 2 ^ 26 \<longleftrightarrow> unat va < 2 ^ 26 * 4096"
    unfolding mult_less_cancel1 by (subst div_less_iff_less_mult) auto
  then show ?thesis by (simp add: word_less_nat_alt unat_PGROUNDDOWN MAXVA_def)
qed

lemma user_frame_page: "PGROUNDDOWN v = PGROUNDDOWN v' \<Longrightarrow> user_frame m pt v = user_frame m pt v'"
  using pte_of_pre [of v v' m pt] MAXVA_page [of v] MAXVA_page [of v'] by (simp add: pre_3 user_frame_def)

text \<open>No user page is a page table, and no frame is mapped at two user pages.\<close>

definition user_sep :: "mem \<Rightarrow> u64 \<Rightarrow> bool" where
  "user_sep m pt \<longleftrightarrow>
     (\<forall>v. user_frame m pt v \<noteq> 0 \<longrightarrow> user_frame m pt v \<notin> tables m pt) \<and>
     (\<forall>v v'. user_frame m pt v \<noteq> 0 \<longrightarrow> user_frame m pt v = user_frame m pt v' \<longrightarrow>
        PGROUNDDOWN v = PGROUNDDOWN v')"

definition same_tables :: "u64 \<Rightarrow> mem \<Rightarrow> mem \<Rightarrow> bool" where
  "same_tables pt m m' \<longleftrightarrow>
     tables m' pt = tables m pt \<and> (\<forall>v. user_frame m' pt v = user_frame m pt v)"

lemma same_tables_sep: "same_tables pt m m' \<Longrightarrow> user_sep m pt \<Longrightarrow> user_sep m' pt"
proof -
  assume "same_tables pt m m'" and sep: "user_sep m pt"
  then have eq: "user_frame m' pt = user_frame m pt" "tables m' pt = tables m pt"
    by (auto simp: same_tables_def)
  show ?thesis using sep unfolding user_sep_def eq .
qed

lemma data_store:
  assumes inv: "pt_inv kend m pt" and so: "same_outside f m m'" and f: "aligned 12 f" "f \<notin> tables m pt"
  shows "pt_inv kend m' pt" "same_tables pt m m'"
proof -
  have rd: "read64 m' (pte_addr t l va) = read64 m (pte_addr t l va)" if "t \<in> tables m pt" for t l va
    using read_slot_same_outside [OF so f(1)] inv f(2) that by (auto simp: pt_inv_def is_page_def)
  have tab: "table_at m' pt va d = table_at m pt va d" if "va < MAXVA" "d \<le> 2" for va d
    using that by (intro table_at_frame rd) auto
  show "pt_inv kend m' pt" using inv pt_inv_cong [OF tab] by simp
  have "pte_of m' pt v = pte_of m pt v" if "v < MAXVA" for v
    using that by (intro pte_of_frame rd) auto
  then show "same_tables pt m m'"
    unfolding same_tables_def using tables_cong [OF tab] by (auto simp: user_frame_def)
qed

text \<open>Where a chunk of a copy lies: within the page of its address.\<close>

lemma va_split: "va = PGROUNDDOWN va + of_nat (unat va mod 4096)"
proof -
  have "va - PGROUNDDOWN va = of_nat (unat va mod 4096)"
    by (simp flip: unat_page_offset)
  then show ?thesis by (simp add: algebra_simps)
qed

lemma PGROUNDDOWN_chunk: "unat va mod 4096 + i < 4096 \<Longrightarrow> PGROUNDDOWN (va + of_nat i) = PGROUNDDOWN va"
proof -
  assume i: "unat va mod 4096 + i < 4096"
  have u: "unat va + i < 4096 * (unat va div 4096) + 4096"
    using i mult_div_mod_eq [of 4096 "unat va"] by linarith
  moreover have "unat (PGROUNDDOWN va) + 2 ^ 12 \<le> 2 ^ 64"
    using multiple_fits [of 12 "unat (PGROUNDDOWN va)"] unat_lt2p64 aligned_PGROUNDDOWN [of va]
    by (simp add: aligned_def)
  ultimately have "unat (va + of_nat i) = unat va + i"
    unfolding unat_PGROUNDDOWN by (intro unat_plus_nat) simp
  moreover have "4096 * (unat va div 4096) \<le> unat va" by simp
  ultimately show ?thesis
    using u by (subst PGROUNDDOWN_range [OF aligned_PGROUNDDOWN]) (simp add: unat_PGROUNDDOWN)
qed

lemma same_outside_mwrite_in:
  assumes "i + length bs \<le> 4096"
  shows "same_outside f m (mwrite m (f + of_nat i) bs)"
  unfolding same_outside_def
proof (intro allI impI)
  fix x assume x: "\<not> unat (x - f) < 4096"
  have "\<not> unat (x - (f + of_nat i)) < length bs"
  proof
    assume l: "unat (x - (f + of_nat i)) < length bs"
    let ?j = "unat (x - (f + of_nat i))"
    have "x - f = of_nat (i + ?j)" by simp
    moreover have "i + ?j < 2 ^ 64" using l assms by simp
    ultimately have "unat (x - f) = i + ?j" by (metis unat_of_nat_64)
    then show False using x l assms by simp
  qed
  then show "m x = mwrite m (f + of_nat i) bs x" by (simp add: mwrite_outside)
qed

lemma chunk_next:
  assumes "va < MAXVA"
  shows "PGROUNDDOWN va + PGSIZE = va + of_nat (4096 - unat va mod 4096)"
    "unat (PGROUNDDOWN va + PGSIZE) = unat (PGROUNDDOWN va) + 4096"
    "PGROUNDDOWN (PGROUNDDOWN va + PGSIZE) = PGROUNDDOWN va + PGSIZE"
proof -
  have b: "unat (PGROUNDDOWN va) < 2 ^ 38"
    using assms MAXVA_page [of va] by (simp add: MAXVA_def word_less_nat_alt)
  then show n: "unat (PGROUNDDOWN va + PGSIZE) = unat (PGROUNDDOWN va) + 4096"
    by (rule unat_next_page)
  have "unat va mod 4096 \<le> 4096" by (simp add: less_imp_le)
  then have "of_nat (4096 - unat va mod 4096) = (4096 :: u64) - of_nat (unat va mod 4096)"
    by (simp add: of_nat_diff)
  moreover have "va - of_nat (unat va mod 4096) = PGROUNDDOWN va"
    using va_split [of va] by (metis add_diff_cancel_right')
  ultimately show "PGROUNDDOWN va + PGSIZE = va + of_nat (4096 - unat va mod 4096)"
    by (simp add: PGSIZE_def algebra_simps)
  have "aligned 12 (PGROUNDDOWN va + PGSIZE)"
    using aligned_PGROUNDDOWN [of va] n by (simp add: aligned_def)
  then show "PGROUNDDOWN (PGROUNDDOWN va + PGSIZE) = PGROUNDDOWN va + PGSIZE"
    by (rule PGROUNDDOWN_aligned)
qed

text \<open>A user range is accessible if each of its bytes lies in a user frame.\<close>

definition accessible :: "mem \<Rightarrow> u64 \<Rightarrow> u64 \<Rightarrow> nat \<Rightarrow> bool" where
  "accessible m pt va len \<longleftrightarrow> (\<forall>i < len. user_frame m pt (va + of_nat i) \<noteq> 0)"

lemma accessible_chunk:
  assumes "0 < len"
  shows "accessible m pt va len \<longleftrightarrow> user_frame m pt va \<noteq> 0 \<and>
    accessible m pt (PGROUNDDOWN va + PGSIZE) (len - page_chunk va len)"
proof (cases "user_frame m pt va = 0")
  case True
  then have "user_frame m pt (va + of_nat 0) = 0" by simp
  then show ?thesis using True assms unfolding accessible_def by blast
next
  case False
  then have va: "va < MAXVA" by (auto simp: user_frame_def split: if_splits)
  let ?n = "4096 - unat va mod 4096"
  have near: "user_frame m pt (va + of_nat i) = user_frame m pt va" if "i < ?n" for i
    using that by (intro user_frame_page PGROUNDDOWN_chunk) simp
  have far: "PGROUNDDOWN va + PGSIZE + of_nat j = va + of_nat (?n + j)" for j
    by (simp add: chunk_next(1) [OF va])
  have "accessible m pt va len \<longleftrightarrow> (\<forall>j < len - ?n. user_frame m pt (va + of_nat (?n + j)) \<noteq> 0)"
    unfolding accessible_def
  proof (intro iffI allI impI)
    fix i assume a: "\<forall>j < len - ?n. user_frame m pt (va + of_nat (?n + j)) \<noteq> 0" "i < len"
    show "user_frame m pt (va + of_nat i) \<noteq> 0"
    proof (cases "i < ?n")
      case True
      then show ?thesis using near False by simp
    next
      case ge: False
      then show ?thesis using a(1) [rule_format, of "i - ?n"] a(2) by (simp del: of_nat_add)
    qed
  next
    fix j assume a: "\<forall>i < len. user_frame m pt (va + of_nat i) \<noteq> 0" "j < len - ?n"
    have "?n + j < len" using a(2) by linarith
    then show "user_frame m pt (va + of_nat (?n + j)) \<noteq> 0" using a(1) by blast
  qed
  moreover have "len - page_chunk va len = len - ?n" by (auto simp: page_chunk_eq)
  ultimately show ?thesis using False far by (simp add: accessible_def del: of_nat_add)
qed

text \<open>
  The loop of \<^verbatim>\<open>copyout\<close>, with what it keeps: the tables, and every page that is not the frame
  of a user address from \<open>va\<close> on.
\<close>

lemma copyout_step:
  assumes inv: "pt_inv kend (ram k) pt" and sep: "user_sep (ram k) pt" and va: "user_frame (ram k) pt va \<noteq> 0"
    and src: "src \<noteq> []"
  defines "n \<equiv> page_chunk va (length src)" and "off \<equiv> unat va mod 4096" and "f \<equiv> user_frame (ram k) pt va"
  defines "k' \<equiv> k\<lparr>ram := mwrite (ram k) (f + of_nat off) (take n src)\<rparr>"
  shows "copyout pt va src k = copyout pt (PGROUNDDOWN va + PGSIZE) (drop n src) k'"
    "pt_inv kend (ram k') pt" "same_tables pt (ram k) (ram k')" "same_outside f (ram k) (ram k')"
    "mread (ram k') (f + of_nat off) n = take n src"
    "\<And>k''. pt_inv kend (ram k'') pt \<Longrightarrow> user_frame (ram k'') pt va = f \<Longrightarrow>
      copyin pt va (length src) k'' = kbind (copyin pt (PGROUNDDOWN va + PGSIZE) (length src - n) k'')
       (\<lambda>(bs, r). Ok (mread (ram k'') (f + of_nat off) n @ bs, r))"
proof -
  have n: "n = min (length src) (4096 - off)" by (simp add: n_def off_def page_chunk_eq)
  have off: "va - PGROUNDDOWN va = of_nat off" by (simp add: off_def flip: unat_page_offset)
  have pg: "user_frame m pt (PGROUNDDOWN va) = user_frame m pt va" for m
    by (rule user_frame_page) (simp add: PGROUNDDOWN_aligned aligned_PGROUNDDOWN)
  show "copyout pt va src k = copyout pt (PGROUNDDOWN va + PGSIZE) (drop n src) k'"
    using va src by (subst copyout.simps)
      (simp add: walkaddr_frame [OF inv] pg off Let_def k'_def f_def flip: n_def)
  show so: "same_outside f (ram k) (ram k')"
    unfolding k'_def using n by (simp add: same_outside_mwrite_in off_def)
  have "f \<notin> tables (ram k) pt" using sep va unfolding user_sep_def f_def by blast
  then show "pt_inv kend (ram k') pt" "same_tables pt (ram k) (ram k')"
    using data_store [OF inv so] aligned_user_frame by (auto simp: f_def)
  show "mread (ram k') (f + of_nat off) n = take n src"
    using n by (simp add: k'_def mread_mwrite_same)
  show "copyin pt va (length src) k'' = kbind (copyin pt (PGROUNDDOWN va + PGSIZE) (length src - n) k'')
       (\<lambda>(bs, r). Ok (mread (ram k'') (f + of_nat off) n @ bs, r))"
    if "pt_inv kend (ram k'') pt" "user_frame (ram k'') pt va = f" for k''
    using va src that by (subst copyin.simps)
      (simp add: walkaddr_frame [OF that(1)] pg off Let_def f_def flip: n_def)
qed

definition keeps_below :: "u64 \<Rightarrow> u64 \<Rightarrow> mem \<Rightarrow> mem \<Rightarrow> bool" where
  "keeps_below pt va m m' \<longleftrightarrow>
     (\<forall>q i. aligned 12 q \<longrightarrow> (\<forall>v. va \<le> v \<longrightarrow> user_frame m pt v \<noteq> 0 \<longrightarrow> user_frame m pt v \<noteq> q) \<longrightarrow>
       i < 4096 \<longrightarrow> m' (q + of_nat i) = m (q + of_nat i))"

lemma keeps_belowD:
  "keeps_below pt va m m' \<Longrightarrow> aligned 12 q \<Longrightarrow>
    (\<And>v. va \<le> v \<Longrightarrow> user_frame m pt v \<noteq> 0 \<Longrightarrow> user_frame m pt v \<noteq> q) \<Longrightarrow> i < 4096 \<Longrightarrow>
    m' (q + of_nat i) = m (q + of_nat i)"
  unfolding keeps_below_def by blast

lemma keeps_below_step:
  assumes so: "same_outside f m m1" and st: "same_tables pt m m1" and kb: "keeps_below pt va' m1 m2"
    and f: "f = user_frame m pt va" "f \<noteq> 0" and le: "va0 \<le> va" "va0 \<le> va'"
  shows "keeps_below pt va0 m m2"
  unfolding keeps_below_def
proof (intro allI impI)
  fix q and i :: nat
  assume q: "aligned 12 q" "\<forall>v. va0 \<le> v \<longrightarrow> user_frame m pt v \<noteq> 0 \<longrightarrow> user_frame m pt v \<noteq> q" "i < 4096"
  have "f \<noteq> q" using q(2) f le(1) by blast
  then have "\<not> unat (q + of_nat i - f) < 4096"
    using page_offset_iff [of f q i] q(1,3) aligned_user_frame f(1) by blast
  then have "m1 (q + of_nat i) = m (q + of_nat i)" using so by (simp add: same_outside_def)
  moreover have "m2 (q + of_nat i) = m1 (q + of_nat i)"
  proof (rule keeps_belowD [OF kb q(1) _ q(3)])
    fix v assume "va' \<le> v" "user_frame m1 pt v \<noteq> 0"
    then show "user_frame m1 pt v \<noteq> q"
      using q(2) order_trans [OF le(2)] st by (simp add: same_tables_def)
  qed
  ultimately show "m2 (q + of_nat i) = m (q + of_nat i)" by simp
qed

lemma later_frame_neq:
  assumes sep: "user_sep m pt" and va: "va < MAXVA" and f: "user_frame m pt va \<noteq> 0" and v: "PGROUNDDOWN va + PGSIZE \<le> v"
  shows "user_frame m pt v \<noteq> user_frame m pt va"
proof
  assume "user_frame m pt v = user_frame m pt va"
  then have "user_frame m pt v \<noteq> 0" "user_frame m pt v = user_frame m pt va" using f by auto
  then have "PGROUNDDOWN v = PGROUNDDOWN va" using sep unfolding user_sep_def by blast
  then have "unat v < unat (PGROUNDDOWN va) + 4096"
    using PGROUNDDOWN_range [OF aligned_PGROUNDDOWN, of v va] by simp
  then show False using v chunk_next(2) [OF va] by (simp add: word_le_nat_alt)
qed

lemma copyout_ok:
  assumes "pt_inv kend (ram k) pt" "user_sep (ram k) pt"
  shows "\<exists>k'. copyout pt va src k = Ok (k', if accessible (ram k) pt va (length src) then 0 else - 1) \<and>
    pt_inv kend (ram k') pt \<and> same_tables pt (ram k) (ram k') \<and>
    keeps_below pt (PGROUNDDOWN va) (ram k) (ram k') \<and>
    (accessible (ram k) pt va (length src) \<longrightarrow> copyin pt va (length src) k' = Ok (src, 0))"
  using assms
proof (induction "length src" arbitrary: va src k rule: less_induct)
  case less
  note inv = less.prems
  let ?f = "user_frame (ram k) pt va" and ?off = "unat va mod 4096" and ?va' = "PGROUNDDOWN va + PGSIZE"
  let ?n = "page_chunk va (length src)"
  consider "src = []" | "src \<noteq> []" "?f = 0" | "src \<noteq> []" "?f \<noteq> 0" by blast
  then show ?case
  proof cases
    case 1
    then show ?thesis using inv
      by (simp add: copyout.simps copyin.simps accessible_def same_tables_def keeps_below_def)
  next
    case 2
    have "user_frame (ram k) pt (PGROUNDDOWN va) = 0"
      using 2 user_frame_page [of "PGROUNDDOWN va" va] by (simp add: PGROUNDDOWN_aligned aligned_PGROUNDDOWN)
    then have "copyout pt va src k = Ok (k, - 1)"
      using 2 by (subst copyout.simps) (simp add: walkaddr_frame [OF inv(1)])
    then show ?thesis using inv 2 accessible_chunk [of "length src" "ram k" pt va]
      by (simp add: same_tables_def keeps_below_def)
  next
    case 3
    let ?k = "k\<lparr>ram := mwrite (ram k) (?f + of_nat ?off) (take ?n src)\<rparr>"
    note st = copyout_step [OF inv 3(2,1)]
    have va: "va < MAXVA" using 3 by (auto simp: user_frame_def split: if_splits)
    have sf: "user_frame (ram ?k) pt v = user_frame (ram k) pt v" for v using st(3) by (simp add: same_tables_def)
    have acc: "accessible (ram k) pt va (length src) \<longleftrightarrow> accessible (ram ?k) pt ?va' (length (drop ?n src))"
      using 3 accessible_chunk [of "length src" "ram k" pt va] sf by (simp add: accessible_def)
    have "length (drop ?n src) < length src" using 3 page_chunk_pos [of "length src" va] by simp
    from less.hyps [OF this st(2) same_tables_sep [OF st(3) inv(2)], of ?va']
    obtain k' where k': "copyout pt va src k = Ok (k', if accessible (ram k) pt va (length src) then 0 else - 1)"
      "pt_inv kend (ram k') pt" "same_tables pt (ram ?k) (ram k')" "keeps_below pt ?va' (ram ?k) (ram k')"
      "accessible (ram k) pt va (length src) \<Longrightarrow> copyin pt ?va' (length (drop ?n src)) k' = Ok (drop ?n src, 0)"
      unfolding st(1) acc chunk_next(3) [OF va] by blast
    have le: "PGROUNDDOWN va \<le> va" "PGROUNDDOWN va \<le> ?va'"
      using chunk_next(2) [OF va] by (auto simp: word_le_nat_alt unat_PGROUNDDOWN)
    have "keeps_below pt (PGROUNDDOWN va) (ram k) (ram k')"
      using keeps_below_step [OF st(4,3) k'(4) refl 3(2) le] .
    moreover have st': "same_tables pt (ram k) (ram k')" using st(3) k'(3) by (simp add: same_tables_def)
    moreover have "copyin pt va (length src) k' = Ok (src, 0)" if "accessible (ram k) pt va (length src)"
    proof -
      have "ram k' (?f + of_nat (?off + j)) = ram ?k (?f + of_nat (?off + j))" if "j < ?n" for j
      proof (rule keeps_belowD [OF k'(4) aligned_user_frame])
        show "?off + j < 4096" using that unfolding page_chunk_eq by linarith
      qed (use later_frame_neq [OF inv(2) va 3(2)] sf in simp)
      then have "mread (ram k') (?f + of_nat ?off) ?n = mread (ram ?k) (?f + of_nat ?off) ?n"
        by (intro mread_cong) (simp add: add.assoc)
      moreover have "user_frame (ram k') pt va = ?f" using st' by (simp add: same_tables_def)
      ultimately show ?thesis using st(6) [OF k'(2)] k'(5) [OF that] st(5) by simp
    qed
    ultimately show ?thesis using k'(1,2) by blast
  qed
qed

text \<open>
  C6. \<^verbatim>\<open>copyout\<close> into user memory returns 0 exactly when every byte of the destination lies in
  a page the user may access, -1 otherwise; the page tables stay as they were; and when it
  returned 0, \<^verbatim>\<open>copyin\<close> of the same range returns 0 and the bytes that were stored. Ranges may
  cross pages whose frames are anywhere in memory.
\<close>

theorem copyout_copyin:
  assumes "pt_inv kend (ram k) pt" "user_sep (ram k) pt"
  shows "\<exists>k' r. copyout pt va src k = Ok (k', r) \<and>
    r = (if \<forall>i < length src. user_frame (ram k) pt (va + of_nat i) \<noteq> 0 then 0 else - 1) \<and>
    pt_inv kend (ram k') pt \<and> same_tables pt (ram k) (ram k') \<and>
    (r = 0 \<longrightarrow> copyin pt va (length src) k' = Ok (src, 0))"
  using copyout_ok [OF assms, of va src] by (auto simp: accessible_def)

text \<open>An address space with user pages at 0x0 and 0x1000, in frames that are not adjacent.\<close>

abbreviation "demo_pt \<equiv> 0x80100000 :: u64"

definition demo_ram1 :: mem where
  "demo_ram1 = write64 (\<lambda>_. 0) (pte_addr demo_pt 2 0) (PA2PTE 0x80101000 OR PTE_V)"

definition demo_ram2 :: mem where
  "demo_ram2 = write64 demo_ram1 (pte_addr 0x80101000 1 0) (PA2PTE 0x80102000 OR PTE_V)"

definition demo_ram :: mem where
  "demo_ram = write64 (write64 demo_ram2
     (pte_addr 0x80102000 0 0) (PA2PTE 0x80108000 OR PTE_W OR PTE_U OR PTE_V))
     (pte_addr 0x80102000 0 0x1000) (PA2PTE 0x80104000 OR PTE_W OR PTE_U OR PTE_V)"

lemma zero_lt_MAXVA: "(0 :: u64) < MAXVA" "(0x1000 :: u64) < MAXVA"
  by (simp_all add: MAXVA_def)

lemmas demo_empty = empty_table [OF demo_page(1) read64_zero]

lemma demo_ram1:
  "pt_inv demo_pt demo_ram1 demo_pt" "tables demo_ram1 demo_pt = {demo_pt, 0x80101000}"
  "table_at demo_ram1 demo_pt 0 1 = Some 0x80101000" "v < MAXVA \<Longrightarrow> pte_of demo_ram1 demo_pt v = 0"
proof -
  have p: "0x80101000 \<notin> tables (\<lambda>_. 0) demo_pt" by (simp add: demo_empty)
  note i = demo_empty(2) zero_lt_MAXVA(1) _ _ _ demo_page(2) p same_outside_refl read64_zero
  show "pt_inv demo_pt demo_ram1 demo_pt"
    using install_pt_inv [of demo_pt "\<lambda>_. 0" demo_pt 0 0, OF i] by (simp add: demo_ram1_def read64_zero)
  show "tables demo_ram1 demo_pt = {demo_pt, 0x80101000}"
    using install_tables [of demo_pt "\<lambda>_. 0" demo_pt 0 0, OF i] demo_empty(1) by (auto simp: demo_ram1_def read64_zero)
  show "table_at demo_ram1 demo_pt 0 1 = Some 0x80101000"
    using install_table_at [of demo_pt "\<lambda>_. 0" demo_pt 0 0 _ _ _ 0 1, OF i] zero_lt_MAXVA
    by (simp add: demo_ram1_def read64_zero)
  show "v < MAXVA \<Longrightarrow> pte_of demo_ram1 demo_pt v = 0"
    using install_pte_of [of demo_pt "\<lambda>_. 0" demo_pt 0 0 _ _ _ v, OF i] demo_empty(3)
    by (simp add: demo_ram1_def read64_zero)
qed

lemma demo_ram2:
  "pt_inv demo_pt demo_ram2 demo_pt" "tables demo_ram2 demo_pt = {demo_pt, 0x80101000, 0x80102000}"
  "table_at demo_ram2 demo_pt 0 2 = Some 0x80102000" "v < MAXVA \<Longrightarrow> pte_of demo_ram2 demo_pt v = 0"
proof -
  have z: "read64 demo_ram1 (pte_addr t l w) = 0" if "aligned 12 t" "t \<noteq> demo_pt" for t l w
    using that read_slot_same_outside [OF same_outside_slot] demo_page(1)
    by (simp add: demo_ram1_def read64_zero is_page_def)
  have al: "aligned 12 0x80101000" "aligned 12 0x80102000" using demo_page by (auto simp: is_page_def)
  have nv: "read64 demo_ram1 (pte_addr 0x80101000 (2 - 1) 0) AND PTE_V = 0" using z al by simp
  have z2: "read64 demo_ram1 (pte_addr 0x80102000 l va) = 0" for l va using z al by simp
  have p: "0x80102000 \<notin> tables demo_ram1 demo_pt" by (simp add: demo_ram1)
  note i = demo_ram1(1) zero_lt_MAXVA(1) order_refl demo_ram1(3) nv demo_page(3) p same_outside_refl z2
  show "pt_inv demo_pt demo_ram2 demo_pt" using install_pt_inv [OF i] by (simp add: demo_ram2_def)
  show "tables demo_ram2 demo_pt = {demo_pt, 0x80101000, 0x80102000}"
    using install_tables [OF i] demo_ram1(2) by (auto simp: demo_ram2_def)
  show "table_at demo_ram2 demo_pt 0 2 = Some 0x80102000"
    using install_table_at [OF i zero_lt_MAXVA(1), of 2] by (simp add: demo_ram2_def)
  show "v < MAXVA \<Longrightarrow> pte_of demo_ram2 demo_pt v = 0"
    using install_pte_of [OF i] demo_ram1(4) by (simp add: demo_ram2_def)
qed

lemma demo_ram:
  "pt_inv demo_pt demo_ram demo_pt" "tables demo_ram demo_pt = {demo_pt, 0x80101000, 0x80102000}"
  "v < MAXVA \<Longrightarrow> pte_of demo_ram demo_pt v =
    (if pre v 3 = pre 0x1000 3 then PA2PTE 0x80104000 OR PTE_W OR PTE_U OR PTE_V
     else if pre v 3 = pre 0 3 then PA2PTE 0x80108000 OR PTE_W OR PTE_U OR PTE_V else 0)"
proof -
  let ?m3 = "write64 demo_ram2 (pte_addr 0x80102000 0 0) (PA2PTE 0x80108000 OR PTE_W OR PTE_U OR PTE_V)"
  note t3 = leaf_write_table_at [OF demo_ram2(1) zero_lt_MAXVA(1) demo_ram2(3)]
  have i3: "pt_inv demo_pt ?m3 demo_pt" using demo_ram2(1) pt_inv_cong [OF t3] by simp
  have "pre 0x1000 2 = pre 0 2" by (simp add: pre_def)
  then have t: "table_at ?m3 demo_pt 0x1000 2 = Some 0x80102000"
    using t3 [OF zero_lt_MAXVA(2), of 2] table_at_pre [of 2 "0x1000" 0] demo_ram2(3) by simp
  note t4 = leaf_write_table_at [OF i3 zero_lt_MAXVA(2) t]
  show "pt_inv demo_pt demo_ram demo_pt" using i3 pt_inv_cong [OF t4] by (simp add: demo_ram_def)
  show "tables demo_ram demo_pt = {demo_pt, 0x80101000, 0x80102000}"
    unfolding demo_ram_def using tables_cong [OF t4] tables_cong [OF t3] demo_ram2(2) by metis
  show "v < MAXVA \<Longrightarrow> pte_of demo_ram demo_pt v =
    (if pre v 3 = pre 0x1000 3 then PA2PTE 0x80104000 OR PTE_W OR PTE_U OR PTE_V
     else if pre v 3 = pre 0 3 then PA2PTE 0x80108000 OR PTE_W OR PTE_U OR PTE_V else 0)"
    using leaf_write_pte_of [OF i3 zero_lt_MAXVA(2) t] demo_ram2(4)
      leaf_write_pte_of [OF demo_ram2(1) zero_lt_MAXVA(1) demo_ram2(3)] by (simp add: demo_ram_def)
qed

lemma demo_frame: "user_frame demo_ram demo_pt v =
  (if PGROUNDDOWN v = 0x1000 then 0x80104000 else if PGROUNDDOWN v = 0 then 0x80108000 else 0)"
proof -
  have "PGROUNDDOWN v = 0 \<or> PGROUNDDOWN v = 0x1000 \<Longrightarrow> v < MAXVA"
    using MAXVA_page [of v] by (auto simp: MAXVA_def)
  moreover have "pre v 3 = pre 0x1000 3 \<longleftrightarrow> PGROUNDDOWN v = 0x1000" "pre v 3 = pre 0 3 \<longleftrightarrow> PGROUNDDOWN v = 0"
    by (simp_all add: pre_3 PGROUNDDOWN_def PGSIZE_def)
  ultimately show ?thesis
    using demo_ram(3) [of v] by (auto simp: user_frame_def PTE_bits PA2PTE_def PTE2PA_def)
qed

lemma demo_sep: "user_sep demo_ram demo_pt"
  unfolding user_sep_def demo_ram(2) by (auto simp: demo_frame)

theorem copyout_copyin_witness:
  "\<exists>k'. copyout demo_pt 0xffe [1, 2, 3, 4] \<lparr>ram = demo_ram, freelist = 0\<rparr> = Ok (k', 0) \<and>
    copyin demo_pt 0xffe 4 k' = Ok ([1, 2, 3, 4], 0)"
proof -
  have "PGROUNDDOWN 0xffe = 0" "PGROUNDDOWN 0xfff = 0" "PGROUNDDOWN 0x1000 = 0x1000" "PGROUNDDOWN 0x1001 = 0x1000"
    by (simp_all add: PGROUNDDOWN_def PGSIZE_def)
  moreover have "i = 0 \<or> i = 1 \<or> i = 2 \<or> i = 3" if "i < 4" for i :: nat using that by arith
  ultimately have "\<forall>i < 4. user_frame demo_ram demo_pt (0xffe + of_nat i) \<noteq> 0"
    by (fastforce simp: demo_frame)
  then show ?thesis
    using copyout_copyin [of demo_pt "\<lparr>ram = demo_ram, freelist = 0\<rparr>" demo_pt "0xffe" "[1, 2, 3, 4]"]
      demo_ram(1) demo_sep by (auto simp: eval_nat_numeral)
qed

definition demo_user :: kmem where
  "demo_user = \<lparr>ram = demo_ram, freelist = 0\<rparr>"

lemma demo_copyin: "\<exists>b. copyin demo_pt 0 1 demo_user = Ok ([b], 0)"
proof -
  have "walkaddr demo_pt 0 demo_user = Ok 0x80108000"
    using walkaddr_frame [of demo_pt demo_user demo_pt 0] demo_ram(1)
    by (simp add: demo_user_def demo_frame PGROUNDDOWN_def)
  then show ?thesis
    by (subst copyin.simps) (simp add: PGROUNDDOWN_def page_chunk_eq copyin.simps [of _ _ 0] mread_Suc)
qed

end
