(* ===== verification/Spinlock.thy ===== *)
theory Spinlock
  imports Xv6_Prelude
begin

text \<open>
  Spin locks and interrupt nesting, \<^verbatim>\<open>kernel/spinlock.c\<close>. A CPU is its \<^verbatim>\<open>struct cpu\<close> fields
  \<^verbatim>\<open>noff\<close> and \<^verbatim>\<open>intena\<close> with its interrupt-enable bit (\<^verbatim>\<open>intr_get\<close>, \<^verbatim>\<open>intr_off\<close>, \<^verbatim>\<open>intr_on\<close>);
  \<^verbatim>\<open>mycpu()\<close> is the index of the CPU that runs the code. The step relation at the end
  interleaves the atomic accesses of \<^verbatim>\<open>acquire\<close> and \<^verbatim>\<open>release\<close> on any number of CPUs. Two
  things are coarser than the source: the depth \<^verbatim>\<open>noff\<close> does not wrap around at the width of an \<^verbatim>\<open>int\<close>, and
  the store that frees the lock and the \<^verbatim>\<open>pop_off\<close> after it, which is private to the CPU, are
  one step.
\<close>

section \<open>Interrupt nesting\<close>

record cpu =
  intr :: bool
  noff :: int
  intena :: bool

definition push_off :: "cpu \<Rightarrow> cpu" where
  "push_off c =
     (let old = intr c;
          c = c\<lparr>intr := False\<rparr>;
          c = (if noff c = 0 then c\<lparr>intena := old\<rparr> else c)
      in c\<lparr>noff := noff c + 1\<rparr>)"

definition pop_off :: "cpu \<Rightarrow> cpu kres" where
  "pop_off c =
     (if intr c then Panic ''pop_off - interruptible''
      else if noff c < 1 then Panic ''pop_off''
      else let c = c\<lparr>noff := noff c - 1\<rparr>
           in Ok (if noff c = 0 \<and> intena c then c\<lparr>intr := True\<rparr> else c))"

section \<open>The lock\<close>

record spinlock =
  locked :: bool
  lk_cpu :: "nat option"

definition initlock :: spinlock where
  "initlock = \<lparr>locked = False, lk_cpu = None\<rparr>"

definition holding :: "nat \<Rightarrow> spinlock \<Rightarrow> bool" where
  "holding mycpu lk \<longleftrightarrow> locked lk \<and> lk_cpu lk = Some mycpu"

text \<open>
  \<^verbatim>\<open>acquire\<close> up to its loop, one atomic swap of the loop, and the store after it;
  \<^verbatim>\<open>release\<close> up to the store to \<^verbatim>\<open>lk->cpu\<close>, and the atomic release with \<^verbatim>\<open>pop_off\<close>.
\<close>

definition acquire_enter :: "nat \<Rightarrow> spinlock \<Rightarrow> cpu \<Rightarrow> cpu kres" where
  "acquire_enter mycpu lk c =
     (let c = push_off c in if holding mycpu lk then Panic ''acquire'' else Ok c)"

definition test_and_set :: "spinlock \<Rightarrow> spinlock \<times> bool" where
  "test_and_set lk = (lk\<lparr>locked := True\<rparr>, locked lk)"

definition acquire_done :: "nat \<Rightarrow> spinlock \<Rightarrow> spinlock" where
  "acquire_done mycpu lk = lk\<lparr>lk_cpu := Some mycpu\<rparr>"

definition release_enter :: "nat \<Rightarrow> spinlock \<Rightarrow> spinlock kres" where
  "release_enter mycpu lk = (if \<not> holding mycpu lk then Panic ''release'' else Ok (lk\<lparr>lk_cpu := None\<rparr>))"

definition release_done :: "spinlock \<Rightarrow> cpu \<Rightarrow> (spinlock \<times> cpu) kres" where
  "release_done lk c = kbind (pop_off c) (\<lambda>c. Ok (lk\<lparr>locked := False\<rparr>, c))"

text \<open>The routines run by one CPU with no other CPU interfering.\<close>

definition acquire :: "nat \<Rightarrow> spinlock \<Rightarrow> cpu \<Rightarrow> (spinlock \<times> cpu) kres" where
  "acquire mycpu lk c =
     kbind (acquire_enter mycpu lk c) (\<lambda>c.
       case test_and_set lk of (lk, old) \<Rightarrow>
         if old then Hang else Ok (acquire_done mycpu lk, c))"

definition release :: "nat \<Rightarrow> spinlock \<Rightarrow> cpu \<Rightarrow> (spinlock \<times> cpu) kres" where
  "release mycpu lk c = kbind (release_enter mycpu lk) (\<lambda>lk. release_done lk c)"

lemmas lock_defs = acquire_enter_def test_and_set_def acquire_done_def release_enter_def
  release_done_def holding_def

section \<open>Interleaved CPUs\<close>

datatype lock_pc = Idle | Spinning | Swapped | Critical | Cleared

record lock_state =
  lck :: spinlock
  cpus :: "nat \<Rightarrow> cpu"
  pc :: "nat \<Rightarrow> lock_pc"

abbreviation set_cpu :: "nat \<Rightarrow> cpu \<Rightarrow> lock_pc \<Rightarrow> lock_state \<Rightarrow> lock_state" where
  "set_cpu i c p s \<equiv> s\<lparr>cpus := (cpus s)(i := c), pc := (pc s)(i := p)\<rparr>"

text \<open>
  One atomic access by CPU \<open>i\<close>; \<open>None\<close> is a panic. A CPU that is idle may also nest other
  \<^verbatim>\<open>push_off\<close> and \<^verbatim>\<open>pop_off\<close> calls, and one in the critical section may do so too.
\<close>

inductive spin_step :: "lock_state \<Rightarrow> lock_state option \<Rightarrow> bool" where
  enter: "pc s i = Idle \<Longrightarrow> acquire_enter i (lck s) (cpus s i) = Ok c \<Longrightarrow>
    spin_step s (Some (set_cpu i c Spinning s))"
| enter_panic: "pc s i = Idle \<Longrightarrow> acquire_enter i (lck s) (cpus s i) = Panic e \<Longrightarrow> spin_step s None"
| spin: "pc s i = Spinning \<Longrightarrow> test_and_set (lck s) = (lk, True) \<Longrightarrow>
    spin_step s (Some (s\<lparr>lck := lk\<rparr>))"
| swap: "pc s i = Spinning \<Longrightarrow> test_and_set (lck s) = (lk, False) \<Longrightarrow>
    spin_step s (Some (s\<lparr>lck := lk, pc := (pc s)(i := Swapped)\<rparr>))"
| own: "pc s i = Swapped \<Longrightarrow>
    spin_step s (Some (s\<lparr>lck := acquire_done i (lck s), pc := (pc s)(i := Critical)\<rparr>))"
| leave: "pc s i = Critical \<Longrightarrow> release_enter i (lck s) = Ok lk \<Longrightarrow>
    spin_step s (Some (s\<lparr>lck := lk, pc := (pc s)(i := Cleared)\<rparr>))"
| leave_panic: "pc s i = Critical \<Longrightarrow> release_enter i (lck s) = Panic e \<Longrightarrow> spin_step s None"
| unlock: "pc s i = Cleared \<Longrightarrow> release_done (lck s) (cpus s i) = Ok (lk, c) \<Longrightarrow>
    spin_step s (Some (set_cpu i c Idle s\<lparr>lck := lk\<rparr>))"
| unlock_panic: "pc s i = Cleared \<Longrightarrow> release_done (lck s) (cpus s i) = Panic e \<Longrightarrow> spin_step s None"
| nest: "pc s i \<in> {Idle, Critical} \<Longrightarrow>
    spin_step s (Some (s\<lparr>cpus := (cpus s)(i := push_off (cpus s i))\<rparr>))"
| unnest: "pc s i \<in> {Idle, Critical} \<Longrightarrow> noff (cpus s i) > (if pc s i = Critical then 1 else 0) \<Longrightarrow>
    pop_off (cpus s i) = Ok c \<Longrightarrow> spin_step s (Some (s\<lparr>cpus := (cpus s)(i := c)\<rparr>))"

inductive spin_reach :: "lock_state \<Rightarrow> lock_state option \<Rightarrow> bool" for s0 where
  start: "spin_reach s0 (Some s0)"
| step: "spin_reach s0 (Some s) \<Longrightarrow> spin_step s r \<Longrightarrow> spin_reach s0 r"

text \<open>The state after \<^verbatim>\<open>initlock\<close>: nobody holds the lock, interrupts are off where nesting is open.\<close>

definition cpu_ok :: "cpu \<Rightarrow> bool" where
  "cpu_ok c \<longleftrightarrow> noff c \<ge> 0 \<and> (noff c > 0 \<longrightarrow> \<not> intr c)"

definition lock_init :: "lock_state \<Rightarrow> bool" where
  "lock_init s \<longleftrightarrow> lck s = initlock \<and> (\<forall>i. pc s i = Idle) \<and> (\<forall>i. cpu_ok (cpus s i))"

definition owns :: "lock_pc \<Rightarrow> bool" where
  "owns p \<longleftrightarrow> p \<in> {Swapped, Critical, Cleared}"

lemma owns_simps [simp]: "\<not> owns Idle" "\<not> owns Spinning" "owns Swapped" "owns Critical" "owns Cleared"
  by (simp_all add: owns_def)

definition lock_owner :: "lock_state \<Rightarrow> nat option \<Rightarrow> bool" where
  "lock_owner s w \<longleftrightarrow>
     (\<forall>i. owns (pc s i) \<longleftrightarrow> w = Some i) \<and> (locked (lck s) \<longleftrightarrow> w \<noteq> None) \<and>
     (\<forall>i. lk_cpu (lck s) = Some i \<longleftrightarrow> pc s i = Critical)"

definition cpus_ok :: "lock_state \<Rightarrow> bool" where
  "cpus_ok s \<longleftrightarrow> (\<forall>i. cpu_ok (cpus s i) \<and> (pc s i \<noteq> Idle \<longrightarrow> noff (cpus s i) > 0))"

definition lock_inv :: "lock_state \<Rightarrow> bool" where
  "lock_inv s \<longleftrightarrow> cpus_ok s \<and> (\<exists>w. lock_owner s w)"

lemma cpu_ok_push_off: "cpu_ok c \<Longrightarrow> cpu_ok (push_off c) \<and> noff (push_off c) = noff c + 1"
  by (auto simp: push_off_def cpu_ok_def Let_def)

lemma cpu_ok_pop_off: "cpu_ok c \<Longrightarrow> pop_off c = Ok c' \<Longrightarrow> cpu_ok c' \<and> noff c' = noff c - 1"
  by (auto simp: pop_off_def cpu_ok_def Let_def split: if_splits)

lemma pop_off_ok: "cpu_ok c \<Longrightarrow> noff c > 0 \<Longrightarrow> \<exists>c'. pop_off c = Ok c'"
  by (auto simp: pop_off_def cpu_ok_def Let_def)

lemma lock_owner_step:
  "spin_step s r \<Longrightarrow> cpus_ok s \<Longrightarrow> lock_owner s w \<Longrightarrow> \<exists>s'. r = Some s' \<and> cpus_ok s' \<and> (\<exists>w. lock_owner s' w)"
proof (induction rule: spin_step.induct)
  case (enter s i c)
  then have "c = push_off (cpus s i)" by (auto simp: acquire_enter_def Let_def split: if_splits)
  then have "cpu_ok c" "noff c > 0"
    using enter(3) cpu_ok_push_off [of "cpus s i"] by (auto simp: cpus_ok_def cpu_ok_def)
  then have "cpus_ok (set_cpu i c Spinning s)" using enter(3) by (auto simp: cpus_ok_def)
  moreover have "lock_owner (set_cpu i c Spinning s) w"
    using enter(1,4) by (auto simp: lock_owner_def) (metis owns_simps(1))+
  ultimately show ?case by blast
next
  case (enter_panic s i e)
  then have "lk_cpu (lck s) \<noteq> Some i" by (simp add: lock_owner_def)
  then show ?case using enter_panic(2) by (simp add: acquire_enter_def holding_def Let_def)
next
  case (spin s i lk)
  then have "lk = lck s" by (cases "lck s") (auto simp: test_and_set_def)
  then show ?case using spin by auto
next
  case (swap s i lk)
  then have "lk = (lck s)\<lparr>locked := True\<rparr>" "w = None" by (auto simp: test_and_set_def lock_owner_def)
  moreover from this have "lock_owner (s\<lparr>lck := lk, pc := (pc s)(i := Swapped)\<rparr>) (Some i)"
    using swap(1,4) by (auto simp: lock_owner_def)
  ultimately show ?case using swap(1,3) by (auto simp: cpus_ok_def)
next
  case (own s i)
  then have "w = Some i" by (metis lock_owner_def owns_simps(3))
  then have "lock_owner (s\<lparr>lck := acquire_done i (lck s), pc := (pc s)(i := Critical)\<rparr>) (Some i)"
    using own by (auto simp: lock_owner_def acquire_done_def)
  then show ?case using own(1,2) by (auto simp: cpus_ok_def)
next
  case (leave s i lk)
  then have lk: "lk = (lck s)\<lparr>lk_cpu := None\<rparr>" by (auto simp: release_enter_def split: if_splits)
  have "w = Some i" using leave(1,4) by (metis lock_owner_def owns_simps(4))
  then have "lock_owner (s\<lparr>lck := lk, pc := (pc s)(i := Cleared)\<rparr>) (Some i)"
    using leave(1,4) lk by (auto simp: lock_owner_def)
  then show ?case using leave(1,3) by (auto simp: cpus_ok_def)
next
  case (leave_panic s i e)
  then have "w = Some i" by (metis lock_owner_def owns_simps(4))
  then have "holding i (lck s)" using leave_panic(1,4) by (simp add: lock_owner_def holding_def)
  then show ?case using leave_panic(2) by (simp add: release_enter_def)
next
  case (unlock s i lk c)
  then have lk: "lk = (lck s)\<lparr>locked := False\<rparr>" and c: "pop_off (cpus s i) = Ok c"
    by (auto simp: release_done_def kres_simps)
  have "w = Some i" using unlock(1,4) by (metis lock_owner_def owns_simps(5))
  then have "lock_owner (set_cpu i c Idle s\<lparr>lck := lk\<rparr>) None"
    using unlock(1,4) lk by (auto simp: lock_owner_def)
  moreover have "cpus_ok (set_cpu i c Idle s\<lparr>lck := lk\<rparr>)"
    using unlock(3) cpu_ok_pop_off [OF _ c] by (auto simp: cpus_ok_def)
  ultimately show ?case by blast
next
  case (unlock_panic s i e)
  then obtain c where "pop_off (cpus s i) = Ok c" using pop_off_ok [of "cpus s i"] by (auto simp: cpus_ok_def)
  then show ?case using unlock_panic by (simp add: release_done_def)
next
  case (nest s i)
  then show ?case using cpu_ok_push_off [of "cpus s i"] by (auto simp: cpus_ok_def lock_owner_def)
next
  case (unnest s i c)
  then show ?case using cpu_ok_pop_off [of "cpus s i" c] by (auto simp: cpus_ok_def lock_owner_def split: if_splits)
qed

lemma spin_reach_inv: "spin_reach s0 r \<Longrightarrow> lock_init s0 \<Longrightarrow> \<exists>s. r = Some s \<and> lock_inv s"
proof (induction rule: spin_reach.induct)
  case start
  then show ?case by (auto simp: lock_init_def lock_inv_def initlock_def lock_owner_def cpus_ok_def)
next
  case (step s r)
  then show ?case using lock_owner_step unfolding lock_inv_def by blast
qed

text \<open>
  C5. Whatever the interleaving of any number of CPUs that acquire and release a lock and
  nest \<^verbatim>\<open>push_off\<close> and \<^verbatim>\<open>pop_off\<close>: no call panics, at most one CPU is between its successful
  swap and its release, that CPU is the one \<^verbatim>\<open>holding\<close> reports while it is in the critical
  section, and interrupts are off on every CPU from \<^verbatim>\<open>acquire\<close> to the end of \<^verbatim>\<open>release\<close>.
\<close>

theorem spinlock_mutual_exclusion:
  assumes "lock_init s0" "spin_reach s0 r"
  shows "\<exists>s. r = Some s \<and>
    (\<forall>i j. owns (pc s i) \<longrightarrow> owns (pc s j) \<longrightarrow> i = j) \<and>
    (\<forall>i. holding i (lck s) \<longleftrightarrow> pc s i = Critical) \<and>
    (\<forall>i. pc s i \<noteq> Idle \<longrightarrow> \<not> intr (cpus s i))"
proof -
  obtain s where s: "r = Some s" "lock_inv s" using spin_reach_inv [OF assms(2,1)] by blast
  have "holding i (lck s) \<longleftrightarrow> pc s i = Critical" for i
    using s(2) unfolding lock_inv_def lock_owner_def holding_def by (metis owns_simps(4) option.distinct(1))
  moreover have "pc s i \<noteq> Idle \<Longrightarrow> \<not> intr (cpus s i)" for i
    using s(2) by (simp add: lock_inv_def cpus_ok_def cpu_ok_def)
  moreover have "owns (pc s i) \<Longrightarrow> owns (pc s j) \<Longrightarrow> i = j" for i j
    using s(2) by (auto simp: lock_inv_def lock_owner_def)
  ultimately show ?thesis using s(1) by blast
qed

definition demo_lock :: lock_state where
  "demo_lock = \<lparr>lck = initlock, cpus = (\<lambda>_. \<lparr>intr = True, noff = 0, intena = False\<rparr>), pc = (\<lambda>_. Idle)\<rparr>"

theorem spinlock_mutual_exclusion_witness:
  "\<exists>s. spin_reach demo_lock (Some s) \<and> pc s 0 = Swapped \<and> pc s 1 = Spinning \<and>
    (\<forall>j. owns (pc s j) \<longrightarrow> j = 0) \<and> \<not> intr (cpus s 1)"
proof -
  define s1 where "s1 = set_cpu 0 (push_off (cpus demo_lock 0)) Spinning demo_lock"
  define s2 where "s2 = set_cpu 1 (push_off (cpus s1 1)) Spinning s1"
  define s3 where "s3 = s2\<lparr>lck := \<lparr>locked = True, lk_cpu = None\<rparr>, pc := (pc s2)(0 := Swapped)\<rparr>"
  note defs = s1_def s2_def s3_def demo_lock_def initlock_def lock_defs
  have "acquire_enter 0 (lck demo_lock) (cpus demo_lock 0) = Ok (push_off (cpus demo_lock 0))"
    by (simp add: demo_lock_def initlock_def lock_defs)
  then have st1: "spin_step demo_lock (Some s1)"
    unfolding s1_def by (intro spin_step.enter) (simp add: demo_lock_def)
  have lck1: "lck s1 = initlock" "pc s1 = (\<lambda>_. Idle)(0 := Spinning)" by (simp_all add: s1_def demo_lock_def)
  then have "acquire_enter 1 (lck s1) (cpus s1 1) = Ok (push_off (cpus s1 1))"
    by (simp add: initlock_def lock_defs)
  then have st2: "spin_step s1 (Some s2)"
    unfolding s2_def by (intro spin_step.enter) (simp add: lck1)
  have lck2: "lck s2 = initlock" "pc s2 = (\<lambda>_. Idle)(0 := Spinning, 1 := Spinning)"
    by (simp_all add: s2_def lck1)
  then have st3: "spin_step s2 (Some s3)"
    unfolding s3_def by (intro spin_step.swap) (simp_all add: test_and_set_def initlock_def)
  have r: "spin_reach demo_lock (Some s3)"
    using spin_reach.step [OF spin_reach.step [OF spin_reach.step [OF spin_reach.start st1] st2] st3] .
  have i: "lock_init demo_lock" by (simp add: lock_init_def demo_lock_def cpu_ok_def)
  have p: "pc s3 0 = Swapped" "pc s3 1 = Spinning" by (simp_all add: s3_def lck2)
  have m: "\<forall>i j. owns (pc s3 i) \<longrightarrow> owns (pc s3 j) \<longrightarrow> i = j" "\<forall>i. pc s3 i \<noteq> Idle \<longrightarrow> \<not> intr (cpus s3 i)"
    using spinlock_mutual_exclusion [OF i r] by auto
  have "owns (pc s3 0)" by (simp add: p owns_def)
  then have "\<forall>j. owns (pc s3 j) \<longrightarrow> j = 0" using m(1) by blast
  moreover have "\<not> intr (cpus s3 1)" using m(2) p(2) by simp
  ultimately show ?thesis using r p by blast
qed

primrec pop_offs :: "nat \<Rightarrow> cpu \<Rightarrow> cpu kres" where
  "pop_offs 0 c = Ok c"
| "pop_offs (Suc n) c = kbind (pop_off c) (pop_offs n)"

lemma pop_off_push_off:
  "cpu_ok c \<Longrightarrow> \<exists>c'. pop_off (push_off c) = Ok c' \<and> intr c' = intr c \<and> noff c' = noff c \<and>
    (noff c > 0 \<longrightarrow> c' = c)"
  by (cases c) (auto simp: pop_off_def push_off_def cpu_ok_def Let_def)

lemma push_offs_intr: "cpu_ok c \<Longrightarrow> \<not> intr ((push_off ^^ Suc n) c) \<and> cpu_ok ((push_off ^^ n) c) \<and> noff ((push_off ^^ n) c) = noff c + int n"
  by (induction n) (auto simp: push_off_def cpu_ok_def Let_def)



end
