(* ===== verification/Ring.thy ===== *)
theory Ring
  imports Xv6_Prelude
begin

text \<open>
  The contract of a bounded byte queue, shared by the pipe, the transmit buffer of the UART
  and the input buffer of the console, and what follows from it for any interleaving of
  producers and consumers.
\<close>

datatype 'a ring_op = Put 'a | Get

locale ring =
  fixes inv :: "'s \<Rightarrow> bool"
    and queue :: "'s \<Rightarrow> 'a list"
    and cap :: nat
    and full :: "'s \<Rightarrow> bool"
    and empty :: "'s \<Rightarrow> bool"
    and put :: "'a \<Rightarrow> 's \<Rightarrow> 's"
    and get :: "'s \<Rightarrow> 'a \<times> 's"
  assumes full_iff: "inv s \<Longrightarrow> full s \<longleftrightarrow> length (queue s) = cap"
    and bounded: "inv s \<Longrightarrow> length (queue s) \<le> cap"
    and empty_iff: "inv s \<Longrightarrow> empty s \<longleftrightarrow> queue s = []"
    and put_inv: "inv s \<Longrightarrow> \<not> full s \<Longrightarrow> inv (put x s)"
    and put_queue: "inv s \<Longrightarrow> \<not> full s \<Longrightarrow> queue (put x s) = queue s @ [x]"
    and get_inv: "inv s \<Longrightarrow> \<not> empty s \<Longrightarrow> inv (snd (get s))"
    and get_queue: "inv s \<Longrightarrow> \<not> empty s \<Longrightarrow> queue s = fst (get s) # queue (snd (get s))"
begin

text \<open>A put on a full ring and a get on an empty one do nothing; the others are recorded.\<close>

fun run :: "'a ring_op list \<Rightarrow> 's \<Rightarrow> 's \<times> 'a list \<times> 'a list" where
  "run [] s = (s, [], [])"
| "run (Put x # ops) s =
     (if full s then run ops s
      else case run ops (put x s) of (s', ins, outs) \<Rightarrow> (s', x # ins, outs))"
| "run (Get # ops) s =
     (if empty s then run ops s
      else case run ops (snd (get s)) of (s', ins, outs) \<Rightarrow> (s', ins, fst (get s) # outs))"

lemma run_fifo:
  "inv s \<Longrightarrow> run ops s = (s', ins, outs) \<Longrightarrow> inv s' \<and> queue s @ ins = outs @ queue s'"
proof (induction ops s arbitrary: s' ins outs rule: run.induct)
  case (2 x ops s)
  show ?case
  proof (cases "full s")
    case False
    obtain s1 ins1 outs1 where r: "run ops (put x s) = (s1, ins1, outs1)" by (metis prod_cases3)
    then have "inv s1 \<and> queue (put x s) @ ins1 = outs1 @ queue s1"
      using 2(2) [OF False put_inv [OF 2(3) False]] by simp
    then show ?thesis using 2(3,4) False r put_queue [OF 2(3) False] by simp
  qed (use 2 in auto)
next
  case (3 ops s)
  show ?case
  proof (cases "empty s")
    case False
    obtain s1 ins1 outs1 where r: "run ops (snd (get s)) = (s1, ins1, outs1)" by (metis prod_cases3)
    then have "inv s1 \<and> queue (snd (get s)) @ ins1 = outs1 @ queue s1"
      using 3(2) [OF False get_inv [OF 3(3) False]] by simp
    then show ?thesis using 3(3,4) False r get_queue [OF 3(3) False] by simp
  qed (use 3 in auto)
qed simp

lemma run_outs_prefix:
  assumes "inv s" "queue s = []" "run ops s = (s', ins, outs)"
  shows "\<exists>rest. ins = outs @ rest \<and> length rest \<le> cap"
  using run_fifo [OF assms(1,3)] assms(2) bounded [of s'] by auto

end

text \<open>
  A byte array used modulo its length \<open>n\<close> and read between two positions: the bytes stored
  from position \<open>r\<close> on.
\<close>

definition ring_slice :: "'a list \<Rightarrow> nat \<Rightarrow> nat \<Rightarrow> 'a list" where
  "ring_slice buf r k = map (\<lambda>j. buf ! ((r + j) mod length buf)) [0..<k]"

lemma length_ring_slice [simp]: "length (ring_slice buf r k) = k"
  by (simp add: ring_slice_def)

lemma ring_slice_0 [simp]: "ring_slice buf r 0 = []"
  by (simp add: ring_slice_def)

lemma ring_slice_Nil_iff [simp]: "ring_slice buf r k = [] \<longleftrightarrow> k = 0"
  by (simp add: ring_slice_def)

lemma ring_slice_Suc: "ring_slice buf r (Suc k) = ring_slice buf r k @ [buf ! ((r + k) mod length buf)]"
  by (simp add: ring_slice_def)

lemma ring_slice_Cons: "0 < k \<Longrightarrow> ring_slice buf r k = buf ! (r mod length buf) # ring_slice buf (Suc r) (k - 1)"
  by (rule nth_equalityI) (auto simp: ring_slice_def nth_Cons split: nat.splits)

lemma ring_slice_mod: "r mod length buf = r' mod length buf \<Longrightarrow> ring_slice buf r k = ring_slice buf r' k"
proof -
  assume a: "r mod length buf = r' mod length buf"
  have "(r + j) mod length buf = (r' + j) mod length buf" for j by (rule mod_add_cong [OF a refl])
  then show ?thesis by (simp add: ring_slice_def)
qed

lemma ring_slice_update:
  assumes "k < length buf"
  shows "ring_slice (buf[(r + k) mod length buf := x]) r k = ring_slice buf r k"
proof -
  have "(r + j) mod length buf \<noteq> (r + k) mod length buf" if "j < k" for j
    using that assms mod_eq_dvd_iff_nat [of "r + j" "r + k" "length buf"] by (auto dest: dvd_imp_le)
  then have "buf[(r + k) mod length buf := x] ! ((r + j) mod length buf) = buf ! ((r + j) mod length buf)"
    if "j < k" for j using that by (metis nth_list_update_neq)
  then show ?thesis by (simp add: ring_slice_def)
qed

lemma ring_slice_put:
  assumes "k < length buf" "i = (r + k) mod length buf"
  shows "ring_slice (buf[i := x]) r (Suc k) = ring_slice buf r k @ [x]"
proof -
  have "i < length buf" unfolding assms(2) using assms(1) by (intro mod_less_divisor) auto
  then show ?thesis using assms by (simp add: ring_slice_Suc ring_slice_update)
qed

end
