(* ===== verification/Pipe.thy ===== *)
theory Pipe
  imports Ring Vm_Copy
begin

text \<open>
  Pipes, \<^verbatim>\<open>kernel/pipe.c\<close>. \<^verbatim>\<open>nread\<close> and \<^verbatim>\<open>nwrite\<close> are 32-bit counters that wrap around. A call of
  \<^verbatim>\<open>pipewrite\<close> or \<^verbatim>\<open>piperead\<close> runs with \<^verbatim>\<open>pi->lock\<close> held until it returns or sleeps, which
  releases the lock; it is modelled as the part up to there, which either finishes with a
  value or stops at the loop index where the caller resumes it after a wakeup. The last
  component of a result lists the channels woken. \<open>pr_killed\<close> is \<^verbatim>\<open>pr->killed\<close> when that part runs.
\<close>

section \<open>Operations\<close>

abbreviation PIPESIZE :: nat where "PIPESIZE \<equiv> 512"

record pipe =
  pdata :: "u8 list"
  nread :: u32
  nwrite :: u32
  readopen :: bool
  writeopen :: bool

datatype progress = Done int | Blocked int chan

definition pipe_put :: "u8 \<Rightarrow> pipe \<Rightarrow> pipe" where
  "pipe_put ch pi =
     pi\<lparr>pdata := (pdata pi)[unat (nwrite pi) mod PIPESIZE := ch], nwrite := nwrite pi + 1\<rparr>"

definition pipe_get :: "pipe \<Rightarrow> u8 \<times> pipe" where
  "pipe_get pi = (pdata pi ! (unat (nread pi) mod PIPESIZE), pi\<lparr>nread := nread pi + 1\<rparr>)"

definition pipe_full :: "pipe \<Rightarrow> bool" where
  "pipe_full pi \<longleftrightarrow> nwrite pi = nread pi + 512"

definition pipe_empty :: "pipe \<Rightarrow> bool" where
  "pipe_empty pi \<longleftrightarrow> nread pi = nwrite pi"

function pipewrite_from :: "u64 \<Rightarrow> u64 \<Rightarrow> u64 \<Rightarrow> int \<Rightarrow> bool \<Rightarrow> kmem \<Rightarrow> int \<Rightarrow> pipe \<Rightarrow> (pipe \<times> progress \<times> chan list) kres" where
  "pipewrite_from pa pagetable addr n pr_killed k i pi =
     (if i < n
      then if pipe_full pi
        then if \<not> readopen pi \<or> pr_killed then Ok (pi, Done (- 1), [])
             else Ok (pi, Blocked i (PipeWrite pa), [PipeRead pa])
        else kbind (copyin pagetable (addr + of_int i) 1 k) (\<lambda>(ch, r).
          if r = - 1 then Ok (pi, Done i, [PipeRead pa])
          else pipewrite_from pa pagetable addr n pr_killed k (i + 1) (pipe_put (hd ch) pi))
      else Ok (pi, Done i, [PipeRead pa]))"
  by pat_completeness auto
termination
  by (relation "measure (\<lambda>(pa, pt, addr, n, killed, k, i, pi). nat (n - i))") auto

definition pipewrite :: "u64 \<Rightarrow> u64 \<Rightarrow> u64 \<Rightarrow> int \<Rightarrow> bool \<Rightarrow> kmem \<Rightarrow> pipe \<Rightarrow> (pipe \<times> progress \<times> chan list) kres" where
  "pipewrite pa pagetable addr n pr_killed k pi = pipewrite_from pa pagetable addr n pr_killed k 0 pi"

function piperead_from :: "u64 \<Rightarrow> u64 \<Rightarrow> u64 \<Rightarrow> int \<Rightarrow> int \<Rightarrow> kmem \<Rightarrow> pipe \<Rightarrow> (kmem \<times> pipe \<times> progress \<times> chan list) kres" where
  "piperead_from pa pagetable addr n i k pi =
     (if i < n \<and> \<not> pipe_empty pi
      then case pipe_get pi of (ch, pi) \<Rightarrow>
        kbind (copyout pagetable (addr + of_int i) [ch] k) (\<lambda>(k, r).
          if r = - 1 then Ok (k, pi, Done i, [PipeWrite pa])
          else piperead_from pa pagetable addr n (i + 1) k pi)
      else Ok (k, pi, Done i, [PipeWrite pa]))"
  by pat_completeness auto
termination
  by (relation "measure (\<lambda>(pa, pt, addr, n, i, k, pi). nat (n - i))") auto

definition piperead :: "u64 \<Rightarrow> u64 \<Rightarrow> u64 \<Rightarrow> int \<Rightarrow> bool \<Rightarrow> kmem \<Rightarrow> pipe \<Rightarrow> (kmem \<times> pipe \<times> progress \<times> chan list) kres" where
  "piperead pa pagetable addr n pr_killed k pi =
     (if pipe_empty pi \<and> writeopen pi
      then if pr_killed then Ok (k, pi, Done (- 1), [])
           else Ok (k, pi, Blocked 0 (PipeRead pa), [])
      else piperead_from pa pagetable addr n 0 k pi)"

text \<open>\<open>pipeclose\<close>: \<open>kend\<close> is the linker symbol \<^verbatim>\<open>end\<close>; the pipe is gone once both ends are closed.\<close>

definition pipeclose :: "u64 \<Rightarrow> u64 \<Rightarrow> bool \<Rightarrow> kmem \<Rightarrow> pipe \<Rightarrow> (kmem \<times> pipe option \<times> chan list) kres" where
  "pipeclose kend pa writable k pi =
     (let (pi, woken) = (if writable then (pi\<lparr>writeopen := False\<rparr>, [PipeRead pa])
                         else (pi\<lparr>readopen := False\<rparr>, [PipeWrite pa])) in
      if \<not> readopen pi \<and> \<not> writeopen pi
      then kbind (kfree kend pa k) (\<lambda>k. Ok (k, None, woken))
      else Ok (k, Some pi, woken))"

declare pipewrite_from.simps [simp del] piperead_from.simps [simp del]

section \<open>The pipe is a bounded queue\<close>

definition pipe_inv :: "pipe \<Rightarrow> bool" where
  "pipe_inv pi \<longleftrightarrow> length (pdata pi) = PIPESIZE \<and> unat (nwrite pi - nread pi) \<le> PIPESIZE"

definition pipe_queue :: "pipe \<Rightarrow> u8 list" where
  "pipe_queue pi = ring_slice (pdata pi) (unat (nread pi)) (unat (nwrite pi - nread pi))"

lemma u32_mod_512: "unat (a + b :: u32) mod 512 = (unat a + unat b) mod 512"
  by (simp add: unat_word_ariths mod_mod_cancel)

lemma u32_Suc: "unat (d :: u32) < 512 \<Longrightarrow> unat (d + 1) = Suc (unat d)"
  by (simp add: unat_word_ariths)

lemma u32_pred: "d \<noteq> 0 \<Longrightarrow> unat (d - 1 :: u32) = unat d - 1"
  by (metis unat_minus_one)

interpretation pq: ring pipe_inv pipe_queue PIPESIZE pipe_full pipe_empty pipe_put pipe_get
proof unfold_locales
  fix s :: pipe and x
  assume inv: "pipe_inv s"
  let ?d = "nwrite s - nread s"
  have len: "length (pdata s) = 512" and d: "unat ?d \<le> 512" using inv by (auto simp: pipe_inv_def)
  show full: "pipe_full s \<longleftrightarrow> length (pipe_queue s) = 512"
  proof -
    have "pipe_full s \<longleftrightarrow> ?d = 512" by (auto simp: pipe_full_def algebra_simps)
    also have "\<dots> \<longleftrightarrow> unat ?d = 512" by (simp add: word_unat_eq_iff)
    finally show ?thesis by (simp add: pipe_queue_def)
  qed
  show "length (pipe_queue s) \<le> 512" using d by (simp add: pipe_queue_def)
  show empty: "pipe_empty s \<longleftrightarrow> pipe_queue s = []"
    by (auto simp: pipe_empty_def pipe_queue_def unat_eq_0)
  {
    assume "\<not> pipe_full s"
    then have lt: "unat ?d < 512" using full d by (simp add: pipe_queue_def)
    have eq: "nwrite (pipe_put x s) - nread (pipe_put x s) = ?d + 1" by (simp add: pipe_put_def)
    then show "pipe_inv (pipe_put x s)" using lt len u32_Suc [OF lt]
      by (simp add: pipe_inv_def) (simp add: pipe_put_def)
    have "unat (nwrite s) mod 512 = (unat (nread s) + unat ?d) mod 512"
      using u32_mod_512 [of "nread s" ?d] by simp
    then show "pipe_queue (pipe_put x s) = pipe_queue s @ [x]"
      using ring_slice_put [of "unat ?d" "pdata s" "unat (nwrite s) mod 512" "unat (nread s)" x] lt len eq u32_Suc [OF lt]
      by (simp add: pipe_queue_def) (simp add: pipe_put_def)
  next
    assume "\<not> pipe_empty s"
    then have ne: "?d \<noteq> 0" by (simp add: pipe_empty_def)
    have eq: "nwrite (snd (pipe_get s)) - nread (snd (pipe_get s)) = ?d - 1" by (simp add: pipe_get_def)
    show "pipe_inv (snd (pipe_get s))"
      using eq u32_pred [OF ne] d len by (simp add: pipe_inv_def) (simp add: pipe_get_def)
    have "unat (nread s + 1) mod length (pdata s) = Suc (unat (nread s)) mod length (pdata s)"
      using u32_mod_512 [of "nread s" 1] len by simp
    then have "ring_slice (pdata s) (unat (nread s + 1)) (unat (?d - 1)) = ring_slice (pdata s) (Suc (unat (nread s))) (unat ?d - 1)"
      using u32_pred [OF ne] ring_slice_mod by simp
    then show "pipe_queue s = fst (pipe_get s) # pipe_queue (snd (pipe_get s))"
      using ne ring_slice_Cons [of "unat ?d" "pdata s" "unat (nread s)"] len eq
      by (simp add: pipe_queue_def unat_gt_0) (simp add: pipe_get_def)
  }
qed

section \<open>What the two ends see\<close>

text \<open>The byte a user address holds, as \<^verbatim>\<open>copyin\<close> of one byte reads it.\<close>

definition ubyte :: "kmem \<Rightarrow> u64 \<Rightarrow> u64 \<Rightarrow> u8" where
  "ubyte k pagetable va = (case copyin pagetable va 1 k of Ok (ch, r) \<Rightarrow> hd ch | _ \<Rightarrow> 0)"

definition ubytes :: "kmem \<Rightarrow> u64 \<Rightarrow> u64 \<Rightarrow> int \<Rightarrow> int \<Rightarrow> u8 list" where
  "ubytes k pagetable addr i j = map (\<lambda>x. ubyte k pagetable (addr + of_int x)) [i..j - 1]"

lemma ubytes_Nil [simp]: "j \<le> i \<Longrightarrow> ubytes k pagetable addr i j = []"
  by (simp add: ubytes_def)

lemma ubytes_Cons: "i < j \<Longrightarrow>
    ubytes k pagetable addr i j = ubyte k pagetable (addr + of_int i) # ubytes k pagetable addr (i + 1) j"
  by (simp add: ubytes_def upto_rec1)

text \<open>How a part of \<^verbatim>\<open>pipewrite\<close> that stopped at index \<open>j\<close> ended.\<close>

definition write_stop :: "u64 \<Rightarrow> int \<Rightarrow> bool \<Rightarrow> int \<Rightarrow> pipe \<Rightarrow> progress \<Rightarrow> chan list \<Rightarrow> bool" where
  "write_stop pa n killed j pi p woken \<longleftrightarrow>
     (case p of
        Blocked j' c \<Rightarrow> j' = j \<and> j < n \<and> c = PipeWrite pa \<and> PipeRead pa \<in> set woken \<and>
          pipe_full pi \<and> readopen pi \<and> \<not> killed
      | Done r \<Rightarrow> r = j \<and> PipeRead pa \<in> set woken \<or>
          r = - 1 \<and> j < n \<and> pipe_full pi \<and> (\<not> readopen pi \<or> killed))"

lemma pipewrite_from_queue:
  assumes "pipe_inv pi" "pipewrite_from pa pt addr n killed k i pi = Ok (pi', p, woken)" "i \<le> n"
  shows "\<exists>j. i \<le> j \<and> j \<le> n \<and> pipe_inv pi' \<and> nread pi' = nread pi \<and> nwrite pi' = nwrite pi + of_int (j - i) \<and>
    pipe_queue pi' = pipe_queue pi @ ubytes k pt addr i j \<and> write_stop pa n killed j pi' p woken"
  using assms
proof (induction "nat (n - i)" arbitrary: i pi rule: less_induct)
  case less
  note eq = less.prems(2) [unfolded pipewrite_from.simps [of pa pt addr n killed k i pi]]
  consider "\<not> i < n" | "i < n" "pipe_full pi" | "i < n" "\<not> pipe_full pi" by blast
  then show ?case
  proof cases
    case 1
    then show ?thesis using eq less.prems(1,3) by (intro exI [of _ i]) (auto simp: write_stop_def)
  next
    case 2
    then show ?thesis using eq less.prems(1,3)
      by (intro exI [of _ i]) (auto simp: write_stop_def split: if_splits)
  next
    case 3
    then obtain ch r where c: "copyin pt (addr + of_int i) 1 k = Ok (ch, r)"
      and rest: "(if r = - 1 then Ok (pi, Done i, [PipeRead pa])
          else pipewrite_from pa pt addr n killed k (i + 1) (pipe_put (hd ch) pi)) = Ok (pi', p, woken)"
      using eq by (auto simp: kres_simps split: if_splits)
    show ?thesis
    proof (cases "r = - 1")
      case True
      then show ?thesis using rest less.prems(1,3) by (intro exI [of _ i]) (auto simp: write_stop_def)
    next
      case False
      have b: "hd ch = ubyte k pt (addr + of_int i)" using c by (simp add: ubyte_def)
      have "nat (n - (i + 1)) < nat (n - i)" "i + 1 \<le> n" using 3 by auto
      from less.hyps [OF this(1) pq.put_inv [OF less.prems(1) 3(2), of "hd ch"] _ this(2)] rest False
      obtain j where j: "i + 1 \<le> j" "j \<le> n" "pipe_inv pi'" "nread pi' = nread pi"
        "nwrite pi' = nwrite (pipe_put (hd ch) pi) + of_int (j - (i + 1))"
        "pipe_queue pi' = pipe_queue (pipe_put (hd ch) pi) @ ubytes k pt addr (i + 1) j"
        "write_stop pa n killed j pi' p woken"
        by (auto simp: pipe_put_def)
      have "pipe_queue pi' = pipe_queue pi @ ubytes k pt addr i j"
        using j(1,6) pq.put_queue [OF less.prems(1) 3(2)] b by (simp add: ubytes_Cons)
      then show ?thesis using j by (intro exI [of _ j]) (auto simp: pipe_put_def)
    qed
  qed
qed

lemma pipewrite_from_flags:
  "pipewrite_from pa pt addr n killed k i pi = Ok (pi', p, woken) \<Longrightarrow> readopen pi' = readopen pi \<and> writeopen pi' = writeopen pi"
proof (induction "nat (n - i)" arbitrary: i pi rule: less_induct)
  case less
  note eq = less.prems [unfolded pipewrite_from.simps [of pa pt addr n killed k i pi]]
  show ?case
  proof (cases "i < n \<and> \<not> pipe_full pi")
    case True
    then obtain ch r where c: "copyin pt (addr + of_int i) 1 k = Ok (ch, r)"
      and rest: "(if r = - 1 then Ok (pi, Done i, [PipeRead pa])
          else pipewrite_from pa pt addr n killed k (i + 1) (pipe_put (hd ch) pi)) = Ok (pi', p, woken)"
      using eq by (auto simp: kres_simps split: if_splits)
    then show ?thesis using less.hyps [of "i + 1" "pipe_put (hd ch) pi"] True by (auto simp: pipe_put_def split: if_splits)
  next
    case False
    then show ?thesis using eq by (auto split: if_splits)
  qed
qed

text \<open>A well-formed address space, and a buffer in it whose \<open>n\<close> bytes the process may read and write.\<close>

definition user_space :: "u64 \<Rightarrow> kmem \<Rightarrow> u64 \<Rightarrow> bool" where
  "user_space kend k pt \<longleftrightarrow> pt_inv kend (ram k) pt \<and> user_sep (ram k) pt"

definition user_buf :: "kmem \<Rightarrow> u64 \<Rightarrow> u64 \<Rightarrow> int \<Rightarrow> bool" where
  "user_buf k pt addr n \<longleftrightarrow> (\<forall>i. 0 \<le> i \<and> i < n \<longrightarrow> user_frame (ram k) pt (addr + of_int i) \<noteq> 0)"

text \<open>A user byte that is mapped is the byte of its frame.\<close>

lemma copyin_one:
  assumes "pt_inv kend (ram k) pt" "user_frame (ram k) pt va \<noteq> 0"
  shows "copyin pt va 1 k = Ok ([ram k (user_frame (ram k) pt va + of_nat (unat va mod 4096))], 0)"
proof -
  have pg: "user_frame (ram k) pt (PGROUNDDOWN va) = user_frame (ram k) pt va"
    by (rule user_frame_page) (simp add: PGROUNDDOWN_aligned aligned_PGROUNDDOWN)
  have off: "va - PGROUNDDOWN va = of_nat (unat va mod 4096)" by (simp flip: unat_page_offset)
  have one: "page_chunk va (Suc 0) = Suc 0" using page_chunk_pos [of "Suc 0" va] by (simp add: page_chunk_eq)
  show ?thesis
    using assms by (subst copyin.simps)
      (simp add: walkaddr_frame [OF assms(1)] pg off one Let_def mread_Suc copyin.simps [of _ _ 0])
qed

lemma copyout_one:
  assumes "user_space kend k pt"
  defines "f \<equiv> user_frame (ram k) pt"
  shows "f va = 0 \<Longrightarrow> copyout pt va [ch] k = Ok (k, - 1)"
    "f va \<noteq> 0 \<Longrightarrow> \<exists>k'. copyout pt va [ch] k = Ok (k', 0) \<and> user_space kend k' pt \<and> user_frame (ram k') pt = f \<and>
      ubyte k' pt va = ch \<and> (\<forall>v. v \<noteq> va \<longrightarrow> f v \<noteq> 0 \<longrightarrow> ubyte k' pt v = ubyte k pt v)"
proof -
  have inv: "pt_inv kend (ram k) pt" and sep: "user_sep (ram k) pt" using assms(1) by (auto simp: user_space_def)
  have pg: "user_frame (ram k) pt (PGROUNDDOWN va) = f va"
    unfolding f_def by (rule user_frame_page) (simp add: PGROUNDDOWN_aligned aligned_PGROUNDDOWN)
  show "copyout pt va [ch] k = Ok (k, - 1)" if "f va = 0"
    using that by (subst copyout.simps) (simp add: walkaddr_frame [OF inv] pg)
  assume va: "f va \<noteq> 0"
  let ?o = "\<lambda>v. of_nat (unat v mod 4096) :: u64"
  let ?k = "k\<lparr>ram := mwrite (ram k) (f va + ?o va) [ch]\<rparr>"
  have one: "page_chunk va (Suc 0) = Suc 0" using page_chunk_pos [of "Suc 0" va] by (simp add: page_chunk_eq)
  note st = copyout_step [OF inv sep va [unfolded f_def], of "[ch]"]
  have c: "copyout pt va [ch] k = Ok (?k, 0)" using st(1) by (simp add: f_def one copyout.simps [of _ _ "[]"])
  have inv': "pt_inv kend (ram ?k) pt" and tab: "same_tables pt (ram k) (ram ?k)" using st(2,3) by (simp_all add: f_def one)
  have fr: "user_frame (ram ?k) pt = f" using tab by (auto simp: same_tables_def f_def)
  have sp: "user_space kend ?k pt" using inv' same_tables_sep [OF tab sep] by (simp add: user_space_def)
  have b: "ubyte k' pt v = ram k' (f v + ?o v)" if "pt_inv kend (ram k') pt" "user_frame (ram k') pt = f" "f v \<noteq> 0" for k' v
    using copyin_one [OF that(1), of v] that(2,3) by (simp add: ubyte_def)
  have "ubyte ?k pt va = ch" using b [OF inv' fr va] by (simp add: mwrite_Cons)
  moreover have "ubyte ?k pt v = ubyte k pt v" if v: "v \<noteq> va" "f v \<noteq> 0" for v
  proof -
    have "f v + ?o v \<noteq> f va + ?o va"
    proof
      assume e: "f v + ?o v = f va + ?o va"
      have al: "aligned 12 (f v)" "aligned 12 (f va)" unfolding f_def by (rule aligned_user_frame)+
      have "f v = f va" "?o v = ?o va"
        using aligned_cell_inj [OF al _ _ _ e] by auto
      then have "PGROUNDDOWN v = PGROUNDDOWN va" using sep v(2) unfolding user_sep_def f_def by blast
      then show False using va_split [of v] va_split [of va] \<open>?o v = ?o va\<close> v(1) by metis
    qed
    then show ?thesis using b [OF inv' fr v(2)] b [OF inv _ v(2)] by (simp add: f_def mwrite_Cons)
  qed
  ultimately show "\<exists>k'. copyout pt va [ch] k = Ok (k', 0) \<and> user_space kend k' pt \<and> user_frame (ram k') pt = f \<and>
      ubyte k' pt va = ch \<and> (\<forall>v. v \<noteq> va \<longrightarrow> f v \<noteq> 0 \<longrightarrow> ubyte k' pt v = ubyte k pt v)"
    using c sp fr by (intro exI [of _ ?k]) blast
qed

lemma of_int_u64_inj: "0 \<le> x \<Longrightarrow> x < 2 ^ 31 \<Longrightarrow> 0 \<le> y \<Longrightarrow> y < 2 ^ 31 \<Longrightarrow> (of_int x :: u64) = of_int y \<Longrightarrow> x = y"
proof -
  have "uint (of_int z :: u64) = z" if "0 \<le> z" "z < 2 ^ 31" for z
    using that by (simp add: uint_word_of_int)
  then show "0 \<le> x \<Longrightarrow> x < 2 ^ 31 \<Longrightarrow> 0 \<le> y \<Longrightarrow> y < 2 ^ 31 \<Longrightarrow> (of_int x :: u64) = of_int y \<Longrightarrow> x = y" by metis
qed

text \<open>
  The loop of \<^verbatim>\<open>piperead\<close>: it stops at an index \<open>m\<close> and what it took from the pipe is in the buffer between its start and \<open>m\<close>,
  but for the byte that could not be stored if it stopped at an address that is not mapped.
\<close>

definition lost_at :: "kmem \<Rightarrow> u64 \<Rightarrow> u64 \<Rightarrow> int \<Rightarrow> int \<Rightarrow> pipe \<Rightarrow> u8 list \<Rightarrow> bool" where
  "lost_at k pt addr n m pi' lost \<longleftrightarrow>
     lost = [] \<and> (m = n \<or> pipe_empty pi') \<or>
     (\<exists>b. lost = [b]) \<and> m < n \<and> user_frame (ram k) pt (addr + of_int m) = 0"

lemma piperead_from_reads:
  assumes "user_space kend k pt" "pipe_inv pi" "0 \<le> i" "i \<le> n" "n < 2 ^ 31"
  shows "\<exists>k' pi' m lost. piperead_from pa pt addr n i k pi = Ok (k', pi', Done m, [PipeWrite pa]) \<and> i \<le> m \<and> m \<le> n \<and>
    pipe_inv pi' \<and> readopen pi' = readopen pi \<and> writeopen pi' = writeopen pi \<and>
    pipe_queue pi = ubytes k' pt addr i m @ lost @ pipe_queue pi' \<and> lost_at k pt addr n m pi' lost \<and>
    (\<forall>x. i \<le> x \<and> x < m \<longrightarrow> user_frame (ram k) pt (addr + of_int x) \<noteq> 0) \<and>
    (\<forall>x. 0 \<le> x \<and> x < i \<longrightarrow> user_frame (ram k) pt (addr + of_int x) \<noteq> 0 \<longrightarrow> ubyte k' pt (addr + of_int x) = ubyte k pt (addr + of_int x))"
  using assms
proof (induction "nat (n - i)" arbitrary: i k pi rule: less_induct)
  case less
  note eq = piperead_from.simps [of pa pt addr n i k pi]
  let ?f = "user_frame (ram k) pt"
  show ?case
  proof (cases "i < n \<and> \<not> pipe_empty pi")
    case False
    then have "i = n \<or> pipe_empty pi" using less.prems(4) by auto
    then show ?thesis using eq False less.prems
      by (intro exI [of _ k] exI [of _ pi] exI [of _ i] exI [of _ "[]"]) (auto simp: lost_at_def)
  next
    case True
    obtain ch pi1 where g: "pipe_get pi = (ch, pi1)" by fastforce
    have pi1: "pipe_inv pi1" "pipe_queue pi = ch # pipe_queue pi1" "readopen pi1 = readopen pi" "writeopen pi1 = writeopen pi"
      using pq.get_inv [OF less.prems(2)] pq.get_queue [OF less.prems(2)] g True by (auto simp: pipe_get_def)
    show ?thesis
    proof (cases "?f (addr + of_int i) = 0")
      case f0: True
      then have "piperead_from pa pt addr n i k pi = Ok (k, pi1, Done i, [PipeWrite pa])"
        using eq True g copyout_one(1) [OF less.prems(1) f0] by simp
      then show ?thesis using pi1 f0 less.prems True
        by (intro exI [of _ k] exI [of _ pi1] exI [of _ i] exI [of _ "[ch]"]) (auto simp: lost_at_def)
    next
      case f1: False
      then obtain k1 where c: "copyout pt (addr + of_int i) [ch] k = Ok (k1, 0)" "user_space kend k1 pt" "user_frame (ram k1) pt = ?f"
        "ubyte k1 pt (addr + of_int i) = ch" "\<forall>v. v \<noteq> addr + of_int i \<longrightarrow> ?f v \<noteq> 0 \<longrightarrow> ubyte k1 pt v = ubyte k pt v"
        using copyout_one(2) [OF less.prems(1) f1, of ch] by blast
      have e: "piperead_from pa pt addr n i k pi = piperead_from pa pt addr n (i + 1) k1 pi1" using eq True g c(1) by simp
      have "nat (n - (i + 1)) < nat (n - i)" "i + 1 \<le> n" "0 \<le> i + 1" using True less.prems(3) by auto
      from less.hyps [OF this(1) c(2) pi1(1) this(3) this(2) less.prems(5)]
      obtain k' pi' m lost where ih: "piperead_from pa pt addr n (i + 1) k1 pi1 = Ok (k', pi', Done m, [PipeWrite pa])" "i + 1 \<le> m" "m \<le> n"
        "pipe_inv pi'" "readopen pi' = readopen pi1" "writeopen pi' = writeopen pi1"
        "pipe_queue pi1 = ubytes k' pt addr (i + 1) m @ lost @ pipe_queue pi'" "lost_at k1 pt addr n m pi' lost"
        "\<forall>x. i + 1 \<le> x \<and> x < m \<longrightarrow> user_frame (ram k1) pt (addr + of_int x) \<noteq> 0"
        "\<forall>x. 0 \<le> x \<and> x < i + 1 \<longrightarrow> user_frame (ram k1) pt (addr + of_int x) \<noteq> 0 \<longrightarrow> ubyte k' pt (addr + of_int x) = ubyte k1 pt (addr + of_int x)"
        by blast
      have bi: "ubyte k' pt (addr + of_int i) = ch" using ih(10) c(3,4) f1 less.prems(3) by simp
      have q: "pipe_queue pi = ubytes k' pt addr i m @ lost @ pipe_queue pi'"
        using pi1(2) ih(2,7) bi by (simp add: ubytes_Cons)
      have l: "lost_at k pt addr n m pi' lost" using ih(8) c(3) by (simp add: lost_at_def)
      have acc: "\<forall>x. i \<le> x \<and> x < m \<longrightarrow> ?f (addr + of_int x) \<noteq> 0"
      proof (intro allI impI)
        fix x assume x: "i \<le> x \<and> x < m"
        show "?f (addr + of_int x) \<noteq> 0" using x f1 ih(9) c(3) by (cases "x = i") auto
      qed
      have old: "ubyte k' pt (addr + of_int x) = ubyte k pt (addr + of_int x)" if x: "0 \<le> x" "x < i" "?f (addr + of_int x) \<noteq> 0" for x
      proof -
        have "x < 2 ^ 31" "i < 2 ^ 31" using x less.prems(4,5) by auto
        then have "addr + of_int x \<noteq> addr + of_int i" using of_int_u64_inj [of x i] x less.prems(3) by auto
        then show ?thesis using ih(10) c(3,5) x by simp
      qed
      show ?thesis using e ih(1-6) pi1(3,4) q l acc old
        by (intro exI [of _ k'] exI [of _ pi'] exI [of _ m] exI [of _ lost]) simp
    qed
  qed
qed

lemma piperead_reads:
  assumes "user_space kend k pt" "pipe_inv pi" "0 \<le> n" "n < 2 ^ 31" "\<not> (pipe_empty pi \<and> writeopen pi)"
  obtains k' pi' m lost where "piperead pa pt addr n killed k pi = Ok (k', pi', Done m, [PipeWrite pa])" "0 \<le> m" "m \<le> n"
    "pipe_inv pi'" "pipe_queue pi = ubytes k' pt addr 0 m @ lost @ pipe_queue pi'" "lost_at k pt addr n m pi' lost"
    "\<forall>x. 0 \<le> x \<and> x < m \<longrightarrow> user_frame (ram k) pt (addr + of_int x) \<noteq> 0"
  using piperead_from_reads [OF assms(1,2) order_refl assms(3,4), of pa addr] assms(5)
  unfolding piperead_def by (metis (no_types, lifting) if_not_P)

section \<open>Interleaved readers and writers\<close>

text \<open>The pipe as \<^verbatim>\<open>pipealloc\<close> sets it up in a page with contents \<open>d\<close>.\<close>

definition new_pipe :: "u8 list \<Rightarrow> pipe" where
  "new_pipe d = \<lparr>pdata = d, nread = 0, nwrite = 0, readopen = True, writeopen = True\<rparr>"

text \<open>
  The bytes a part of \<^verbatim>\<open>pipewrite\<close> that ran from index \<open>i\<close> accounts for: those up to the index it returned or sleeps at; where
  it returned -1, those \<^verbatim>\<open>nwrite\<close> has counted. The bytes a call of \<^verbatim>\<open>piperead\<close> accounts for are those in its
  buffer up to the number it returned.
\<close>

definition pipe_written :: "kmem \<Rightarrow> u64 \<Rightarrow> u64 \<Rightarrow> int \<Rightarrow> pipe \<Rightarrow> pipe \<Rightarrow> progress \<Rightarrow> u8 list" where
  "pipe_written k pt addr i pi pi' p =
     (case p of
        Blocked j c \<Rightarrow> ubytes k pt addr i j
      | Done r \<Rightarrow> ubytes k pt addr i (if r = - 1 then i + uint (nwrite pi' - nwrite pi) else r))"

definition delivered :: "kmem \<Rightarrow> u64 \<Rightarrow> u64 \<Rightarrow> progress \<Rightarrow> u8 list" where
  "delivered k' pt addr p = (case p of Blocked j c \<Rightarrow> [] | Done r \<Rightarrow> ubytes k' pt addr 0 r)"

text \<open>
  Histories of a pipe: any number of processes with any page tables and buffers run parts of \<^verbatim>\<open>pipewrite\<close> (from the
  start or resumed at an index) and calls of \<^verbatim>\<open>piperead\<close> into buffers they have mapped, in any order. \<open>ws\<close> are the
  bytes the writers' calls account for, \<open>rs\<close> those found in the readers' buffers.
\<close>

inductive pipe_run :: "u64 \<Rightarrow> pipe \<Rightarrow> u8 list \<Rightarrow> u8 list \<Rightarrow> bool" for pa where
  alloc: "length d = PIPESIZE \<Longrightarrow> pipe_run pa (new_pipe d) [] []"
| pwrite: "pipe_run pa pi ws rs \<Longrightarrow> 0 \<le> i \<Longrightarrow> i \<le> n \<Longrightarrow>
    pipewrite_from pa pt addr n killed k i pi = Ok (pi', p, woken) \<Longrightarrow>
    pipe_run pa pi' (ws @ pipe_written k pt addr i pi pi' p) rs"
| pread: "pipe_run pa pi ws rs \<Longrightarrow> 0 \<le> n \<Longrightarrow> n < 2 ^ 31 \<Longrightarrow> user_space kend k pt \<Longrightarrow> user_buf k pt addr n \<Longrightarrow>
    piperead pa pt addr n killed k pi = Ok (k', pi', p, woken) \<Longrightarrow>
    pipe_run pa pi' ws (rs @ delivered k' pt addr p)"
| pclose: "pipe_run pa pi ws rs \<Longrightarrow> pipeclose kend pa writable k pi = Ok (k', Some pi', woken) \<Longrightarrow>
    pipe_run pa pi' ws rs"

lemma pipe_inv_new: "length d = PIPESIZE \<Longrightarrow> pipe_inv (new_pipe d) \<and> pipe_queue (new_pipe d) = []"
  by (simp add: pipe_inv_def new_pipe_def pipe_queue_def)

lemma queue_count: "pipe_inv pi \<Longrightarrow> length (pipe_queue pi) \<le> 512"
  using pq.bounded by simp

lemma write_count:
  assumes "pipe_inv pi" "0 \<le> i" "i \<le> n" "pipewrite_from pa pt addr n killed k i pi = Ok (pi', p, woken)"
  shows "pipe_inv pi'" "pipe_queue pi' = pipe_queue pi @ pipe_written k pt addr i pi pi' p"
proof -
  obtain j where j: "i \<le> j" "pipe_inv pi'" "nwrite pi' = nwrite pi + of_int (j - i)"
    "pipe_queue pi' = pipe_queue pi @ ubytes k pt addr i j" "write_stop pa n killed j pi' p woken"
    using pipewrite_from_queue [OF assms(1,4,3)] by blast
  then have "nat (j - i) \<le> 512"
    using queue_count [OF j(2)] by (simp add: ubytes_def)
  then have "uint (of_int (j - i) :: u32) = j - i"
    using j(1) by (simp add: uint_word_of_int del: of_int_diff)
  moreover have "nwrite pi' - nwrite pi = of_int (j - i)" using j(3) by simp
  ultimately have "i + uint (nwrite pi' - nwrite pi) = j" by (simp del: of_int_diff)
  then have "pipe_written k pt addr i pi pi' p = ubytes k pt addr i j"
    using j(1,5) assms(2) by (auto simp: pipe_written_def write_stop_def split: progress.splits)
  then show "pipe_inv pi'" "pipe_queue pi' = pipe_queue pi @ pipe_written k pt addr i pi pi' p" using j by simp_all
qed

lemma read_count:
  assumes "pipe_inv pi" "0 \<le> n" "n < 2 ^ 31" "user_space kend k pt" "user_buf k pt addr n"
    "piperead pa pt addr n killed k pi = Ok (k', pi', p, woken)"
  shows "pipe_inv pi'" "pipe_queue pi = delivered k' pt addr p @ pipe_queue pi'"
proof -
  have "pipe_inv pi' \<and> pipe_queue pi = delivered k' pt addr p @ pipe_queue pi'"
  proof (cases "pipe_empty pi \<and> writeopen pi")
    case True
    then show ?thesis using assms(1,6) by (auto simp: piperead_def delivered_def split: if_splits)
  next
    case False
    obtain m lost where m: "p = Done m" "0 \<le> m" "pipe_inv pi'" "pipe_queue pi = ubytes k' pt addr 0 m @ lost @ pipe_queue pi'"
      "lost_at k pt addr n m pi' lost"
      by (rule piperead_reads [OF assms(4,1,2,3) False, of pa addr killed]) (use assms(6) in auto)
    have "lost = []" using m(2,5) assms(5) by (auto simp: lost_at_def user_buf_def)
    then show ?thesis using m by (simp add: delivered_def)
  qed
  then show "pipe_inv pi'" "pipe_queue pi = delivered k' pt addr p @ pipe_queue pi'" by auto
qed

lemma pipe_run_inv: "pipe_run pa pi ws rs \<Longrightarrow> pipe_inv pi \<and> ws = rs @ pipe_queue pi"
proof (induction rule: pipe_run.induct)
  case (alloc d)
  then show ?case using pipe_inv_new by simp
next
  case (pwrite pi ws rs i n pt addr killed k pi' p woken)
  then show ?case using write_count [OF _ pwrite(2,3,4)] by simp
next
  case (pread pi ws rs n kend k pt addr killed k' pi' p woken)
  then show ?case using read_count [OF _ pread(2-6)] by simp
next
  case (pclose pi ws rs kend writable k k' pi' woken)
  then have "pdata pi' = pdata pi" "nread pi' = nread pi" "nwrite pi' = nwrite pi"
    by (auto simp: pipeclose_def kres_simps split: if_splits)
  then show ?case using pclose.IH by (simp add: pipe_inv_def pipe_queue_def)
qed

text \<open>
  C9. A pipe delivers what was written, in order, whatever the interleaving of the calls: at any point of any history the
  bytes found in the readers' buffers, up to the counts their calls returned, followed by the bytes in the pipe are the
  bytes of the writers' buffers up to the counts their calls returned or sleep at, and at most 512 bytes are
  in the pipe. The 32-bit counters may have wrapped around any number of times. The readers' buffers are mapped; the
  writers' need not be.
\<close>

theorem pipe_fifo:
  assumes "pipe_run pa pi ws rs"
  shows "ws = rs @ pipe_queue pi \<and> length (pipe_queue pi) \<le> PIPESIZE"
  using pipe_run_inv [OF assms] queue_count by blast

text \<open>A process with a page at 0 writes a byte of it into a new pipe and reads it back.\<close>

definition demo_data :: "u8 list" where
  "demo_data = replicate 512 0"

lemma demo_data: "length demo_data = PIPESIZE"
  by (simp add: demo_data_def)

lemma demo_space: "user_space demo_pt demo_user demo_pt"
  using demo_ram(1) demo_sep by (simp add: user_space_def demo_user_def)

lemma demo_buf: "user_buf demo_user demo_pt 0 2"
proof -
  have "i = 0 \<or> i = 1" if "0 \<le> i" "i < 2" for i :: int using that by arith
  moreover have "PGROUNDDOWN 0 = 0" "PGROUNDDOWN 1 = 0" by (simp_all add: PGROUNDDOWN_def PGSIZE_def)
  ultimately show ?thesis by (fastforce simp: user_buf_def demo_user_def demo_frame)
qed

theorem pipe_fifo_witness:
  "\<exists>pi b. pipe_run 0x80107000 pi [b] [b] \<and> pipe_queue pi = []"
proof -
  let ?p0 = "new_pipe demo_data"
  obtain b where b: "copyin demo_pt 0 1 demo_user = Ok ([b], 0)" using demo_copyin by blast
  define pi where "pi = pipe_put b ?p0"
  have "\<not> pipe_full ?p0" by (simp add: pipe_full_def new_pipe_def)
  then have w: "pipewrite_from 0x80107000 demo_pt 0 1 False demo_user 0 ?p0 = Ok (pi, Done 1, [PipeRead 0x80107000])"
    using b by (simp add: pipewrite_from.simps pi_def)
  have "ubytes demo_user demo_pt 0 0 1 = [b]" using b by (simp add: ubytes_Cons ubyte_def)
  then have r: "pipe_run 0x80107000 pi [b] []"
    using pipe_run.pwrite [OF pipe_run.alloc [OF demo_data] _ _ w] by (simp add: pipe_written_def)
  have q: "pipe_queue pi = [b]" "pipe_inv pi" using pipe_run_inv [OF r] by simp_all
  have ne: "\<not> pipe_empty pi" using pq.empty_iff [OF q(2)] q(1) by simp
  obtain k' pi' m lost where m: "piperead 0x80107000 demo_pt 0 2 False demo_user pi = Ok (k', pi', Done m, [PipeWrite 0x80107000])" "0 \<le> m"
    "pipe_queue pi = ubytes k' demo_pt 0 0 m @ lost @ pipe_queue pi'" "lost_at demo_user demo_pt 0 2 m pi' lost" "pipe_inv pi'"
    by (rule piperead_reads [OF demo_space q(2), of 2 "0x80107000" 0 False]) (use ne in auto)
  have r2: "pipe_run 0x80107000 pi' [b] (ubytes k' demo_pt 0 0 m)"
    using pipe_run.pread [OF r _ _ demo_space demo_buf m(1)] by (simp add: delivered_def)
  have "lost = []" using m(2,4) demo_buf by (auto simp: lost_at_def user_buf_def)
  then have "m = 2 \<or> pipe_queue pi' = []" using m(4) pq.empty_iff [OF m(5)] by (auto simp: lost_at_def)
  moreover have "[b] = ubytes k' demo_pt 0 0 m @ pipe_queue pi'" using pipe_fifo [OF r2] by simp
  moreover have "length (ubytes k' demo_pt 0 0 2) = 2" by (simp add: ubytes_def)
  ultimately have "pipe_queue pi' = []" by (auto dest: arg_cong [of _ _ length])
  moreover from this have "ubytes k' demo_pt 0 0 m = [b]" using pipe_fifo [OF r2] by simp
  ultimately show ?thesis using r2 by (intro exI [of _ pi'] exI [of _ b]) simp
qed

text \<open>
  C36. A read into a buffer that ends in an unmapped address loses a byte: with more bytes in the pipe than the \<open>m\<close> that
  are mapped, \<^verbatim>\<open>piperead\<close> returns \<open>m\<close>, and the byte after those it delivered is gone from the pipe and in no buffer.
\<close>

theorem piperead_fault_loses_byte:
  assumes "user_space kend k pt" "pipe_inv pi" "0 \<le> m" "m < n" "n < 2 ^ 31"
    "user_buf k pt addr m" "user_frame (ram k) pt (addr + of_int m) = 0" "m < int (length (pipe_queue pi))"
  shows "\<exists>k' pi' b. piperead pa pt addr n killed k pi = Ok (k', pi', Done m, [PipeWrite pa]) \<and>
    pipe_queue pi = ubytes k' pt addr 0 m @ b # pipe_queue pi'"
proof -
  have ne: "\<not> (pipe_empty pi \<and> writeopen pi)" using pq.empty_iff [OF assms(2)] assms(3,8) by auto
  obtain k' pi' j lost where j: "piperead pa pt addr n killed k pi = Ok (k', pi', Done j, [PipeWrite pa])" "0 \<le> j" "j \<le> n"
    "pipe_inv pi'" "pipe_queue pi = ubytes k' pt addr 0 j @ lost @ pipe_queue pi'" "lost_at k pt addr n j pi' lost"
    "\<forall>x. 0 \<le> x \<and> x < j \<longrightarrow> user_frame (ram k) pt (addr + of_int x) \<noteq> 0"
    by (rule piperead_reads [OF assms(1,2) _ assms(5) ne, of pa addr killed]) (use assms(3,4) in auto)
  have "j \<le> m" using j(7) assms(3,7) by (metis not_le)
  have len: "length (ubytes k' pt addr 0 j) = nat j" by (simp add: ubytes_def)
  have "j = m"
  proof (rule ccontr)
    assume "j \<noteq> m"
    then have "j < m" using \<open>j \<le> m\<close> by simp
    then have "user_frame (ram k) pt (addr + of_int j) \<noteq> 0" using assms(6) j(2) by (simp add: user_buf_def)
    then have "lost = []" "pipe_queue pi' = []" using j(4,6) \<open>j < m\<close> assms(4) pq.empty_iff [OF j(4)] by (auto simp: lost_at_def)
    then show False using j(2,5) len assms(8) \<open>j < m\<close> by simp
  qed
  moreover have "\<exists>b. lost = [b]"
  proof (rule ccontr)
    assume "\<nexists>b. lost = [b]"
    then have "lost = []" "pipe_queue pi' = []" using j(6) \<open>j = m\<close> assms(4) pq.empty_iff [OF j(4)] by (auto simp: lost_at_def)
    then show False using j(5) len assms(3,8) \<open>j = m\<close> by simp
  qed
  ultimately show ?thesis using j(1,5) by auto
qed

theorem piperead_fault_loses_byte_witness:
  "\<exists>k' pi pi' b c. pipe_queue pi = [b, c] \<and> piperead 7 demo_pt 0x1fff 2 False demo_user pi = Ok (k', pi', Done 1, [PipeWrite 7]) \<and>
    pipe_queue pi' = []"
proof -
  define pi where "pi = pipe_put 5 (pipe_put 4 (new_pipe demo_data))"
  have p0: "pipe_inv (new_pipe demo_data)" "pipe_queue (new_pipe demo_data) = []" "\<not> pipe_full (new_pipe demo_data)"
    using pipe_inv_new [OF demo_data] by (simp_all add: pipe_full_def new_pipe_def)
  note p1 = pq.put_inv [OF p0(1,3), of 4] pq.put_queue [OF p0(1,3), of 4]
  have f1: "\<not> pipe_full (pipe_put 4 (new_pipe demo_data))" using pq.full_iff [OF p1(1)] p1(2) p0(2) by simp
  have pi: "pipe_inv pi" "pipe_queue pi = [4, 5]"
    using pq.put_inv [OF p1(1) f1, of 5] pq.put_queue [OF p1(1) f1, of 5] p1(2) p0(2) by (simp_all add: pi_def)
  have fr: "user_frame (ram demo_user) demo_pt 0x1fff \<noteq> 0" "user_frame (ram demo_user) demo_pt 0x2000 = 0"
    by (simp_all add: demo_user_def demo_frame PGROUNDDOWN_def PGSIZE_def)
  have "user_buf demo_user demo_pt 0x1fff 1"
    unfolding user_buf_def using fr(1) by (metis add.right_neutral int_one_le_iff_zero_less linorder_not_le of_int_0 order_antisym_conv)
  then obtain k' pi' b where "piperead 7 demo_pt 0x1fff 2 False demo_user pi = Ok (k', pi', Done 1, [PipeWrite 7])"
    "pipe_queue pi = ubytes k' demo_pt 0x1fff 0 1 @ b # pipe_queue pi'"
    using piperead_fault_loses_byte [OF demo_space pi(1), of 1 2 "0x1fff" 7 False] fr(2) pi(2) by auto
  moreover from this(2) have "pipe_queue pi' = []" using pi(2) by (simp add: ubytes_Cons)
  ultimately show ?thesis using pi(2) by blast
qed

section \<open>Sleeping and waking\<close>

text \<open>
  A pipe with the processes that sleep in \<^verbatim>\<open>piperead\<close> and those that sleep in \<^verbatim>\<open>pipewrite\<close>. A part that runs wakes all
  sleepers on the channels it wakes, and its process joins the sleepers of the channel it sleeps on.
\<close>

type_synonym pipe_sys = "pipe \<times> nat set \<times> nat set"

definition sleepers :: "chan \<Rightarrow> nat \<Rightarrow> progress \<Rightarrow> chan list \<Rightarrow> nat set \<Rightarrow> nat set" where
  "sleepers c q p woken S =
     (if c \<in> set woken then {} else S) \<union> (case p of Done r \<Rightarrow> {} | Blocked j c' \<Rightarrow> if c' = c then {q} else {})"

text \<open>
  Any process that does not sleep may call or resume a part on an end that is open; writers are not killed in the middle.
  A process in a call holds its end open, so an end is closed only when no process sleeps there. A sleeper may be
  woken for other reasons, as by \<^verbatim>\<open>kill\<close>.
\<close>

inductive pipe_step :: "u64 \<Rightarrow> pipe_sys \<Rightarrow> pipe_sys \<Rightarrow> bool" for pa where
  pwrite: "q \<notin> R \<union> W \<Longrightarrow> writeopen pi \<Longrightarrow> i \<le> n \<Longrightarrow>
    pipewrite_from pa pt addr n False k i pi = Ok (pi', p, woken) \<Longrightarrow>
    pipe_step pa (pi, R, W) (pi', sleepers (PipeRead pa) q p woken R, sleepers (PipeWrite pa) q p woken W)"
| pread: "q \<notin> R \<union> W \<Longrightarrow> readopen pi \<Longrightarrow>
    piperead pa pt addr n killed k pi = Ok (k', pi', p, woken) \<Longrightarrow>
    pipe_step pa (pi, R, W) (pi', sleepers (PipeRead pa) q p woken R, sleepers (PipeWrite pa) q p woken W)"
| pclose: "(if writable then W = {} else R = {}) \<Longrightarrow>
    pipeclose kend pa writable k pi = Ok (k', Some pi', woken) \<Longrightarrow>
    pipe_step pa (pi, R, W) (pi', if PipeRead pa \<in> set woken then {} else R, if PipeWrite pa \<in> set woken then {} else W)"
| pkill: "pipe_step pa (pi, R, W) (pi, R - {q}, W - {q})"

definition pipe_sys_ok :: "pipe_sys \<Rightarrow> bool" where
  "pipe_sys_ok = (\<lambda>(pi, R, W). pipe_inv pi \<and>
     (R \<noteq> {} \<longrightarrow> pipe_empty pi \<and> writeopen pi \<and> readopen pi) \<and> (W \<noteq> {} \<longrightarrow> pipe_full pi \<and> readopen pi \<and> writeopen pi))"

lemma full_not_empty: "pipe_inv pi \<Longrightarrow> pipe_full pi \<Longrightarrow> \<not> pipe_empty pi"
  using pq.full_iff [of pi] pq.empty_iff [of pi] by auto

lemma piperead_from_ends:
  "pipe_inv pi \<Longrightarrow> piperead_from pa pt addr n i k pi = Ok (k', pi', p, woken) \<Longrightarrow>
   pipe_inv pi' \<and> (\<exists>r. p = Done r) \<and> PipeWrite pa \<in> set woken"
proof (induction "nat (n - i)" arbitrary: i k pi rule: less_induct)
  case less
  note eq = less.prems(2) [unfolded piperead_from.simps [of pa pt addr n i k pi]]
  show ?case
  proof (cases "i < n \<and> \<not> pipe_empty pi")
    case True
    obtain ch pi1 where g: "pipe_get pi = (ch, pi1)" by fastforce
    have inv: "pipe_inv pi1" using pq.get_inv [OF less.prems(1)] g True by simp
    obtain k1 r where "copyout pt (addr + of_int i) [ch] k = Ok (k1, r)" and "(if r = - 1 then Ok (k1, pi1, Done i, [PipeWrite pa])
        else piperead_from pa pt addr n (i + 1) k1 pi1) = Ok (k', pi', p, woken)"
      using eq True g by (auto simp: kres_simps split: if_splits)
    from this(2) show ?thesis using less.hyps [of "i + 1" pi1 k1] inv True by (auto split: if_splits)
  next
    case False
    then show ?thesis using eq less.prems(1) by auto
  qed
qed

lemma piperead_flags:
  assumes "pipe_inv pi" "piperead pa pt addr n killed k pi = Ok (k', pi', p, woken)"
  shows "pipe_inv pi' \<and> (if pipe_empty pi \<and> writeopen pi
     then pi' = pi \<and> woken = [] \<and> (p = Done (- 1) \<or> p = Blocked 0 (PipeRead pa))
     else (\<exists>r. p = Done r) \<and> PipeWrite pa \<in> set woken)"
  using assms piperead_from_ends [OF assms(1), of pa pt addr n 0 k k' pi' p woken]
  by (auto simp: piperead_def split: if_splits)

lemma pipe_step_ok: "pipe_step pa x y \<Longrightarrow> pipe_sys_ok x \<Longrightarrow> pipe_sys_ok y"
proof (induction rule: pipe_step.induct)
  case (pwrite q R W pi i n pt addr k pi' p woken)
  then have inv: "pipe_inv pi" and R: "R \<noteq> {} \<longrightarrow> pipe_empty pi \<and> writeopen pi \<and> readopen pi"
    and W: "W \<noteq> {} \<longrightarrow> pipe_full pi \<and> readopen pi \<and> writeopen pi" by (auto simp: pipe_sys_ok_def)
  obtain j where j: "i \<le> j" "pipe_inv pi'" "pipe_queue pi' = pipe_queue pi @ ubytes k pt addr i j" "write_stop pa n False j pi' p woken"
    using pipewrite_from_queue [OF inv pwrite(4,3)] by blast
  note fl = pipewrite_from_flags [OF pwrite(4)]
  have full: "pipe_full pi'" if "pipe_full pi"
  proof -
    have "length (pipe_queue pi') = 512" using that pq.full_iff [OF inv] queue_count [OF j(2)] j(3) by simp
    then show ?thesis using pq.full_iff [OF j(2)] by simp
  qed
  show ?case
  proof (cases p)
    case (Blocked j' c)
    then show ?thesis using j(2,4) fl pwrite(2) by (auto simp: pipe_sys_ok_def sleepers_def write_stop_def)
  next
    case (Done r)
    then consider "PipeRead pa \<in> set woken" | "\<not> readopen pi'" using j(4) by (auto simp: write_stop_def)
    then show ?thesis using Done j(2) fl R W full by cases (auto simp: pipe_sys_ok_def sleepers_def)
  qed
next
  case (pread q R W pi n pt addr killed k k' pi' p woken)
  then have inv: "pipe_inv pi" and R: "R \<noteq> {} \<longrightarrow> pipe_empty pi \<and> writeopen pi \<and> readopen pi"
    and W: "W \<noteq> {} \<longrightarrow> pipe_full pi \<and> readopen pi \<and> writeopen pi" by (auto simp: pipe_sys_ok_def)
  show ?case using piperead_flags [OF inv pread(3)] R W full_not_empty [OF inv] pread(2)
    by (cases "pipe_empty pi \<and> writeopen pi") (auto simp: pipe_sys_ok_def sleepers_def)
next
  case (pclose writable W R kend k pi k' pi' woken)
  then have inv: "pipe_inv pi" and R: "R \<noteq> {} \<longrightarrow> pipe_empty pi \<and> writeopen pi \<and> readopen pi"
    and W: "W \<noteq> {} \<longrightarrow> pipe_full pi \<and> readopen pi \<and> writeopen pi" by (auto simp: pipe_sys_ok_def)
  have e: "pipe_inv pi'" "pipe_empty pi' = pipe_empty pi" "pipe_full pi' = pipe_full pi"
    using pclose(2) inv by (auto simp: pipeclose_def pipe_inv_def pipe_empty_def pipe_full_def kres_simps split: if_splits)
  show ?case using pclose(1,2) e(1) by (auto simp: pipe_sys_ok_def pipeclose_def kres_simps split: if_splits)
next
  case (pkill pi R W q)
  then show ?case by (auto simp: pipe_sys_ok_def)
qed

lemma pipe_steps_ok: "(pipe_step pa)\<^sup>*\<^sup>* x y \<Longrightarrow> pipe_sys_ok x \<Longrightarrow> pipe_sys_ok y"
  by (induction rule: rtranclp_induct) (auto intro: pipe_step_ok)

text \<open>A writer with more bytes than fit fills the pipe and then sleeps or, killed, returns.\<close>

lemma pipewrite_fills:
  assumes "user_space kend k pt" "user_buf k pt addr n" "pipe_inv pi" "readopen pi" "0 \<le> i" "n - i > 512 - int (length (pipe_queue pi))"
  shows "\<exists>pi' j. pipewrite_from pa pt addr n killed k i pi =
      Ok (pi', if killed then Done (- 1) else Blocked j (PipeWrite pa), if killed then [] else [PipeRead pa]) \<and> pipe_inv pi' \<and> pipe_full pi'"
  using assms(3-6)
proof (induction "nat (n - i)" arbitrary: i pi rule: less_induct)
  case less
  have i: "i < n" using less.prems(4) queue_count [OF less.prems(1)] by simp
  show ?case
  proof (cases "pipe_full pi")
    case True
    then show ?thesis using i less.prems(1,2) by (subst pipewrite_from.simps) simp
  next
    case False
    have f: "user_frame (ram k) pt (addr + of_int i) \<noteq> 0" using assms(2) less.prems(3) i by (simp add: user_buf_def)
    obtain b where b: "copyin pt (addr + of_int i) 1 k = Ok ([b], 0)"
      using copyin_one [OF _ f] assms(1) by (auto simp: user_space_def)
    then have e: "pipewrite_from pa pt addr n killed k i pi = pipewrite_from pa pt addr n killed k (i + 1) (pipe_put b pi)"
      using i False by (subst pipewrite_from.simps) simp
    note q = pq.put_inv [OF less.prems(1) False, of b] pq.put_queue [OF less.prems(1) False, of b]
    have "nat (n - (i + 1)) < nat (n - i)" "0 \<le> i + 1" "n - (i + 1) > 512 - int (length (pipe_queue (pipe_put b pi)))"
      "readopen (pipe_put b pi)"
      using i less.prems(2-4) q(2) by (auto simp: pipe_put_def)
    from less.hyps [OF this(1) q(1) this(4,2,3)] show ?thesis unfolding e .
  qed
qed

lemma demo_long_buf: "user_buf demo_user demo_pt 0 513"
  unfolding user_buf_def
proof (intro allI impI)
  fix i :: int assume i: "0 \<le> i \<and> i < 513"
  have "uint (of_int i :: u64) = i" using i by (simp add: uint_word_of_int)
  then have "unat (of_int i :: u64) < 4096" using i by (simp only: unat_eq_nat_uint) linarith
  then have "PGROUNDDOWN (of_int i) = 0" using unat_PGROUNDDOWN [of "of_int i"] by (simp add: unat_eq_0 [symmetric])
  then show "user_frame (ram demo_user) demo_pt (0 + of_int i) \<noteq> 0" by (simp add: demo_user_def demo_frame)
qed

text \<open>
  C15. No wakeup of a pipe is lost while its writers are not killed. In every interleaving of readers, writers, closes and kills
  of readers from a new pipe on: readers sleep only while the pipe is empty and open for writing, and writers
  only while it is full and open for reading, so the two never wait for each other. While writers sleep, every call
  of \<^verbatim>\<open>piperead\<close> returns and wakes them; while readers sleep, every part of \<^verbatim>\<open>pipewrite\<close> that does not fail at once wakes them.
\<close>

theorem pipe_no_lost_wakeup:
  assumes "(pipe_step pa)\<^sup>*\<^sup>* (new_pipe d, {}, {}) (pi, R, W)" "length d = PIPESIZE"
  shows "(R \<noteq> {} \<longrightarrow> pipe_empty pi \<and> writeopen pi \<and> W = {}) \<and> (W \<noteq> {} \<longrightarrow> pipe_full pi \<and> readopen pi \<and> R = {}) \<and>
    (W \<noteq> {} \<longrightarrow> piperead pa pt addr n killed k pi = Ok (k', pi', p, woken) \<longrightarrow>
       (\<exists>r. p = Done r) \<and> PipeWrite pa \<in> set woken) \<and>
    (R \<noteq> {} \<longrightarrow> i \<le> n \<longrightarrow> pipewrite_from pa pt addr n False k i pi = Ok (pi', p, woken) \<longrightarrow> PipeRead pa \<in> set woken)"
proof -
  have ok: "pipe_sys_ok (pi, R, W)"
    by (rule pipe_steps_ok [OF assms(1)]) (use pipe_inv_new [OF assms(2)] in \<open>simp add: pipe_sys_ok_def\<close>)
  then have inv: "pipe_inv pi" and R: "R \<noteq> {} \<Longrightarrow> pipe_empty pi \<and> writeopen pi \<and> readopen pi"
    and W: "W \<noteq> {} \<Longrightarrow> pipe_full pi \<and> readopen pi \<and> writeopen pi" by (auto simp: pipe_sys_ok_def)
  have rd: "(\<exists>r. p = Done r) \<and> PipeWrite pa \<in> set woken"
    if "W \<noteq> {}" "piperead pa pt addr n killed k pi = Ok (k', pi', p, woken)"
    using piperead_flags [OF inv that(2)] W [OF that(1)] full_not_empty [OF inv] by simp
  have wr: "PipeRead pa \<in> set woken"
    if t: "R \<noteq> {}" "i \<le> n" "pipewrite_from pa pt addr n False k i pi = Ok (pi', p, woken)"
  proof -
    obtain j where "write_stop pa n False j pi' p woken" using pipewrite_from_queue [OF inv t(3,2)] by blast
    then show ?thesis using R [OF t(1)] pipewrite_from_flags [OF t(3)] by (auto simp: write_stop_def split: progress.splits)
  qed
  show ?thesis using R W full_not_empty [OF inv] rd wr by blast
qed

theorem pipe_no_lost_wakeup_witness:
  "(pipe_step 7)\<^sup>*\<^sup>* (new_pipe demo_data, {}, {}) (new_pipe demo_data, {3}, {}) \<and>
   (\<exists>pi. pipewrite_from 7 demo_pt 0 1 False demo_user 0 (new_pipe demo_data) = Ok (pi, Done 1, [PipeRead 7])) \<and>
   (\<exists>pi. (pipe_step 7)\<^sup>*\<^sup>* (new_pipe demo_data, {}, {}) (pi, {}, {4}) \<and> pipe_full pi)"
proof -
  let ?p = "new_pipe demo_data"
  have r: "piperead 7 demo_pt 0 5 False demo_user ?p = Ok (demo_user, ?p, Blocked 0 (PipeRead 7), [])"
    by (simp add: piperead_def new_pipe_def pipe_empty_def)
  have "pipe_step 7 (?p, {}, {}) (?p, sleepers (PipeRead 7) 3 (Blocked 0 (PipeRead 7)) [] {}, sleepers (PipeWrite 7) 3 (Blocked 0 (PipeRead 7)) [] {})"
    by (rule pipe_step.pread [OF _ _ r]) (simp_all add: new_pipe_def)
  then have s: "(pipe_step 7)\<^sup>*\<^sup>* (?p, {}, {}) (?p, {3}, {})" by (simp add: sleepers_def r_into_rtranclp)
  obtain b where b: "copyin demo_pt 0 1 demo_user = Ok ([b], 0)" using demo_copyin by blast
  have "\<not> pipe_full ?p" by (simp add: pipe_full_def new_pipe_def)
  then obtain pi woken where w: "pipewrite_from 7 demo_pt 0 1 False demo_user 0 ?p = Ok (pi, Done 1, woken)" "length woken = 1"
    using b by (simp add: pipewrite_from.simps)
  have "PipeRead 7 \<in> set woken"
    using pipe_no_lost_wakeup [OF s demo_data, where pt = demo_pt and addr = 0 and n = 1 and k = demo_user and pi' = pi and p = "Done 1" and woken = woken and i = 0] w(1) by simp
  then have "woken = [PipeRead 7]" using w(2) by (cases woken) auto
  moreover obtain pi' j where f: "pipewrite_from 7 demo_pt 0 513 False demo_user 0 ?p = Ok (pi', Blocked j (PipeWrite 7), [PipeRead 7])"
    using pipewrite_fills [OF demo_space demo_long_buf, of ?p 0 7 False] pipe_inv_new [OF demo_data] by (auto simp: new_pipe_def)
  have "pipe_step 7 (?p, {}, {}) (pi', sleepers (PipeRead 7) 4 (Blocked j (PipeWrite 7)) [PipeRead 7] {},
      sleepers (PipeWrite 7) 4 (Blocked j (PipeWrite 7)) [PipeRead 7] {})"
    by (rule pipe_step.pwrite [OF _ _ _ f]) (simp_all add: new_pipe_def)
  then have s': "(pipe_step 7)\<^sup>*\<^sup>* (?p, {}, {}) (pi', {}, {4})" by (simp add: sleepers_def r_into_rtranclp)
  moreover have "pipe_full pi'" using pipe_no_lost_wakeup [OF s' demo_data] by simp
  ultimately show ?thesis using s w(1) by blast
qed



end
