(* ===== verification/Uart.thy ===== *)
theory Uart
  imports Ring
begin

text \<open>
  The UART driver, \<^verbatim>\<open>kernel/uart.c\<close> (the interrupt handler \<^verbatim>\<open>uartintr\<close> is with the console,
  which it calls). The device is a parameter: \<open>lsr n\<close> and \<open>rhr n\<close> are the values of the
  \<open>n\<close>-th read of the line status and the receive register, any functions; \<open>written\<close> is the
  sequence of register writes. Busy-waiting loops poll at most \<open>fuel\<close> times.
\<close>

section \<open>Registers\<close>

record uart_hw =
  lsr :: "nat \<Rightarrow> u8"
  nlsr :: nat
  rhr :: "nat \<Rightarrow> u8"
  nrhr :: nat
  written :: "(nat \<times> u8) list"

abbreviation RHR :: nat where "RHR \<equiv> 0"
abbreviation THR :: nat where "THR \<equiv> 0"
abbreviation IER :: nat where "IER \<equiv> 1"
abbreviation FCR :: nat where "FCR \<equiv> 2"
abbreviation LCR :: nat where "LCR \<equiv> 3"

definition IER_TX_ENABLE :: u8 where "IER_TX_ENABLE = 1"
definition IER_RX_ENABLE :: u8 where "IER_RX_ENABLE = 2"
definition FCR_FIFO_ENABLE :: u8 where "FCR_FIFO_ENABLE = 1"
definition FCR_FIFO_CLEAR :: u8 where "FCR_FIFO_CLEAR = 6"
definition LCR_EIGHT_BITS :: u8 where "LCR_EIGHT_BITS = 3"
definition LCR_BAUD_LATCH :: u8 where "LCR_BAUD_LATCH = 0x80"
definition LSR_RX_READY :: u8 where "LSR_RX_READY = 1"
definition LSR_TX_IDLE :: u8 where "LSR_TX_IDLE = 0x20"

definition WriteReg :: "nat \<Rightarrow> u8 \<Rightarrow> uart_hw \<Rightarrow> uart_hw" where
  "WriteReg reg v hw = hw\<lparr>written := written hw @ [(reg, v)]\<rparr>"

definition ReadLSR :: "uart_hw \<Rightarrow> u8 \<times> uart_hw" where
  "ReadLSR hw = (lsr hw (nlsr hw), hw\<lparr>nlsr := nlsr hw + 1\<rparr>)"

definition ReadRHR :: "uart_hw \<Rightarrow> u8 \<times> uart_hw" where
  "ReadRHR hw = (rhr hw (nrhr hw), hw\<lparr>nrhr := nrhr hw + 1\<rparr>)"

section \<open>The driver\<close>

abbreviation UART_TX_BUF_SIZE :: nat where "UART_TX_BUF_SIZE \<equiv> 32"

record uart =
  hw :: uart_hw
  uart_tx_buf :: "u8 list"
  uart_tx_w :: nat
  uart_tx_r :: nat

definition uartinit :: "uart \<Rightarrow> uart" where
  "uartinit u =
     u\<lparr>hw := (WriteReg IER (IER_TX_ENABLE OR IER_RX_ENABLE) \<circ>
              WriteReg FCR (FCR_FIFO_ENABLE OR FCR_FIFO_CLEAR) \<circ>
              WriteReg LCR LCR_EIGHT_BITS \<circ>
              WriteReg 1 0 \<circ>
              WriteReg 0 3 \<circ>
              WriteReg LCR LCR_BAUD_LATCH \<circ>
              WriteReg IER 0) (hw u)\<rparr>"

definition uart_full :: "uart \<Rightarrow> bool" where
  "uart_full u \<longleftrightarrow> (uart_tx_w u + 1) mod UART_TX_BUF_SIZE = uart_tx_r u"

definition uart_empty :: "uart \<Rightarrow> bool" where
  "uart_empty u \<longleftrightarrow> uart_tx_w u = uart_tx_r u"

definition uart_put :: "u8 \<Rightarrow> uart \<Rightarrow> uart" where
  "uart_put c u = u\<lparr>uart_tx_buf := (uart_tx_buf u)[uart_tx_w u := c],
                     uart_tx_w := (uart_tx_w u + 1) mod UART_TX_BUF_SIZE\<rparr>"

definition uart_get :: "uart \<Rightarrow> u8 \<times> uart" where
  "uart_get u = (uart_tx_buf u ! uart_tx_r u, u\<lparr>uart_tx_r := (uart_tx_r u + 1) mod UART_TX_BUF_SIZE\<rparr>)"

definition uart_pending :: "uart \<Rightarrow> nat" where
  "uart_pending u = (uart_tx_w u + UART_TX_BUF_SIZE - uart_tx_r u) mod UART_TX_BUF_SIZE"

text \<open>
  Each round of \<^verbatim>\<open>uartstart\<close> takes one character out of the buffer, so that \<open>rounds\<close> equal to
  the number of buffered characters are enough. It returns the channels woken.
\<close>

primrec uartstart_loop :: "nat \<Rightarrow> uart \<Rightarrow> uart \<times> chan list" where
  "uartstart_loop 0 u = (u, [])"
| "uartstart_loop (Suc rounds) u =
     (if uart_empty u then (u, [])
      else case ReadLSR (hw u) of (v, h) \<Rightarrow>
        if v AND LSR_TX_IDLE = 0 then (u\<lparr>hw := h\<rparr>, [])
        else case uart_get (u\<lparr>hw := h\<rparr>) of (c, u) \<Rightarrow>
          case uartstart_loop rounds (u\<lparr>hw := WriteReg THR c (hw u)\<rparr>) of (u, woken) \<Rightarrow>
            (u, UartTx # woken))"

definition uartstart :: "uart \<Rightarrow> uart \<times> chan list" where
  "uartstart u = uartstart_loop (uart_pending u) u"

text \<open>
  \<^verbatim>\<open>sleep\<close> with a spin lock of its own, called with \<open>held\<close> further spin locks held: it takes
  \<^verbatim>\<open>p->lock\<close> for its lock, and \<^verbatim>\<open>sched\<close> panics unless that is the only one.
\<close>

definition sleep_on :: "nat \<Rightarrow> chan \<Rightarrow> 'a kres" where
  "sleep_on held c = (if held + 1 \<noteq> 1 then Panic ''sched locks'' else Sleep c)"

text \<open>
  \<open>panicked\<close> is the flag \<^verbatim>\<open>panic\<close> sets, \<open>held\<close> the number of spin locks the caller holds. A
  sleeping caller starts over, with nothing changed.
\<close>

definition uartputc :: "nat \<Rightarrow> bool \<Rightarrow> u8 \<Rightarrow> uart \<Rightarrow> (uart \<times> chan list) kres" where
  "uartputc held panicked c u =
     (if panicked then Hang
      else if uart_full u then sleep_on held UartTx
      else Ok (uartstart (uart_put c u)))"

primrec uart_wait :: "nat \<Rightarrow> uart_hw \<Rightarrow> uart_hw kres" where
  "uart_wait 0 h = Hang"
| "uart_wait (Suc fuel) h =
     (case ReadLSR h of (v, h) \<Rightarrow> if v AND LSR_TX_IDLE = 0 then uart_wait fuel h else Ok h)"

definition uartputc_sync :: "nat \<Rightarrow> bool \<Rightarrow> u8 \<Rightarrow> uart_hw \<Rightarrow> uart_hw kres" where
  "uartputc_sync fuel panicked c h =
     (if panicked then Hang else kbind (uart_wait fuel h) (\<lambda>h. Ok (WriteReg THR c h)))"

definition uartgetc :: "uart_hw \<Rightarrow> u8 option \<times> uart_hw" where
  "uartgetc h =
     (case ReadLSR h of (v, h) \<Rightarrow>
        if v AND LSR_RX_READY \<noteq> 0 then case ReadRHR h of (c, h) \<Rightarrow> (Some c, h) else (None, h))"

section \<open>The transmit buffer is a bounded queue\<close>

definition uart_inv :: "uart \<Rightarrow> bool" where
  "uart_inv u \<longleftrightarrow> length (uart_tx_buf u) = UART_TX_BUF_SIZE \<and>
     uart_tx_w u < UART_TX_BUF_SIZE \<and> uart_tx_r u < UART_TX_BUF_SIZE"

definition uart_queue :: "uart \<Rightarrow> u8 list" where
  "uart_queue u = ring_slice (uart_tx_buf u) (uart_tx_r u) (uart_pending u)"

lemma length_uart_queue [simp]: "length (uart_queue u) = uart_pending u"
  by (simp add: uart_queue_def)

text \<open>Facts on positions modulo 32.\<close>

lemma pend_cases:
  "w < 32 \<Longrightarrow> r < 32 \<Longrightarrow> (w + 32 - r) mod 32 = (if r \<le> w then w - r else w + 32 - r)" for w r :: nat
  by (auto simp: mod_if)

lemma succ_mod: "w < 32 \<Longrightarrow> Suc w mod 32 = (if w = 31 then 0 else Suc w)" for w :: nat
  by (auto simp: mod_if)

interpretation uq: ring uart_inv uart_queue 31 uart_full uart_empty uart_put uart_get
proof unfold_locales
  fix s :: uart and x
  assume inv: "uart_inv s"
  have b: "length (uart_tx_buf s) = 32" "uart_tx_w s < 32" "uart_tx_r s < 32"
    using inv by (auto simp: uart_inv_def)
  note pend = uart_pending_def pend_cases [OF b(2,3)]
  show full: "uart_full s \<longleftrightarrow> length (uart_queue s) = 31"
    using b by (auto simp: uart_full_def pend succ_mod)
  show "length (uart_queue s) \<le> 31" using b by (auto simp: pend)
  show "uart_empty s \<longleftrightarrow> uart_queue s = []"
    using b by (auto simp: uart_empty_def uart_queue_def pend split: if_splits)
  {
    assume "\<not> uart_full s"
    then have lt: "uart_pending s < 31" using full b by (auto simp: pend split: if_splits)
    show i: "uart_inv (uart_put x s)" using b by (simp add: uart_inv_def uart_put_def)
    have pe: "uart_pending (uart_put x s) = Suc (uart_pending s)"
      using lt b by (auto simp: uart_pending_def uart_put_def succ_mod pend_cases split: if_splits)
    have "uart_tx_w s = (uart_tx_r s + uart_pending s) mod 32" using b by (auto simp: pend mod_if)
    then show "uart_queue (uart_put x s) = uart_queue s @ [x]"
      using ring_slice_put [of "uart_pending s" "uart_tx_buf s" "uart_tx_w s" "uart_tx_r s" x] lt b pe
      by (simp add: uart_queue_def) (simp add: uart_put_def)
  next
    assume "\<not> uart_empty s"
    then have pos: "0 < uart_pending s" using b by (auto simp: uart_empty_def pend)
    show "uart_inv (snd (uart_get s))" using b by (simp add: uart_inv_def uart_get_def)
    have pe: "uart_pending (snd (uart_get s)) = uart_pending s - 1"
      using pos b by (auto simp: uart_pending_def uart_get_def succ_mod pend_cases split: if_splits)
    have "ring_slice (uart_tx_buf s) (Suc (uart_tx_r s) mod 32) n = ring_slice (uart_tx_buf s) (Suc (uart_tx_r s)) n" for n
      using b by (intro ring_slice_mod) simp
    then show "uart_queue s = fst (uart_get s) # uart_queue (snd (uart_get s))"
      using ring_slice_Cons [OF pos, of "uart_tx_buf s" "uart_tx_r s"] b pe
      by (simp add: uart_queue_def) (simp add: uart_get_def)
  }
qed

section \<open>Characters reach the device in order\<close>

text \<open>The characters stored into the transmit register.\<close>

definition sent :: "uart \<Rightarrow> u8 list" where
  "sent u = map snd (filter (\<lambda>(reg, v). reg = THR) (written (hw u)))"

lemma uart_queue_hw [simp]: "uart_queue (u\<lparr>hw := h\<rparr>) = uart_queue u" "uart_inv (u\<lparr>hw := h\<rparr>) = uart_inv u"
    "uart_empty (u\<lparr>hw := h\<rparr>) = uart_empty u" "uart_pending (u\<lparr>hw := h\<rparr>) = uart_pending u"
  by (simp_all add: uart_queue_def uart_inv_def uart_empty_def uart_pending_def)

lemma uart_get_hw: "uart_get (u\<lparr>hw := h\<rparr>) = (fst (uart_get u), (snd (uart_get u))\<lparr>hw := h\<rparr>)"
  by (simp add: uart_get_def)

lemma sent_write: "sent (u\<lparr>hw := WriteReg THR c h\<rparr>) = sent (u\<lparr>hw := h\<rparr>) @ [c]"
  by (simp add: sent_def WriteReg_def)

text \<open>The device's view of a round; \<open>rounds\<close> beyond the number of buffered characters change nothing.\<close>

lemma uartstart_loop_fifo:
  assumes "uart_inv u" "uart_pending u \<le> rounds" "uartstart_loop rounds u = (u', woken)"
  shows "uart_inv u' \<and> sent u @ uart_queue u = sent u' @ uart_queue u' \<and>
    length (sent u) \<le> length (sent u') \<and> woken = replicate (length (sent u') - length (sent u)) UartTx \<and>
    (uart_queue u' = [] \<or> lsr (hw u') (nlsr (hw u') - 1) AND LSR_TX_IDLE = 0)"
  using assms
proof (induction rounds arbitrary: u u' woken)
  case 0
  then show ?case by (simp add: uart_queue_def)
next
  case (Suc n)
  show ?case
  proof (cases "uart_empty u")
    case True
    then show ?thesis using Suc.prems uq.empty_iff by auto
  next
    case False
    let ?v = "lsr (hw u) (nlsr (hw u))"
    let ?h = "(hw u)\<lparr>nlsr := nlsr (hw u) + 1\<rparr>"
    have r: "ReadLSR (hw u) = (?v, ?h)" by (simp add: ReadLSR_def)
    show ?thesis
    proof (cases "?v AND LSR_TX_IDLE = 0")
      case True
      then have "u' = u\<lparr>hw := ?h\<rparr>" "woken = []" using Suc.prems(3) False r by auto
      then show ?thesis using Suc.prems(1) True by (simp add: sent_def)
    next
      case idle: False
      obtain c u1 where g: "uart_get u = (c, u1)" by fastforce
      let ?u1 = "u1\<lparr>hw := WriteReg THR c ?h\<rparr>"
      obtain w where l: "uartstart_loop n ?u1 = (u', w)" "woken = UartTx # w"
        using Suc.prems(3) False idle r g by (auto simp: uart_get_hw split: prod.splits)
      have i: "uart_inv ?u1" "uart_queue u = c # uart_queue ?u1"
        using uq.get_inv [OF Suc.prems(1) False] uq.get_queue [OF Suc.prems(1) False] g by auto
      have "uart_pending ?u1 \<le> n" using i(2) Suc.prems(2) length_uart_queue by (metis Suc_le_mono length_Cons)
      note IH = Suc.IH [OF i(1) this l(1)]
      have su: "sent ?u1 = sent u @ [c]" by (simp add: sent_def WriteReg_def)
      then have "length (sent u) < length (sent u')" using IH by simp
      then have "UartTx # replicate (length (sent u') - Suc (length (sent u))) UartTx =
          replicate (length (sent u') - length (sent u)) UartTx"
        by (metis Suc_diff_Suc replicate_Suc)
      then show ?thesis using IH su i(2) l(2) by simp
    qed
  qed
qed

lemma uartstart_fifo:
  "uart_inv u \<Longrightarrow> uartstart u = (u', woken) \<Longrightarrow>
    uart_inv u' \<and> sent u @ uart_queue u = sent u' @ uart_queue u' \<and>
    length (sent u) \<le> length (sent u') \<and> woken = replicate (length (sent u') - length (sent u)) UartTx \<and>
    (uart_queue u' = [] \<or> lsr (hw u') (nlsr (hw u') - 1) AND LSR_TX_IDLE = 0)"
  using uartstart_loop_fifo [of u "uart_pending u"] by (simp add: uartstart_def)

text \<open>
  Histories of the transmitter: \<^verbatim>\<open>uartputc\<close> calls that return and \<^verbatim>\<open>uartstart\<close> calls by the
  interrupt handler, in any order, against any device. \<open>ws\<close> are the characters given to
  \<^verbatim>\<open>uartputc\<close> so far.
\<close>

inductive uart_run :: "uart \<Rightarrow> u8 list \<Rightarrow> bool" where
  start: "length (uart_tx_buf u) = UART_TX_BUF_SIZE \<Longrightarrow> uart_tx_w u = 0 \<Longrightarrow> uart_tx_r u = 0 \<Longrightarrow> sent u = [] \<Longrightarrow>
    uart_run u []"
| putc: "uart_run u ws \<Longrightarrow> uartputc held False c u = Ok (u', woken) \<Longrightarrow> uart_run u' (ws @ [c])"
| intr: "uart_run u ws \<Longrightarrow> uartstart u = (u', woken) \<Longrightarrow> uart_run u' ws"

lemma uart_run_inv: "uart_run u ws \<Longrightarrow> uart_inv u \<and> ws = sent u @ uart_queue u"
proof (induction rule: uart_run.induct)
  case (start u)
  then show ?case by (simp add: uart_inv_def uart_queue_def uart_pending_def)
next
  case (putc u ws held c u' woken)
  then have nf: "\<not> uart_full u" "uartstart (uart_put c u) = (u', woken)"
    by (auto simp: uartputc_def sleep_on_def split: if_splits)
  have "sent (uart_put c u) = sent u" by (simp add: sent_def uart_put_def)
  then show ?case
    using uartstart_fifo [OF uq.put_inv [OF _ nf(1)] nf(2)] uq.put_queue [of u c] nf(1) putc.IH by simp
next
  case (intr u ws u' woken)
  then show ?case using uartstart_fifo [of u u' woken] by simp
qed

text \<open>
  C20. The UART transmitter sends what it was given: in any history the characters stored into the transmit register followed
  by those in the buffer are the characters of the \<^verbatim>\<open>uartputc\<close> calls, in order. At most 31 wait. A call of
  \<^verbatim>\<open>uartputc\<close> stores its character if fewer wait; if 31 wait it sleeps when its caller holds no spin lock, and panics in
  \<^verbatim>\<open>sched\<close> when the caller holds one. After a further \<^verbatim>\<open>uartstart\<close> the buffer is empty unless the device reported it was busy.
\<close>

theorem uart_transmits_in_order:
  assumes "uart_run u ws"
  shows "ws = sent u @ uart_queue u \<and> length (uart_queue u) \<le> 31 \<and>
    (length (uart_queue u) < 31 \<longrightarrow> (\<exists>u' woken. uartputc held False c u = Ok (u', woken) \<and> sent u' @ uart_queue u' = ws @ [c])) \<and>
    (length (uart_queue u) = 31 \<longrightarrow> uartputc held False c u = (if held = 0 then Sleep UartTx else Panic ''sched locks'')) \<and>
    (\<forall>u' woken. uartstart u = (u', woken) \<longrightarrow>
       uart_queue u' = [] \<or> lsr (hw u') (nlsr (hw u') - 1) AND LSR_TX_IDLE = 0)"
proof -
  have inv: "uart_inv u" "ws = sent u @ uart_queue u" using uart_run_inv [OF assms] by auto
  note f = uq.full_iff [OF inv(1)]
  have "\<exists>u' woken. uartputc held False c u = Ok (u', woken) \<and> sent u' @ uart_queue u' = ws @ [c]" if t: "length (uart_queue u) < 31"
  proof -
    obtain u' woken where p: "uartputc held False c u = Ok (u', woken)"
      using f t by (cases "uartstart (uart_put c u)") (simp add: uartputc_def)
    then show ?thesis using uart_run_inv [OF uart_run.putc [OF assms p]] by simp
  qed
  moreover have "uartputc held False c u = (if held = 0 then Sleep UartTx else Panic ''sched locks'')" if "length (uart_queue u) = 31"
    using f that by (simp add: uartputc_def sleep_on_def)
  ultimately show ?thesis using inv uq.bounded [OF inv(1)] uartstart_fifo [OF inv(1)] by blast
qed

definition demo_uart :: uart where
  "demo_uart = \<lparr>hw = \<lparr>lsr = (\<lambda>n. if n = 0 then 0x20 else 0), nlsr = 0, rhr = (\<lambda>_. 0), nrhr = 0, written = []\<rparr>,
     uart_tx_buf = replicate 32 0, uart_tx_w = 0, uart_tx_r = 0\<rparr>"

theorem uart_transmits_in_order_witness:
  "\<exists>u w. uartputc 0 False 65 demo_uart = Ok (u, w) \<and> uart_run u [65] \<and> [65] = sent u @ uart_queue u"
proof -
  have s: "uart_run demo_uart []" by (rule uart_run.start) (simp_all add: demo_uart_def sent_def)
  have "\<not> uart_full demo_uart" by (simp add: uart_full_def demo_uart_def)
  then obtain u w where p: "uartputc 0 False 65 demo_uart = Ok (u, w)"
    by (cases "uartstart (uart_put 65 demo_uart)") (simp add: uartputc_def)
  have r: "uart_run u [65]" using uart_run.putc [OF s p] by simp
  show ?thesis using uart_transmits_in_order [OF r] p r by auto
qed

end
