(* ===== verification/Ucopy.thy ===== *)
theory Ucopy
  imports Vm_Copy
begin

text \<open>
  \<^verbatim>\<open>either_copyout\<close> and \<^verbatim>\<open>either_copyin\<close> of \<^verbatim>\<open>kernel/proc.c\<close>: copies to and from an address that is
  a user address or a kernel address. \<open>pagetable\<close> is that of \<^verbatim>\<open>myproc()\<close>.
\<close>

definition either_copyout :: "bool \<Rightarrow> u64 \<Rightarrow> u64 \<Rightarrow> u8 list \<Rightarrow> kmem \<Rightarrow> (kmem \<times> int) kres" where
  "either_copyout user_dst pagetable dst src k =
     (if user_dst then copyout pagetable dst src k
      else Ok (k\<lparr>ram := mwrite (ram k) dst src\<rparr>, 0))"

definition either_copyin :: "bool \<Rightarrow> u64 \<Rightarrow> u64 \<Rightarrow> nat \<Rightarrow> kmem \<Rightarrow> (u8 list \<times> int) kres" where
  "either_copyin user_src pagetable src len k =
     (if user_src then copyin pagetable src len k else Ok (mread (ram k) src len, 0))"

lemma either_kernel_roundtrip:
  "length bs \<le> 2 ^ 64 \<Longrightarrow> either_copyout False pt a bs k = Ok (k', r) \<Longrightarrow>
    r = 0 \<and> either_copyin False pt' a (length bs) k' = Ok (bs, 0)"
  by (auto simp: either_copyout_def either_copyin_def mread_mwrite_same)

end
