(* ===== verification/Console.thy ===== *)
theory Console
  imports Uart Ucopy
begin

text \<open>
  Console input and output, \<^verbatim>\<open>kernel/console.c\<close>, with \<^verbatim>\<open>uartintr\<close> of \<^verbatim>\<open>kernel/uart.c\<close>. The indices
  \<^verbatim>\<open>r\<close>, \<^verbatim>\<open>w\<close>, \<^verbatim>\<open>e\<close> are 32-bit counters that wrap around. \<^verbatim>\<open>procdump\<close> (control-P) is an argument:
  it only prints.
\<close>

section \<open>Operations\<close>

abbreviation INPUT_BUF :: nat where "INPUT_BUF \<equiv> 128"

record cons =
  cbuf :: "u8 list"
  c_r :: u32
  c_w :: u32
  c_e :: u32

definition ctrl :: "u8 \<Rightarrow> u8" where
  "ctrl x = x - 0x40"

abbreviation NL :: u8 where "NL \<equiv> 10"
abbreviation CTRL_D :: u8 where "CTRL_D \<equiv> ctrl 0x44"
abbreviation CTRL_H :: u8 where "CTRL_H \<equiv> ctrl 0x48"
abbreviation CTRL_P :: u8 where "CTRL_P \<equiv> ctrl 0x50"
abbreviation CTRL_U :: u8 where "CTRL_U \<equiv> ctrl 0x55"

datatype outchar = Ch u8 | BACKSPACE

fun consputc :: "nat \<Rightarrow> bool \<Rightarrow> outchar \<Rightarrow> uart_hw \<Rightarrow> uart_hw kres" where
  "consputc fuel panicked BACKSPACE h =
     kbind (uartputc_sync fuel panicked 8 h) (\<lambda>h.
     kbind (uartputc_sync fuel panicked 0x20 h) (\<lambda>h.
       uartputc_sync fuel panicked 8 h))"
| "consputc fuel panicked (Ch c) h = uartputc_sync fuel panicked c h"

text \<open>\<^verbatim>\<open>consolewrite\<close> calls \<^verbatim>\<open>uartputc\<close> with \<^verbatim>\<open>cons.lock\<close> held.\<close>

function consolewrite_from :: "bool \<Rightarrow> bool \<Rightarrow> u64 \<Rightarrow> u64 \<Rightarrow> int \<Rightarrow> int \<Rightarrow> kmem \<Rightarrow> uart \<Rightarrow> (uart \<times> int \<times> chan list) kres" where
  "consolewrite_from panicked user_src pagetable src n i k u =
     (if i < n
      then kbind (either_copyin user_src pagetable (src + of_int i) 1 k) (\<lambda>(c, r).
        if r = - 1 then Ok (u, i, [])
        else kbind (uartputc 1 panicked (hd c) u) (\<lambda>(u, woken).
          kbind (consolewrite_from panicked user_src pagetable src n (i + 1) k u) (\<lambda>(u, r, woken').
            Ok (u, r, woken @ woken'))))
      else Ok (u, i, []))"
  by pat_completeness auto
termination
  by (relation "measure (\<lambda>(panicked, us, pt, src, n, i, k, u). nat (n - i))") auto

definition consolewrite :: "bool \<Rightarrow> bool \<Rightarrow> u64 \<Rightarrow> u64 \<Rightarrow> int \<Rightarrow> kmem \<Rightarrow> uart \<Rightarrow> (uart \<times> int \<times> chan list) kres" where
  "consolewrite panicked user_src pagetable src n k u = consolewrite_from panicked user_src pagetable src n 0 k u"

text \<open>
  \<^verbatim>\<open>consoleread\<close> from the point where \<open>n\<close> of \<open>target\<close> characters are still wanted: the value
  returned, or the \<open>n\<close> at which it sleeps for input and is resumed.
\<close>

datatype cons_progress = Returned int | Waiting int

function consoleread_from :: "bool \<Rightarrow> u64 \<Rightarrow> u64 \<Rightarrow> int \<Rightarrow> bool \<Rightarrow> int \<Rightarrow> kmem \<Rightarrow> cons \<Rightarrow> (kmem \<times> cons \<times> cons_progress) kres" where
  "consoleread_from user_dst pagetable dst target killed n k s =
     (if n > 0
      then if c_r s = c_w s
        then if killed then Ok (k, s, Returned (- 1)) else Ok (k, s, Waiting n)
        else let c = cbuf s ! (unat (c_r s) mod INPUT_BUF);
                 s = s\<lparr>c_r := c_r s + 1\<rparr> in
          if c = CTRL_D
          then Ok (k, if n < target then s\<lparr>c_r := c_r s - 1\<rparr> else s, Returned (target - n))
          else kbind (either_copyout user_dst pagetable (dst + of_int (target - n)) [c] k) (\<lambda>(k, r).
            if r = - 1 then Ok (k, s, Returned (target - n))
            else if c = NL then Ok (k, s, Returned (target - (n - 1)))
            else consoleread_from user_dst pagetable dst target killed (n - 1) k s)
      else Ok (k, s, Returned (target - n)))"
  by pat_completeness auto
termination
  by (relation "measure (\<lambda>(ud, pt, dst, target, killed, n, k, s). nat n)") auto

definition consoleread :: "bool \<Rightarrow> u64 \<Rightarrow> u64 \<Rightarrow> int \<Rightarrow> bool \<Rightarrow> kmem \<Rightarrow> cons \<Rightarrow> (kmem \<times> cons \<times> cons_progress) kres" where
  "consoleread user_dst pagetable dst n killed k s = consoleread_from user_dst pagetable dst n killed n k s"

function kill_line :: "nat \<Rightarrow> bool \<Rightarrow> cons \<Rightarrow> uart_hw \<Rightarrow> (cons \<times> uart_hw) kres" where
  "kill_line fuel panicked s h =
     (if c_e s \<noteq> c_w s \<and> cbuf s ! (unat (c_e s - 1) mod INPUT_BUF) \<noteq> NL
      then kbind (consputc fuel panicked BACKSPACE h) (\<lambda>h. kill_line fuel panicked (s\<lparr>c_e := c_e s - 1\<rparr>) h)
      else Ok (s, h))"
  by pat_completeness auto
termination
proof (relation "measure (\<lambda>(fuel, panicked, s, h). unat (c_e s - c_w s))")
  fix s :: cons
  assume "c_e s \<noteq> c_w s \<and> cbuf s ! (unat (c_e s - 1) mod 128) \<noteq> NL"
  then have "c_e s - c_w s \<noteq> 0" by simp
  then have "unat (c_e s - c_w s - 1) < unat (c_e s - c_w s)" by (rule measure_unat)
  then show "((fuel, panicked, s\<lparr>c_e := c_e s - 1\<rparr>, h'), (fuel, panicked, s, h)) \<in>
      measure (\<lambda>(fuel, panicked, s, h). unat (c_e s - c_w s))" for fuel panicked h h'
    by (simp add: algebra_simps)
qed simp

definition consoleintr :: "(uart_hw \<Rightarrow> uart_hw kres) \<Rightarrow> nat \<Rightarrow> bool \<Rightarrow> u8 \<Rightarrow> cons \<Rightarrow> uart_hw \<Rightarrow> (cons \<times> uart_hw \<times> chan list) kres" where
  "consoleintr procdump fuel panicked c s h =
     (if c = CTRL_P then kbind (procdump h) (\<lambda>h. Ok (s, h, []))
      else if c = CTRL_U then kbind (kill_line fuel panicked s h) (\<lambda>(s, h). Ok (s, h, []))
      else if c = CTRL_H \<or> c = 0x7f
      then if c_e s \<noteq> c_w s
        then kbind (consputc fuel panicked BACKSPACE h) (\<lambda>h. Ok (s\<lparr>c_e := c_e s - 1\<rparr>, h, []))
        else Ok (s, h, [])
      else if c \<noteq> 0 \<and> c_e s - c_r s < 128
      then let c = (if c = 13 then NL else c) in
        kbind (consputc fuel panicked (Ch c) h) (\<lambda>h.
          let s = s\<lparr>cbuf := (cbuf s)[unat (c_e s) mod INPUT_BUF := c], c_e := c_e s + 1\<rparr> in
          if c = NL \<or> c = CTRL_D \<or> c_e s = c_r s + 128
          then Ok (s\<lparr>c_w := c_e s\<rparr>, h, [ConsRead])
          else Ok (s, h, []))
      else Ok (s, h, []))"

text \<open>\<open>uartintr\<close> reads at most \<open>fuel\<close> characters that are ready.\<close>

primrec uartintr_read :: "nat \<Rightarrow> (uart_hw \<Rightarrow> uart_hw kres) \<Rightarrow> nat \<Rightarrow> bool \<Rightarrow> cons \<Rightarrow> uart \<Rightarrow> (cons \<times> uart \<times> chan list) kres" where
  "uartintr_read 0 procdump polls panicked s u = Hang"
| "uartintr_read (Suc fuel) procdump polls panicked s u =
     (case uartgetc (hw u) of
        (None, h) \<Rightarrow> Ok (s, u\<lparr>hw := h\<rparr>, [])
      | (Some c, h) \<Rightarrow>
          kbind (consoleintr procdump polls panicked c s h) (\<lambda>(s, h, woken).
          kbind (uartintr_read fuel procdump polls panicked s (u\<lparr>hw := h\<rparr>)) (\<lambda>(s, u, woken').
            Ok (s, u, woken @ woken'))))"

definition uartintr :: "nat \<Rightarrow> (uart_hw \<Rightarrow> uart_hw kres) \<Rightarrow> nat \<Rightarrow> bool \<Rightarrow> cons \<Rightarrow> uart \<Rightarrow> (cons \<times> uart \<times> chan list) kres" where
  "uartintr fuel procdump polls panicked s u =
     kbind (uartintr_read fuel procdump polls panicked s u) (\<lambda>(s, u, woken).
       case uartstart u of (u, woken') \<Rightarrow> Ok (s, u, woken @ woken'))"

definition consoleinit :: "uart \<Rightarrow> uart" where
  "consoleinit u = uartinit u"

declare consolewrite_from.simps [simp del] consoleread_from.simps [simp del] kill_line.simps [simp del]

section \<open>The line discipline\<close>

text \<open>
  The input buffer as two lists: the committed characters a reader may take, and the line
  being edited.
\<close>

definition input :: "cons \<Rightarrow> u8 list" where
  "input s = ring_slice (cbuf s) (unat (c_r s)) (unat (c_e s - c_r s))"

definition committed :: "cons \<Rightarrow> u8 list" where
  "committed s = take (unat (c_w s - c_r s)) (input s)"

definition editing :: "cons \<Rightarrow> u8 list" where
  "editing s = drop (unat (c_w s - c_r s)) (input s)"

definition cons_inv :: "cons \<Rightarrow> bool" where
  "cons_inv s \<longleftrightarrow> length (cbuf s) = INPUT_BUF \<and>
     unat (c_w s - c_r s) \<le> unat (c_e s - c_r s) \<and> unat (c_e s - c_r s) \<le> INPUT_BUF \<and>
     NL \<notin> set (editing s) \<and> CTRL_D \<notin> set (editing s)"

fun line_edit :: "u8 \<Rightarrow> u8 list \<times> u8 list \<Rightarrow> u8 list \<times> u8 list" where
  "line_edit c (com, ed) =
     (if c = CTRL_P then (com, ed)
      else if c = CTRL_U then (com, [])
      else if c = CTRL_H \<or> c = 0x7f then (com, butlast ed)
      else if c \<noteq> 0 \<and> length com + length ed < INPUT_BUF
      then let c = (if c = 13 then NL else c) in
        if c = NL \<or> c = CTRL_D \<or> length com + length ed + 1 = INPUT_BUF
        then (com @ ed @ [c], []) else (com, ed @ [c])
      else (com, ed))"

lemma unat_pred: "(a :: u32) \<noteq> 0 \<Longrightarrow> unat (a - 1) = unat a - 1"
  by (metis unat_minus_one)

lemma unat_succ: "unat (a :: u32) < 1024 \<Longrightarrow> unat (a + 1) = Suc (unat a)"
  by (simp add: unat_word_ariths)

lemma unat_mod_128: "unat (a + b :: u32) mod 128 = (unat a + unat b) mod 128"
  by (simp add: unat_word_ariths mod_mod_cancel)

lemma ring_slice_butlast: "ring_slice buf r (k - 1) = butlast (ring_slice buf r k)"
  by (cases k) (simp_all add: ring_slice_Suc)

lemma length_input [simp]: "length (input s) = unat (c_e s - c_r s)"
  by (simp add: input_def)

lemma committed_editing: "input s = committed s @ editing s"
  by (simp add: committed_def editing_def)

lemma sub_unat:
  fixes w r e :: u32
  assumes "unat (w - r) \<le> unat (e - r)"
  shows "unat (e - w) = unat (e - r) - unat (w - r)" "e = w \<longleftrightarrow> unat (e - r) = unat (w - r)"
proof -
  have "e - w = (e - r) - (w - r)" by simp
  moreover have "unat ((e - r) - (w - r)) = unat (e - r) - unat (w - r)"
    by (rule unat_sub) (simp add: word_le_nat_alt assms)
  ultimately show "unat (e - w) = unat (e - r) - unat (w - r)" by (simp only:)
  have "e = w \<longleftrightarrow> e - r = w - r" by auto
  then show "e = w \<longleftrightarrow> unat (e - r) = unat (w - r)" by (simp only: word_unat_eq_iff)
qed

text \<open>Taking the last character back, and adding one.\<close>

lemma cons_erase:
  assumes inv: "cons_inv s" and ne: "c_e s \<noteq> c_w s"
  defines "s' \<equiv> s\<lparr>c_e := c_e s - 1\<rparr>"
  shows "cons_inv s'" "committed s' = committed s" "editing s' = butlast (editing s)" "editing s \<noteq> []"
    "cbuf s ! (unat (c_e s - 1) mod INPUT_BUF) = last (editing s)"
proof -
  let ?k = "unat (c_w s - c_r s)" and ?n = "unat (c_e s - c_r s)"
  have le: "?k \<le> ?n" "?n \<le> 128" "length (cbuf s) = 128" using inv by (auto simp: cons_inv_def)
  have lt: "?k < ?n" using sub_unat(2) [OF le(1)] ne le(1) by auto
  then have "c_e s - c_r s \<noteq> 0" by auto
  then have n': "unat (c_e s - 1 - c_r s) = ?n - 1" using unat_pred [of "c_e s - c_r s"] by (simp add: algebra_simps)
  have i: "input s' = butlast (input s)" unfolding input_def by (simp add: s'_def n' flip: ring_slice_butlast)
  show c: "committed s' = committed s" using lt by (simp add: committed_def i) (simp add: s'_def take_butlast)
  show e: "editing s' = butlast (editing s)" by (simp add: editing_def i) (simp add: s'_def drop_butlast)
  show ne: "editing s \<noteq> []" using lt by (simp add: editing_def)
  show "cons_inv s'"
    using inv lt n' unfolding cons_inv_def e by (auto simp: s'_def dest: in_set_butlastD)
  have "unat (c_e s - 1) mod 128 = (unat (c_r s) + (?n - 1)) mod 128"
    using unat_mod_128 [of "c_r s" "c_e s - 1 - c_r s"] n' by simp
  then have "cbuf s ! (unat (c_e s - 1) mod 128) = last (input s)"
    using lt ring_slice_Suc [of "cbuf s" "unat (c_r s)" "?n - 1"] le(3) by (simp add: input_def)
  then show "cbuf s ! (unat (c_e s - 1) mod INPUT_BUF) = last (editing s)"
    using ne committed_editing [of s] by simp
qed

lemma kill_line_eq:
  "cons_inv s \<Longrightarrow> kill_line fuel panicked s h = Ok (s', h') \<Longrightarrow>
    cons_inv s' \<and> committed s' = committed s \<and> editing s' = []"
proof (induction fuel panicked s h rule: kill_line.induct)
  case (1 fuel panicked s h)
  show ?case
  proof (cases "c_e s = c_w s")
    case True
    then have "s' = s" "editing s = []"
      using 1(3) by (auto simp: kill_line.simps [of fuel panicked s h] editing_def)
    then show ?thesis using 1(2) by simp
  next
    case False
    note er = cons_erase [OF 1(2) False]
    have "last (editing s) \<noteq> NL" using 1(2) last_in_set [OF er(4)] unfolding cons_inv_def by metis
    then have g: "c_e s \<noteq> c_w s \<and> cbuf s ! (unat (c_e s - 1) mod 128) \<noteq> NL" using er(5) False by simp
    then obtain h1 where h1: "consputc fuel panicked BACKSPACE h = Ok h1"
      "kill_line fuel panicked (s\<lparr>c_e := c_e s - 1\<rparr>) h1 = Ok (s', h')"
      using 1(3) by (auto simp: kill_line.simps [of fuel panicked s h] kbind_Ok_iff simp del: consputc.simps)
    show ?thesis using 1(1) [OF g h1(1) er(1) h1(2)] er(2) by simp
  qed
qed

lemma cons_store:
  fixes c :: u8
  assumes inv: "cons_inv s" and lt: "c_e s - c_r s < 128"
  defines "s' \<equiv> s\<lparr>cbuf := (cbuf s)[unat (c_e s) mod INPUT_BUF := c], c_e := c_e s + 1\<rparr>"
  shows "committed s' = committed s" "editing s' = editing s @ [c]" "length (cbuf s') = INPUT_BUF"
    "unat (c_e s' - c_r s') = Suc (unat (c_e s - c_r s))"
proof -
  let ?n = "unat (c_e s - c_r s)"
  have n: "?n < 128" using lt by (simp add: word_less_nat_alt)
  have le: "unat (c_w s - c_r s) \<le> ?n" "length (cbuf s) = 128" using inv by (auto simp: cons_inv_def)
  show e: "unat (c_e s' - c_r s') = Suc ?n"
    using unat_succ [of "c_e s - c_r s"] n by (simp add: s'_def algebra_simps)
  show "length (cbuf s') = INPUT_BUF" using le by (simp add: s'_def)
  have "unat (c_e s) mod 128 = (unat (c_r s) + ?n) mod 128"
    using unat_mod_128 [of "c_r s" "c_e s - c_r s"] by simp
  then have i: "input s' = input s @ [c]"
    using ring_slice_put [of ?n "cbuf s" "unat (c_e s) mod 128" "unat (c_r s)" c] n le(2) e
    by (simp add: input_def) (simp add: s'_def)
  show "committed s' = committed s" using le by (simp add: committed_def i) (simp add: s'_def)
  show "editing s' = editing s @ [c]" using le by (simp add: editing_def i) (simp add: s'_def)
qed

lemma c_e_full: "unat (c_e s - c_r s) \<le> INPUT_BUF \<Longrightarrow> c_e s = c_r s + 128 \<longleftrightarrow> unat (c_e s - c_r s) = INPUT_BUF"
proof -
  have "c_e s = c_r s + 128 \<longleftrightarrow> c_e s - c_r s = 128" by (auto simp: algebra_simps)
  then show ?thesis by (simp add: word_unat_eq_iff)
qed

lemma cons_commit:
  "unat (c_w s - c_r s) \<le> unat (c_e s - c_r s) \<Longrightarrow>
    committed (s\<lparr>c_w := c_e s\<rparr>) = committed s @ editing s \<and> editing (s\<lparr>c_w := c_e s\<rparr>) = []"
  by (simp add: committed_def editing_def) (simp add: input_def)

lemma cons_inv_length: "cons_inv s \<Longrightarrow> length (committed s) + length (editing s) = unat (c_e s - c_r s)"
  by (metis length_append committed_editing length_input)

lemma consoleintr_store:
  assumes inv: "cons_inv s" and lt: "c_e s - c_r s < 128" and c: "c \<notin> {CTRL_P, CTRL_U, CTRL_H, 0x7f, 0}"
    and ok: "consoleintr procdump fuel panicked c s h = Ok (s', h', woken)"
  shows "cons_inv s' \<and> (committed s', editing s') = line_edit c (committed s, editing s) \<and>
    (woken = [ConsRead] \<longleftrightarrow> committed s' \<noteq> committed s)"
proof -
  define ch where "ch = (if c = 13 then NL else c)"
  define t where "t = s\<lparr>cbuf := (cbuf s)[unat (c_e s) mod INPUT_BUF := ch], c_e := c_e s + 1\<rparr>"
  note st = cons_store [OF inv lt, of ch, folded t_def]
  let ?n = "unat (c_e s - c_r s)"
  have n: "?n < 128" using lt by (simp add: word_less_nat_alt)
  have wr: "c_w t = c_w s" "c_r t = c_r s" by (simp_all add: t_def)
  have le: "unat (c_w t - c_r t) \<le> unat (c_e t - c_r t)" using inv st(4) wr by (simp add: cons_inv_def)
  have ful: "c_e t = c_r t + 128 \<longleftrightarrow> Suc ?n = 128" using c_e_full [of t] st(4) n by simp
  have len: "length (committed s) + length (editing s) = ?n" using cons_inv_length [OF inv] .
  let ?commit = "ch = NL \<or> ch = CTRL_D \<or> c_e t = c_r t + 128"
  have s': "s' = (if ?commit then t\<lparr>c_w := c_e t\<rparr> else t)" "woken = (if ?commit then [ConsRead] else [])"
    using ok c lt unfolding consoleintr_def by (auto simp: kres_simps Let_def t_def ch_def split: if_splits)
  have le': "line_edit c (committed s, editing s) =
      (if ?commit then (committed s @ editing s @ [ch], []) else (committed s, editing s @ [ch]))"
    using c len n ful by (auto simp: ch_def Let_def)
  show ?thesis
  proof (cases ?commit)
    case True
    then have "s' = t\<lparr>c_w := c_e t\<rparr>" "woken = [ConsRead]" using s' by auto
    moreover have "cons_inv (t\<lparr>c_w := c_e t\<rparr>)"
      using cons_commit [OF le] st n by (simp add: cons_inv_def)
    ultimately show ?thesis using cons_commit [OF le] st le' True by simp
  next
    case False
    then have "cons_inv t" using inv st n le by (auto simp: cons_inv_def)
    then show ?thesis using s' st le' False by simp
  qed
qed

text \<open>
  C14. The console's input handler is a line editor on two lists, whatever the positions of the
  32-bit indices: control-U clears the line being edited, control-H and DEL take its last
  character back, any other character but NUL is added to it (carriage return as newline)
  if the buffer has room, and newline, control-D or the last free place commit the line to
  the readers, who are woken exactly then. Committed characters are never changed.
\<close>

theorem console_line_discipline:
  assumes "cons_inv s" "consoleintr procdump fuel panicked c s h = Ok (s', h', woken)"
  shows "cons_inv s' \<and> (committed s', editing s') = line_edit c (committed s, editing s) \<and>
    (woken = [ConsRead] \<longleftrightarrow> committed s' \<noteq> committed s) \<and> (\<exists>new. committed s' = committed s @ new)"
proof -
  consider "c = CTRL_P" | "c = CTRL_U" | "c \<in> {CTRL_H, 0x7f}"
    | "c \<notin> {CTRL_P, CTRL_U, CTRL_H, 0x7f, 0}" "c_e s - c_r s < 128"
    | "c \<notin> {CTRL_P, CTRL_U, CTRL_H, 0x7f}" "c = 0 \<or> \<not> c_e s - c_r s < 128" by blast
  then have "cons_inv s' \<and> (committed s', editing s') = line_edit c (committed s, editing s) \<and>
    (woken = [ConsRead] \<longleftrightarrow> committed s' \<noteq> committed s)"
  proof cases
    case 1
    then show ?thesis using assms by (auto simp: consoleintr_def kres_simps)
  next
    case 2
    then have "CTRL_U \<noteq> CTRL_P" by (simp add: ctrl_def)
    then show ?thesis using assms 2 kill_line_eq [OF assms(1)] by (auto simp: consoleintr_def kres_simps)
  next
    case 3
    then have ne: "c \<noteq> CTRL_P" "c \<noteq> CTRL_U" by (auto simp: ctrl_def)
    show ?thesis
    proof (cases "c_e s = c_w s")
      case True
      then have "editing s = []" by (simp add: editing_def)
      then show ?thesis using assms 3 ne True by (auto simp: consoleintr_def kres_simps)
    next
      case False
      then show ?thesis using assms 3 ne cons_erase [OF assms(1) False]
        by (auto simp: consoleintr_def kres_simps)
    qed
  next
    case 4
    then show ?thesis using consoleintr_store [OF assms(1) 4(2,1) assms(2)] by blast
  next
    case 5
    then have "\<not> (c \<noteq> 0 \<and> length (committed s) + length (editing s) < 128)"
      using cons_inv_length [OF assms(1)] by (auto simp: word_less_nat_alt)
    moreover have "s' = s" "woken = []" using assms(2) 5 by (auto simp: consoleintr_def split: if_splits)
    ultimately show ?thesis using assms(1) 5 by auto
  qed
  moreover have "\<exists>new. fst (line_edit c (com, ed)) = com @ new" for com ed by (auto simp: Let_def)
  ultimately show ?thesis by (metis fst_conv)
qed

definition demo_cons :: cons where
  "demo_cons = \<lparr>cbuf = replicate 128 0, c_r = 0xffffffff, c_w = 0xffffffff, c_e = 0xffffffff\<rparr>"

lemma demo_cons: "length (cbuf demo_cons) = 128" "c_r demo_cons = 0xffffffff" "c_w demo_cons = 0xffffffff" "c_e demo_cons = 0xffffffff"
  by (simp_all add: demo_cons_def)

theorem console_line_discipline_witness:
  "\<exists>s' h'. consoleintr Ok 1 False 13 demo_cons (hw demo_uart) = Ok (s', h', [ConsRead]) \<and>
    committed s' = [NL] \<and> editing s' = []"
proof -
  have i: "cons_inv demo_cons" "committed demo_cons = []" "editing demo_cons = []"
    by (simp_all add: cons_inv_def demo_cons editing_def committed_def input_def)
  obtain h' where h: "uartputc_sync 1 False NL (hw demo_uart) = Ok h'"
    by (simp add: uartputc_sync_def ReadLSR_def demo_uart_def LSR_TX_IDLE_def)
  have "\<exists>s'. consoleintr Ok 1 False 13 demo_cons (hw demo_uart) = Ok (s', h', [ConsRead])"
    unfolding consoleintr_def using h by (simp add: demo_cons ctrl_def)
  then obtain s' where s: "consoleintr Ok 1 False 13 demo_cons (hw demo_uart) = Ok (s', h', [ConsRead])" by blast
  have "(committed s', editing s') = line_edit 13 ([], [])"
    using console_line_discipline [OF i(1) s] i by simp
  then show ?thesis using s by (auto simp: ctrl_def)
qed

section \<open>Writing to a busy console\<close>

text \<open>
  C34. \<^verbatim>\<open>consolewrite\<close> calls \<^verbatim>\<open>uartputc\<close> with \<^verbatim>\<open>cons.lock\<close> held. When 31 characters are waiting in
  the transmit buffer, the next character of a console write does not wait for room: the
  kernel panics in \<^verbatim>\<open>sched\<close>, since two spin locks are held.
\<close>

theorem consolewrite_full_panics:
  assumes "uart_inv u" "length (uart_queue u) = 31" "0 < n"
    and "either_copyin user_src pagetable src 1 k = Ok ([c], 0)"
  shows "consolewrite False user_src pagetable src n k u = Panic ''sched locks''"
proof -
  have "uart_full u" using uq.full_iff [OF assms(1)] assms(2) by simp
  then show ?thesis
    using assms(3,4) by (simp add: consolewrite_def consolewrite_from.simps uartputc_def sleep_on_def)
qed

definition full_uart :: uart where
  "full_uart = \<lparr>hw = hw demo_uart, uart_tx_buf = replicate 32 0, uart_tx_w = 31, uart_tx_r = 0\<rparr>"

theorem consolewrite_full_panics_witness:
  "consolewrite False False 0 0 1 demo_user full_uart = Panic ''sched locks''"
proof -
  have "uart_inv full_uart" "length (uart_queue full_uart) = 31"
    by (simp_all add: uart_inv_def full_uart_def uart_pending_def)
  moreover have "either_copyin False 0 0 1 demo_user = Ok ([ram demo_user 0], 0)"
    by (simp add: either_copyin_def mread_Suc)
  ultimately show ?thesis by (intro consolewrite_full_panics) simp_all
qed

end
