(* ===== verification/Sleeplock.thy ===== *)
theory Sleeplock
  imports Xv6_Prelude
begin

text \<open>
  Sleeping locks, \<^verbatim>\<open>kernel/sleeplock.c\<close>. Each routine runs under the spin lock \<^verbatim>\<open>lk->lk\<close> and is
  one atomic step. \<open>pid\<close> is \<^verbatim>\<open>myproc()->pid\<close>; \<open>Sleep c\<close> is a caller that waits for the lock,
  \<open>c\<close> the channel (the address of the lock).
\<close>

record sleeplock =
  sl_locked :: bool
  sl_pid :: int

definition initsleeplock :: sleeplock where
  "initsleeplock = \<lparr>sl_locked = False, sl_pid = 0\<rparr>"

definition acquiresleep :: "chan \<Rightarrow> int \<Rightarrow> sleeplock \<Rightarrow> sleeplock kres" where
  "acquiresleep c pid lk =
     (if sl_locked lk then Sleep c else Ok \<lparr>sl_locked = True, sl_pid = pid\<rparr>)"

text \<open>\<open>releasesleep\<close> also wakes the processes that sleep on the lock.\<close>

definition releasesleep :: "sleeplock \<Rightarrow> sleeplock" where
  "releasesleep lk = \<lparr>sl_locked = False, sl_pid = 0\<rparr>"

definition holdingsleep :: "int \<Rightarrow> sleeplock \<Rightarrow> bool" where
  "holdingsleep pid lk \<longleftrightarrow> sl_locked lk \<and> sl_pid lk = pid"

lemmas sleeplock_defs = initsleeplock_def acquiresleep_def releasesleep_def holdingsleep_def

lemma releasesleep_eq: "\<not> sl_locked lk \<Longrightarrow> sl_pid lk = 0 \<Longrightarrow> acquiresleep c pid lk = Ok lk' \<Longrightarrow> releasesleep lk' = lk"
  by (auto simp: sleeplock_defs intro: sleeplock.equality)

end
