(* ===== verification/Bio.thy ===== *)
theory Bio
  imports Sleeplock
begin

text \<open>
  The buffer cache, \<^verbatim>\<open>kernel/bio.c\<close>. A buffer is named by its index in \<^verbatim>\<open>bcache.buf\<close>; index
  \<open>NBUF\<close> is the list head \<^verbatim>\<open>bcache.head\<close>, so that \<^verbatim>\<open>prev\<close> and \<^verbatim>\<open>next\<close> are indices. The disk is a
  map from block numbers to contents; \<open>disk_read\<close> and \<open>disk_write\<close> are what one completed
  request of \<^verbatim>\<open>virtio_disk_rw\<close> does. \<open>wtrace\<close> records the disk writes in the order they are
  done, \<open>curpid\<close> is \<^verbatim>\<open>myproc()->pid\<close>. Each routine is one step of the process that runs it: the
  spin lock \<^verbatim>\<open>bcache.lock\<close> is held over every access to the list.
\<close>

section \<open>State\<close>

abbreviation BSIZE :: nat where "BSIZE \<equiv> 1024"
abbreviation NBUF :: nat where "NBUF \<equiv> 30"
abbreviation bhead :: nat where "bhead \<equiv> NBUF"

type_synonym block = "u8 list"

record buf =
  valid :: bool
  bdev :: u32
  blockno :: u32
  blk :: sleeplock
  refcnt :: u32
  prev :: nat
  nxt :: nat
  bdata :: block

record bst =
  bufs :: "nat \<Rightarrow> buf"
  disk :: "u32 \<Rightarrow> block"
  wtrace :: "(u32 \<times> block) list"
  curpid :: int

definition upd_buf :: "nat \<Rightarrow> (buf \<Rightarrow> buf) \<Rightarrow> 'a bst_scheme \<Rightarrow> 'a bst_scheme" where
  "upd_buf i f s = s\<lparr>bufs := (bufs s)(i := f (bufs s i))\<rparr>"

definition disk_read :: "nat \<Rightarrow> 'a bst_scheme \<Rightarrow> 'a bst_scheme" where
  "disk_read i s = upd_buf i (\<lambda>b. b\<lparr>bdata := disk s (blockno b)\<rparr>) s"

definition disk_write :: "nat \<Rightarrow> 'a bst_scheme \<Rightarrow> 'a bst_scheme" where
  "disk_write i s =
     (let b = bufs s i in
      s\<lparr>disk := (disk s)(blockno b := bdata b), wtrace := wtrace s @ [(blockno b, bdata b)]\<rparr>)"

section \<open>Operations\<close>

text \<open>The insertion after the head and the removal of \<^verbatim>\<open>brelse\<close>, store by store.\<close>

definition insert_head :: "nat \<Rightarrow> 'a bst_scheme \<Rightarrow> 'a bst_scheme" where
  "insert_head i s =
     (let s = upd_buf i (\<lambda>b. b\<lparr>nxt := nxt (bufs s bhead)\<rparr>) s;
          s = upd_buf i (\<lambda>b. b\<lparr>prev := bhead\<rparr>) s;
          s = upd_buf (nxt (bufs s bhead)) (\<lambda>b. b\<lparr>prev := i\<rparr>) s
      in upd_buf bhead (\<lambda>b. b\<lparr>nxt := i\<rparr>) s)"

definition unlink :: "nat \<Rightarrow> 'a bst_scheme \<Rightarrow> 'a bst_scheme" where
  "unlink i s =
     (let s = upd_buf (nxt (bufs s i)) (\<lambda>b. b\<lparr>prev := prev (bufs s i)\<rparr>) s
      in upd_buf (prev (bufs s i)) (\<lambda>b. b\<lparr>nxt := nxt (bufs s i)\<rparr>) s)"

primrec binit_loop :: "nat \<Rightarrow> 'a bst_scheme \<Rightarrow> 'a bst_scheme" where
  "binit_loop 0 s = s"
| "binit_loop (Suc n) s =
     insert_head n (upd_buf n (\<lambda>b. b\<lparr>blk := initsleeplock\<rparr>) (binit_loop n s))"

definition binit :: "'a bst_scheme \<Rightarrow> 'a bst_scheme" where
  "binit s =
     (let s = upd_buf bhead (\<lambda>b. b\<lparr>prev := bhead\<rparr>) s;
          s = upd_buf bhead (\<lambda>b. b\<lparr>nxt := bhead\<rparr>) s
      in binit_loop NBUF s)"

text \<open>
  The two loops of \<^verbatim>\<open>bget\<close> follow the list from the head until they are back at it; the list
  has \<open>NBUF\<close> buffers, so that \<open>NBUF\<close> steps are enough.
\<close>

primrec bget_cached :: "nat \<Rightarrow> 'a bst_scheme \<Rightarrow> u32 \<Rightarrow> u32 \<Rightarrow> nat \<Rightarrow> nat option" where
  "bget_cached 0 s dev bn b = None"
| "bget_cached (Suc fuel) s dev bn b =
     (if b = bhead then None
      else if bdev (bufs s b) = dev \<and> blockno (bufs s b) = bn then Some b
      else bget_cached fuel s dev bn (nxt (bufs s b)))"

primrec bget_unused :: "nat \<Rightarrow> 'a bst_scheme \<Rightarrow> nat \<Rightarrow> nat option" where
  "bget_unused 0 s b = None"
| "bget_unused (Suc fuel) s b =
     (if b = bhead then None
      else if refcnt (bufs s b) = 0 then Some b
      else bget_unused fuel s (prev (bufs s b)))"

definition lock_buf :: "nat \<Rightarrow> 'a bst_scheme \<Rightarrow> ('a bst_scheme \<times> nat) kres" where
  "lock_buf i s =
     kbind (acquiresleep (BufLock i) (curpid s) (blk (bufs s i))) (\<lambda>lk.
       Ok (upd_buf i (\<lambda>b. b\<lparr>blk := lk\<rparr>) s, i))"

definition bget :: "u32 \<Rightarrow> u32 \<Rightarrow> 'a bst_scheme \<Rightarrow> ('a bst_scheme \<times> nat) kres" where
  "bget dev bn s =
     (case bget_cached NBUF s dev bn (nxt (bufs s bhead)) of
        Some i \<Rightarrow> lock_buf i (upd_buf i (\<lambda>b. b\<lparr>refcnt := refcnt b + 1\<rparr>) s)
      | None \<Rightarrow>
          (case bget_unused NBUF s (prev (bufs s bhead)) of
             Some i \<Rightarrow>
               lock_buf i (upd_buf i (\<lambda>b. b\<lparr>bdev := dev, blockno := bn, valid := False, refcnt := 1\<rparr>) s)
           | None \<Rightarrow> Panic ''bget: no buffers''))"

definition bread :: "u32 \<Rightarrow> u32 \<Rightarrow> 'a bst_scheme \<Rightarrow> ('a bst_scheme \<times> nat) kres" where
  "bread dev bn s =
     kbind (bget dev bn s) (\<lambda>(s, i).
       if \<not> valid (bufs s i)
       then Ok (upd_buf i (\<lambda>b. b\<lparr>valid := True\<rparr>) (disk_read i s), i)
       else Ok (s, i))"

definition bwrite :: "nat \<Rightarrow> 'a bst_scheme \<Rightarrow> 'a bst_scheme kres" where
  "bwrite i s =
     (if \<not> holdingsleep (curpid s) (blk (bufs s i)) then Panic ''bwrite''
      else Ok (disk_write i s))"

definition brelse :: "nat \<Rightarrow> 'a bst_scheme \<Rightarrow> 'a bst_scheme kres" where
  "brelse i s =
     (if \<not> holdingsleep (curpid s) (blk (bufs s i)) then Panic ''brelse''
      else let s = upd_buf i (\<lambda>b. b\<lparr>blk := releasesleep (blk b)\<rparr>) s;
               s = upd_buf i (\<lambda>b. b\<lparr>refcnt := refcnt b - 1\<rparr>) s
           in Ok (if refcnt (bufs s i) = 0 then insert_head i (unlink i s) else s))"

definition bpin :: "nat \<Rightarrow> 'a bst_scheme \<Rightarrow> 'a bst_scheme" where
  "bpin i s = upd_buf i (\<lambda>b. b\<lparr>refcnt := refcnt b + 1\<rparr>) s"

definition bunpin :: "nat \<Rightarrow> 'a bst_scheme \<Rightarrow> 'a bst_scheme" where
  "bunpin i s = upd_buf i (\<lambda>b. b\<lparr>refcnt := refcnt b - 1\<rparr>) s"

text \<open>A store into the data of a buffer, as the users of the cache do it.\<close>

definition set_data :: "nat \<Rightarrow> block \<Rightarrow> 'a bst_scheme \<Rightarrow> 'a bst_scheme" where
  "set_data i x s = upd_buf i (\<lambda>b. b\<lparr>bdata := x\<rparr>) s"

section \<open>The doubly linked list\<close>

text \<open>\<open>dseg n p a xs e\<close>: from \<open>a\<close> the links \<open>n\<close> visit \<open>xs\<close> and then \<open>e\<close>, and \<open>p\<close> are the links back.\<close>

primrec dseg :: "(nat \<Rightarrow> nat) \<Rightarrow> (nat \<Rightarrow> nat) \<Rightarrow> nat \<Rightarrow> nat list \<Rightarrow> nat \<Rightarrow> bool" where
  "dseg n p a [] e \<longleftrightarrow> n a = e \<and> p e = a"
| "dseg n p a (x # xs) e \<longleftrightarrow> n a = x \<and> p x = a \<and> dseg n p x xs e"

lemma dseg_append: "dseg n p a (xs @ y # ys) e \<longleftrightarrow> dseg n p a xs y \<and> dseg n p y ys e"
  by (induction xs arbitrary: a) auto

lemma dseg_last: "dseg n p a xs e \<Longrightarrow> p e = last (a # xs)"
  by (induction xs arbitrary: a) auto

lemma dseg_cong:
  "(\<And>x. x \<in> set (a # xs) \<Longrightarrow> n x = n' x) \<Longrightarrow> (\<And>x. x \<in> set (xs @ [e]) \<Longrightarrow> p x = p' x) \<Longrightarrow>
    dseg n p a xs e = dseg n' p' a xs e"
proof (induction xs arbitrary: a)
  case (Cons x xs)
  have "dseg n p x xs e = dseg n' p' x xs e" by (rule Cons.IH) (use Cons.prems in auto)
  then show ?case using Cons.prems by simp
qed simp

lemma dseg_retarget:
  "dseg n p a xs e \<Longrightarrow> distinct (a # xs) \<Longrightarrow> b \<notin> set xs \<Longrightarrow>
    dseg (n(last (a # xs) := b)) (p(b := last (a # xs))) a xs b"
proof (induction xs arbitrary: a)
  case (Cons x xs)
  have "dseg (n(last (x # xs) := b)) (p(b := last (x # xs))) x xs b"
    by (rule Cons.IH) (use Cons.prems in auto)
  moreover have "a \<noteq> last (x # xs)" using Cons.prems(2) last_in_set [of "x # xs"] by (metis distinct.simps(2) list.discI)
  ultimately show ?case using Cons.prems by (auto simp: fun_upd_def)
qed simp

lemma dseg_remove:
  assumes "dseg n p h (xs @ y # ys) h" "distinct (h # xs @ y # ys)"
  shows "dseg (n(p y := n y)) (p(n y := p y)) h (xs @ ys) h"
proof -
  have seg: "dseg n p h xs y" "dseg n p y ys h" using assms(1) by (auto simp: dseg_append)
  have py: "p y = last (h # xs)" using dseg_last [OF seg(1)] .
  show ?thesis
  proof (cases ys)
    case Nil
    then have "n y = h" using seg(2) by simp
    then show ?thesis using dseg_retarget [OF seg(1), of h] assms(2) py Nil by simp
  next
    case (Cons z zs)
    then have ny: "n y = z" and rest: "dseg n p z zs h" using seg(2) by auto
    have "dseg (n(p y := z)) (p(z := p y)) h xs z"
      using dseg_retarget [OF seg(1), of z] assms(2) py Cons by auto
    moreover have "dseg (n(p y := z)) (p(z := p y)) z zs h"
    proof -
      have "p y \<in> set (h # xs)" using py by (metis last_in_set list.discI)
      then have "p y \<notin> set (z # zs)" using assms(2) Cons by auto
      then have "dseg n p z zs h = dseg (n(p y := z)) (p(z := p y)) z zs h"
        using assms(2) Cons by (intro dseg_cong) auto
      then show ?thesis using rest by simp
    qed
    ultimately show ?thesis using ny Cons by (simp add: dseg_append)
  qed
qed

lemma dseg_insert:
  assumes "dseg n p h xs h" "distinct (h # xs)" "y \<notin> set (h # xs)"
  shows "dseg (n(y := n h, h := y)) (p(y := h, n h := y)) h (y # xs) h"
proof (cases xs)
  case Nil
  then show ?thesis using assms by auto
next
  case (Cons z zs)
  then have "n h = z" "dseg n p z zs h" using assms(1) by auto
  moreover have "dseg n p z zs h = dseg (n(y := z, h := y)) (p(y := h, z := y)) z zs h"
    using assms Cons by (intro dseg_cong) auto
  ultimately show ?thesis using assms(3) Cons by auto
qed

definition dll :: "(nat \<Rightarrow> buf) \<Rightarrow> nat list \<Rightarrow> bool" where
  "dll f xs \<longleftrightarrow> dseg (\<lambda>i. nxt (f i)) (\<lambda>i. prev (f i)) bhead xs bhead \<and> distinct (bhead # xs)"

lemma dll_cong: "(\<And>i. nxt (f i) = nxt (g i)) \<Longrightarrow> (\<And>i. prev (f i) = prev (g i)) \<Longrightarrow> dll f xs = dll g xs"
  by (simp add: dll_def)

lemma upd_buf_apply: "bufs (upd_buf i f s) j = (if j = i then f (bufs s i) else bufs s j)"
  by (simp add: upd_buf_def)

lemma upd_buf_frame: "\<exists>g. upd_buf i f s = s\<lparr>bufs := g\<rparr>"
  by (auto simp: upd_buf_def)

lemma dll_unlink:
  assumes "dll (bufs s) (xs @ y # ys)"
  shows "dll (bufs (unlink y s)) (xs @ ys)"
proof -
  let ?n = "\<lambda>i. nxt (bufs s i)" and ?p = "\<lambda>i. prev (bufs s i)"
  have seg: "dseg ?n ?p bhead (xs @ y # ys) bhead" "distinct (bhead # xs @ y # ys)"
    using assms by (auto simp: dll_def)
  have "y \<noteq> ?n y"
  proof
    assume "y = ?n y"
    then have "dseg ?n ?p y ys bhead" "?n y = y" using seg(1) by (auto simp: dseg_append)
    then show False using seg(2) by (cases ys) auto
  qed
  then have "(\<lambda>i. nxt (bufs (unlink y s) i)) = ?n(?p y := ?n y)" "(\<lambda>i. prev (bufs (unlink y s) i)) = ?p(?n y := ?p y)"
    by (auto simp: unlink_def Let_def upd_buf_apply fun_eq_iff)
  then show ?thesis using dseg_remove [OF seg] seg(2) by (simp add: dll_def)
qed

lemma dll_insert_head:
  assumes "dll (bufs s) xs" "y \<notin> set (bhead # xs)"
  shows "dll (bufs (insert_head y s)) (y # xs)"
proof -
  let ?n = "\<lambda>i. nxt (bufs s i)" and ?p = "\<lambda>i. prev (bufs s i)"
  have "(\<lambda>i. nxt (bufs (insert_head y s) i)) = ?n(y := ?n bhead, bhead := y)"
    "(\<lambda>i. prev (bufs (insert_head y s) i)) = ?p(y := bhead, ?n bhead := y)"
    using assms(2) by (auto simp: insert_head_def Let_def upd_buf_apply fun_eq_iff)
  then show ?thesis using dseg_insert [of ?n ?p bhead xs y] assms by (simp add: dll_def)
qed

text \<open>The links are the only fields these change.\<close>

lemma unlink_fields:
  "valid (bufs (unlink y s) i) = valid (bufs s i)" "bdev (bufs (unlink y s) i) = bdev (bufs s i)"
  "blockno (bufs (unlink y s) i) = blockno (bufs s i)" "blk (bufs (unlink y s) i) = blk (bufs s i)"
  "refcnt (bufs (unlink y s) i) = refcnt (bufs s i)" "bdata (bufs (unlink y s) i) = bdata (bufs s i)"
  by (simp_all add: unlink_def Let_def upd_buf_apply)

lemma insert_head_fields:
  "valid (bufs (insert_head y s) i) = valid (bufs s i)" "bdev (bufs (insert_head y s) i) = bdev (bufs s i)"
  "blockno (bufs (insert_head y s) i) = blockno (bufs s i)" "blk (bufs (insert_head y s) i) = blk (bufs s i)"
  "refcnt (bufs (insert_head y s) i) = refcnt (bufs s i)" "bdata (bufs (insert_head y s) i) = bdata (bufs s i)"
  by (simp_all add: insert_head_def Let_def upd_buf_apply)

lemma bget_cached_find:
  "dseg (\<lambda>i. nxt (bufs s i)) p a xs bhead \<Longrightarrow> bhead \<notin> set xs \<Longrightarrow>
    bget_cached (length xs) s dev bn (nxt (bufs s a)) =
    find (\<lambda>i. bdev (bufs s i) = dev \<and> blockno (bufs s i) = bn) xs"
  by (induction xs arbitrary: a) auto

lemma bget_unused_find:
  "dseg n (\<lambda>i. prev (bufs s i)) a xs e \<Longrightarrow> bhead \<notin> set xs \<Longrightarrow> a = bhead \<Longrightarrow>
    bget_unused (length xs) s (prev (bufs s e)) = find (\<lambda>i. refcnt (bufs s i) = 0) (rev xs)"
proof (induction xs arbitrary: e rule: rev_induct)
  case (snoc y ys)
  have "prev (bufs s e) = y" "dseg n (\<lambda>i. prev (bufs s i)) a ys y"
    using snoc.prems(1) by (auto simp: dseg_append)
  then show ?case using snoc by auto
qed simp

section \<open>What the cache stands for\<close>

text \<open>
  \<open>cache_rel d s H P c\<close>: the cache of device \<open>d\<close> stands for the block contents \<open>c\<close>, with the
  blocks of \<open>H\<close> locked by the running process and block \<open>b\<close> pinned \<open>P b\<close> times. At most one
  buffer caches a block, a referenced block is cached, and a block that is neither locked
  nor pinned has its contents on disk, so that its buffer may be recycled.
\<close>

definition buf_ok :: "'a bst_scheme \<Rightarrow> u32 set \<Rightarrow> (u32 \<Rightarrow> nat) \<Rightarrow> (u32 \<Rightarrow> block) \<Rightarrow> buf \<Rightarrow> bool" where
  "buf_ok s H P c b \<longleftrightarrow>
     refcnt b = of_nat (P (blockno b) + (if blockno b \<in> H then 1 else 0)) \<and>
     (sl_locked (blk b) \<longleftrightarrow> blockno b \<in> H) \<and>
     (blockno b \<in> H \<longrightarrow> sl_pid (blk b) = curpid s) \<and>
     (blockno b \<in> H \<or> P (blockno b) > 0 \<longrightarrow> valid b) \<and>
     (valid b \<longrightarrow> bdata b = c (blockno b))"

text \<open>The references fit the 32-bit counters.\<close>

definition counts_ok :: "u32 set \<Rightarrow> (u32 \<Rightarrow> nat) \<Rightarrow> bool" where
  "counts_ok H P \<longleftrightarrow> (\<forall>b. P b + (if b \<in> H then 1 else 0) < 2 ^ 32)"

definition holds :: "u32 \<Rightarrow> 'a bst_scheme \<Rightarrow> u32 \<Rightarrow> nat \<Rightarrow> bool" where
  "holds d s b i \<longleftrightarrow> i < NBUF \<and> bdev (bufs s i) = d \<and> blockno (bufs s i) = b"

definition cache_rel :: "u32 \<Rightarrow> 'a bst_scheme \<Rightarrow> u32 set \<Rightarrow> (u32 \<Rightarrow> nat) \<Rightarrow> (u32 \<Rightarrow> block) \<Rightarrow> bool" where
  "cache_rel d s H P c \<longleftrightarrow>
     (\<exists>xs. dll (bufs s) xs \<and> set xs = {..<NBUF}) \<and>
     (\<forall>b i j. holds d s b i \<longrightarrow> holds d s b j \<longrightarrow> i = j) \<and>
     (\<forall>i < NBUF. bdev (bufs s i) \<noteq> d \<longrightarrow> refcnt (bufs s i) = 0 \<and> \<not> sl_locked (blk (bufs s i))) \<and>
     (\<forall>i < NBUF. bdev (bufs s i) = d \<longrightarrow> buf_ok s H P c (bufs s i)) \<and>
     (\<forall>b. b \<in> H \<or> P b > 0 \<longrightarrow> (\<exists>i. holds d s b i)) \<and>
     (\<forall>b. b \<notin> H \<longrightarrow> P b = 0 \<longrightarrow> c b = disk s b)"

lemma cache_relD:
  assumes "cache_rel d s H P c"
  shows "\<exists>xs. dll (bufs s) xs \<and> set xs = {..<NBUF}"
    "holds d s b i \<Longrightarrow> holds d s b j \<Longrightarrow> i = j"
    "i < NBUF \<Longrightarrow> bdev (bufs s i) \<noteq> d \<Longrightarrow> refcnt (bufs s i) = 0 \<and> \<not> sl_locked (blk (bufs s i))"
    "i < NBUF \<Longrightarrow> bdev (bufs s i) = d \<Longrightarrow> buf_ok s H P c (bufs s i)"
    "b \<in> H \<or> P b > 0 \<Longrightarrow> \<exists>i. holds d s b i"
    "b \<notin> H \<Longrightarrow> P b = 0 \<Longrightarrow> c b = disk s b"
  using assms unfolding cache_rel_def by blast+

lemma cache_relI:
  assumes "\<exists>xs. dll (bufs s) xs \<and> set xs = {..<NBUF}"
    "\<And>b i j. holds d s b i \<Longrightarrow> holds d s b j \<Longrightarrow> i = j"
    "\<And>i. i < NBUF \<Longrightarrow> bdev (bufs s i) \<noteq> d \<Longrightarrow> refcnt (bufs s i) = 0 \<and> \<not> sl_locked (blk (bufs s i))"
    "\<And>i. i < NBUF \<Longrightarrow> bdev (bufs s i) = d \<Longrightarrow> buf_ok s H P c (bufs s i)"
    "\<And>b. b \<in> H \<or> P b > 0 \<Longrightarrow> \<exists>i. holds d s b i"
    "\<And>b. b \<notin> H \<Longrightarrow> P b = 0 \<Longrightarrow> c b = disk s b"
  shows "cache_rel d s H P c"
  unfolding cache_rel_def using assms by (intro conjI allI impI) auto

lemma dll_length: "dll f xs \<Longrightarrow> set xs = {..<NBUF} \<Longrightarrow> length xs = NBUF"
  unfolding dll_def by (metis card_lessThan distinct.simps(2) distinct_card)

lemma find_Some_set: "find P xs = Some x \<Longrightarrow> x \<in> set xs \<and> P x"
  by (induction xs) (auto split: if_splits)

lemma bget_cached_iff:
  assumes "cache_rel d s H P c"
  shows "bget_cached NBUF s d b (nxt (bufs s bhead)) = Some i \<longleftrightarrow> holds d s b i"
proof -
  obtain xs where xs: "dll (bufs s) xs" "set xs = {..<NBUF}" using cache_relD(1) [OF assms] by blast
  have f: "bget_cached NBUF s d b (nxt (bufs s bhead)) =
      find (\<lambda>i. bdev (bufs s i) = d \<and> blockno (bufs s i) = b) xs"
    using bget_cached_find [of s "\<lambda>i. prev (bufs s i)" bhead xs d b] xs dll_length [OF xs] by (simp add: dll_def)
  show ?thesis
  proof
    assume "bget_cached NBUF s d b (nxt (bufs s bhead)) = Some i"
    then show "holds d s b i" using f find_Some_set xs(2) by (fastforce simp: holds_def)
  next
    assume h: "holds d s b i"
    have "find (\<lambda>i. bdev (bufs s i) = d \<and> blockno (bufs s i) = b) xs \<noteq> None"
      using h xs(2) by (auto simp: find_None_iff holds_def)
    then obtain j where j: "find (\<lambda>i. bdev (bufs s i) = d \<and> blockno (bufs s i) = b) xs = Some j" by blast
    then have "holds d s b j" using find_Some_set xs(2) by (fastforce simp: holds_def)
    then show "bget_cached NBUF s d b (nxt (bufs s bhead)) = Some i"
      using f j cache_relD(2) [OF assms h] by simp
  qed
qed

lemma bget_unused_ex:
  assumes "cache_rel d s H P c"
  shows "bget_unused NBUF s (prev (bufs s bhead)) = Some i \<Longrightarrow> i < NBUF \<and> refcnt (bufs s i) = 0"
    "bget_unused NBUF s (prev (bufs s bhead)) = None \<Longrightarrow> \<forall>i < NBUF. refcnt (bufs s i) \<noteq> 0"
proof -
  obtain xs where xs: "dll (bufs s) xs" "set xs = {..<NBUF}" using cache_relD(1) [OF assms] by blast
  have f: "bget_unused NBUF s (prev (bufs s bhead)) = find (\<lambda>i. refcnt (bufs s i) = 0) (rev xs)"
    using bget_unused_find [of "\<lambda>i. nxt (bufs s i)" s bhead xs bhead] xs dll_length [OF xs] by (simp add: dll_def)
  show "bget_unused NBUF s (prev (bufs s bhead)) = Some i \<Longrightarrow> i < NBUF \<and> refcnt (bufs s i) = 0"
    using f find_Some_set [of _ "rev xs"] xs(2) by fastforce
  show "bget_unused NBUF s (prev (bufs s bhead)) = None \<Longrightarrow> \<forall>i < NBUF. refcnt (bufs s i) \<noteq> 0"
    using f xs(2) by (auto simp: find_None_iff)
qed

lemma of_nat_u32_0: "n < 2 ^ 32 \<Longrightarrow> (of_nat n :: u32) = 0 \<longleftrightarrow> n = 0"
proof -
  assume "n < 2 ^ 32"
  then have "unat (of_nat n :: u32) = n" by (simp add: unat_of_nat take_bit_nat_eq_self)
  then show ?thesis by (auto simp: unat_eq_0)
qed

text \<open>If fewer than \<open>NBUF\<close> blocks are locked or pinned, some buffer is unused.\<close>

lemma unused_exists:
  assumes r: "cache_rel d s H P c" and f: "card (H \<union> {b. P b > 0}) < NBUF"
  shows "\<exists>i < NBUF. refcnt (bufs s i) = 0"
proof (rule ccontr)
  assume "\<not> ?thesis"
  then have nz: "\<And>i. i < NBUF \<Longrightarrow> refcnt (bufs s i) \<noteq> 0" by blast
  let ?bn = "\<lambda>i. blockno (bufs s i)"
  have d: "bdev (bufs s i) = d" if "i < NBUF" for i using nz that cache_relD(3) [OF r that] by blast
  have "?bn i \<in> H \<union> {b. P b > 0}" if "i < NBUF" for i
  proof -
    have "refcnt (bufs s i) = of_nat (P (?bn i) + (if ?bn i \<in> H then 1 else 0))"
      using cache_relD(4) [OF r that d [OF that]] by (simp add: buf_ok_def)
    then show ?thesis using nz [OF that] by (cases "?bn i \<in> H") (auto intro: gr0I)
  qed
  then have img: "?bn ` {..<NBUF} \<subseteq> H \<union> {b. P b > 0}" by auto
  have "inj_on ?bn {..<NBUF}"
    using cache_relD(2) [OF r] d by (auto simp: inj_on_def holds_def)
  then have c: "card (?bn ` {..<NBUF}) = NBUF" by (simp add: card_image)
  have "H \<union> {b. P b > 0} \<subseteq> ?bn ` {..<NBUF}"
  proof
    fix b assume "b \<in> H \<union> {b. P b > 0}"
    then obtain i where "holds d s b i" using cache_relD(5) [OF r] by blast
    then show "b \<in> ?bn ` {..<NBUF}" by (auto simp: holds_def)
  qed
  then have "H \<union> {b. P b > 0} = ?bn ` {..<NBUF}" using img by blast
  then show False using c f by simp
qed

section \<open>The operations on the abstract cache\<close>

text \<open>A change of one buffer that keeps its links and its block.\<close>

lemma cache_rel_upd:
  assumes r: "cache_rel d s H P c" and i: "holds d s b i"
    and links: "nxt x = nxt (bufs s i)" "prev x = prev (bufs s i)" "bdev x = d" "blockno x = b"
    and ok: "buf_ok s H' P' c' x"
    and other: "\<And>a. a \<noteq> b \<Longrightarrow> (a \<in> H' \<longleftrightarrow> a \<in> H) \<and> P' a = P a \<and> c' a = c a"
    and clean: "b \<notin> H' \<Longrightarrow> P' b = 0 \<Longrightarrow> c' b = disk s b"
  shows "cache_rel d (s\<lparr>bufs := (bufs s)(i := x)\<rparr>) H' P' c'"
proof -
  let ?s = "s\<lparr>bufs := (bufs s)(i := x)\<rparr>"
  have iN: "i < NBUF" "bdev (bufs s i) = d" "blockno (bufs s i) = b" using i by (auto simp: holds_def)
  have h: "holds d ?s a j \<longleftrightarrow> holds d s a j" for a j using iN links by (auto simp: holds_def)
  show ?thesis
  proof (rule cache_relI)
    show "\<exists>xs. dll (bufs ?s) xs \<and> set xs = {..<NBUF}"
      using cache_relD(1) [OF r] dll_cong [of "bufs ?s" "bufs s"] links by auto
    show "holds d ?s a j \<Longrightarrow> holds d ?s a j' \<Longrightarrow> j = j'" for a j j'
      unfolding h by (rule cache_relD(2) [OF r])
    show "refcnt (bufs ?s j) = 0 \<and> \<not> sl_locked (blk (bufs ?s j))" if "j < NBUF" "bdev (bufs ?s j) \<noteq> d" for j
      using that cache_relD(3) [OF r, of j] links by (auto split: if_splits)
    show "buf_ok ?s H' P' c' (bufs ?s j)" if j: "j < NBUF" "bdev (bufs ?s j) = d" for j
    proof (cases "j = i")
      case True
      then show ?thesis using ok by (simp add: buf_ok_def)
    next
      case False
      then have ok: "buf_ok s H P c (bufs s j)" using j cache_relD(4) [OF r, of j] by auto
      have "blockno (bufs s j) \<noteq> b" using cache_relD(2) [OF r i, of j] j False by (auto simp: holds_def)
      then show ?thesis using ok False other [of "blockno (bufs s j)"] by (simp add: buf_ok_def)
    qed
    show "\<exists>j. holds d ?s a j" if "a \<in> H' \<or> P' a > 0" for a
    proof (cases "a = b")
      case False
      then show ?thesis unfolding h using that cache_relD(5) [OF r, of a] other [of a] by simp
    qed (use h i in blast)
    show "c' a = disk ?s a" if "a \<notin> H'" "P' a = 0" for a
    proof (cases "a = b")
      case False
      then show ?thesis using that cache_relD(6) [OF r, of a] other [of a] by simp
    qed (use that clean in simp)
  qed
qed

text \<open>Recycling an unused buffer for a block that is not cached.\<close>

lemma unused_old:
  assumes r: "cache_rel d s H P c" and cnt: "counts_ok H P" and i: "i < NBUF" "refcnt (bufs s i) = 0" "bdev (bufs s i) = d"
  shows "blockno (bufs s i) \<notin> H \<and> P (blockno (bufs s i)) = 0"
proof -
  let ?n = "P (blockno (bufs s i)) + (if blockno (bufs s i) \<in> H then 1 else 0)"
  have "refcnt (bufs s i) = of_nat ?n" "?n < 2 ^ 32"
    using cache_relD(4) [OF r i(1,3)] cnt by (auto simp: buf_ok_def counts_ok_def)
  then have "?n = 0" using i(2) of_nat_u32_0 [of ?n] by (simp split: if_splits)
  then show ?thesis by (simp split: if_splits)
qed

lemma cache_rel_recycle:
  assumes r: "cache_rel d s H P c" and cnt: "counts_ok H P" and i: "i < NBUF" "refcnt (bufs s i) = 0" and nc: "\<And>j. \<not> holds d s b j"
    and links: "nxt x = nxt (bufs s i)" "prev x = prev (bufs s i)" "bdev x = d" "blockno x = b"
    and ok: "buf_ok s (insert b H) P c x"
  shows "cache_rel d (s\<lparr>bufs := (bufs s)(i := x)\<rparr>) (insert b H) P c"
proof -
  let ?s = "s\<lparr>bufs := (bufs s)(i := x)\<rparr>"
  have h: "holds d ?s a j \<longleftrightarrow> (if j = i then a = b else holds d s a j)" for a j
    using i(1) links by (auto simp: holds_def)
  show ?thesis
  proof (rule cache_relI)
    show "\<exists>xs. dll (bufs ?s) xs \<and> set xs = {..<NBUF}"
      using cache_relD(1) [OF r] dll_cong [of "bufs ?s" "bufs s"] links by auto
    show "j = j'" if "holds d ?s a j" "holds d ?s a j'" for a j j'
      using that nc cache_relD(2) [OF r, of a j j'] unfolding h by (simp split: if_splits)
    show "refcnt (bufs ?s j) = 0 \<and> \<not> sl_locked (blk (bufs ?s j))" if "j < NBUF" "bdev (bufs ?s j) \<noteq> d" for j
      using that cache_relD(3) [OF r, of j] links by (auto split: if_splits)
    show "buf_ok ?s (insert b H) P c (bufs ?s j)" if j: "j < NBUF" "bdev (bufs ?s j) = d" for j
    proof (cases "j = i")
      case True
      then show ?thesis using ok by (simp add: buf_ok_def)
    next
      case False
      then have "buf_ok s H P c (bufs s j)" "blockno (bufs s j) \<noteq> b"
        using j cache_relD(4) [OF r, of j] nc [of j] by (auto simp: holds_def)
      then show ?thesis using False by (simp add: buf_ok_def)
    qed
    show "\<exists>j. holds d ?s a j" if "a \<in> insert b H \<or> P a > 0" for a
    proof (cases "a = b")
      case False
      then have "a \<in> H \<or> P a > 0" using that by simp
      then obtain j where j: "holds d s a j" using cache_relD(5) [OF r] by blast
      then have "j \<noteq> i" using unused_old [OF r cnt i] False that by (auto simp: holds_def)
      then show ?thesis using h j by auto
    qed (use h in auto)
    show "c a = disk ?s a" if "a \<notin> insert b H" "P a = 0" for a
      using that cache_relD(6) [OF r, of a] by simp
  qed
qed

lemma lock_buf_eq:
  "\<not> sl_locked (blk (bufs s i)) \<Longrightarrow>
    lock_buf i s = Ok (upd_buf i (\<lambda>b. b\<lparr>blk := \<lparr>sl_locked = True, sl_pid = curpid s\<rparr>\<rparr>) s, i)"
  by (simp add: lock_buf_def acquiresleep_def)

text \<open>\<open>bread\<close> in each of its three cases, as the one buffer it changes.\<close>

lemma bread_cached:
  assumes r: "cache_rel d s H P c" and h: "holds d s b i" and b: "b \<notin> H"
  shows "bread d b s = Ok (s\<lparr>bufs := (bufs s)(i := (bufs s i)\<lparr>refcnt := refcnt (bufs s i) + 1,
      blk := \<lparr>sl_locked = True, sl_pid = curpid s\<rparr>, bdata := c b, valid := True\<rparr>)\<rparr>, i)"
proof -
  have i: "i < NBUF" "bdev (bufs s i) = d" "blockno (bufs s i) = b" using h by (auto simp: holds_def)
  note ok = cache_relD(4) [OF r i(1,2)]
  have l: "\<not> sl_locked (blk (bufs s i))" using ok b i by (simp add: buf_ok_def)
  have data: "valid (bufs s i) \<Longrightarrow> bdata (bufs s i) = c b" using ok i by (simp add: buf_ok_def)
  have dk: "\<not> valid (bufs s i) \<Longrightarrow> disk s b = c b"
    using ok i b cache_relD(6) [OF r b] by (auto simp: buf_ok_def)
  have g: "bget d b s = Ok (upd_buf i (\<lambda>x. x\<lparr>blk := \<lparr>sl_locked = True, sl_pid = curpid s\<rparr>\<rparr>)
      (upd_buf i (\<lambda>x. x\<lparr>refcnt := refcnt x + 1\<rparr>) s), i)"
    using bget_cached_iff [OF r, of b i] h l by (simp add: bget_def lock_buf_eq upd_buf_apply) (simp add: upd_buf_def)
  show ?thesis
  proof (cases "valid (bufs s i)")
    case True
    then have eq: "(bufs s i)\<lparr>refcnt := n, blk := l, bdata := c b, valid := True\<rparr> = (bufs s i)\<lparr>refcnt := n, blk := l\<rparr>" for n l
      using data by (cases "bufs s i") simp
    show ?thesis unfolding eq using g True by (simp add: bread_def upd_buf_def)
  next
    case False
    then show ?thesis using g dk i by (simp add: bread_def upd_buf_def disk_read_def)
  qed
qed

lemma bread_recycled:
  assumes r: "cache_rel d s H P c" and cnt: "counts_ok H P" and nc: "\<And>j. \<not> holds d s b j"
    and u: "bget_unused NBUF s (prev (bufs s bhead)) = Some i"
  shows "bread d b s = Ok (s\<lparr>bufs := (bufs s)(i := (bufs s i)\<lparr>bdev := d, blockno := b, refcnt := 1,
      blk := \<lparr>sl_locked = True, sl_pid = curpid s\<rparr>, bdata := disk s b, valid := True\<rparr>)\<rparr>, i)"
proof -
  have i: "i < NBUF" "refcnt (bufs s i) = 0" using bget_unused_ex(1) [OF r u] by auto
  have l: "\<not> sl_locked (blk (bufs s i))"
  proof (cases "bdev (bufs s i) = d")
    case True
    then show ?thesis using cache_relD(4) [OF r i(1) True] unused_old [OF r cnt i True] by (simp add: buf_ok_def)
  qed (use cache_relD(3) [OF r i(1)] in blast)
  have "bget_cached NBUF s d b (nxt (bufs s bhead)) = None"
    using bget_cached_iff [OF r, of b] nc by (metis not_Some_eq)
  then show ?thesis
    using u l by (simp add: bread_def bget_def lock_buf_eq upd_buf_apply) (simp add: upd_buf_def disk_read_def)
qed

lemma bread_ok:
  assumes r: "cache_rel d s H P c" and cnt: "counts_ok H P" and b: "b \<notin> H" and room: "P b > 0 \<or> card (H \<union> {b. P b > 0}) < NBUF"
  obtains f i where "bread d b s = Ok (s\<lparr>bufs := f\<rparr>, i)" "cache_rel d (s\<lparr>bufs := f\<rparr>) (insert b H) P c"
    "holds d (s\<lparr>bufs := f\<rparr>) b i" "bdata (f i) = c b"
    "\<And>a j. a \<in> H \<Longrightarrow> holds d s a j \<Longrightarrow> holds d (s\<lparr>bufs := f\<rparr>) a j"
proof (cases "\<exists>i. holds d s b i")
  case True
  then obtain i where h: "holds d s b i" by blast
  let ?x = "(bufs s i)\<lparr>refcnt := refcnt (bufs s i) + 1,
      blk := \<lparr>sl_locked = True, sl_pid = curpid s\<rparr>, bdata := c b, valid := True\<rparr>"
  have i: "i < NBUF" "bdev (bufs s i) = d" "blockno (bufs s i) = b" using h by (auto simp: holds_def)
  have "buf_ok s (insert b H) P c ?x"
    using cache_relD(4) [OF r i(1,2)] i b by (auto simp: buf_ok_def)
  then have "cache_rel d (s\<lparr>bufs := (bufs s)(i := ?x)\<rparr>) (insert b H) P c"
    using i by (intro cache_rel_upd [OF r h]) auto
  then show ?thesis
    using bread_cached [OF r h b] i by (intro that [of "(bufs s)(i := ?x)" i]) (auto simp: holds_def)
next
  case False
  have p: "P b = 0" using cache_relD(5) [OF r, of b] False by auto
  obtain i where u: "bget_unused NBUF s (prev (bufs s bhead)) = Some i"
    using unused_exists [OF r] room p bget_unused_ex(2) [OF r] by fastforce
  have i: "i < NBUF" "refcnt (bufs s i) = 0" using bget_unused_ex(1) [OF r u] by auto
  let ?x = "(bufs s i)\<lparr>bdev := d, blockno := b, refcnt := 1,
      blk := \<lparr>sl_locked = True, sl_pid = curpid s\<rparr>, bdata := disk s b, valid := True\<rparr>"
  have c: "c b = disk s b" using cache_relD(6) [OF r b p] .
  have "cache_rel d (s\<lparr>bufs := (bufs s)(i := ?x)\<rparr>) (insert b H) P c"
    using False p c by (intro cache_rel_recycle [OF r cnt i]) (auto simp: buf_ok_def)
  moreover have "holds d (s\<lparr>bufs := (bufs s)(i := ?x)\<rparr>) a j" if "a \<in> H" "holds d s a j" for a j
    using that unused_old [OF r cnt i] i b by (auto simp: holds_def)
  ultimately show ?thesis
    using bread_recycled [OF r cnt _ u, of b] False i c
    by (intro that [of "(bufs s)(i := ?x)" i]) (auto simp: holds_def)
qed

lemma holds_upd:
  "bdev (g (bufs s i)) = bdev (bufs s i) \<Longrightarrow> blockno (g (bufs s i)) = blockno (bufs s i) \<Longrightarrow>
    holds d (upd_buf i g s) a j = holds d s a j"
  by (auto simp: holds_def upd_buf_def)

lemma cache_rel_upd_buf:
  assumes r: "cache_rel d s H P c" and i: "holds d s b i"
    and links: "nxt (g (bufs s i)) = nxt (bufs s i)" "prev (g (bufs s i)) = prev (bufs s i)"
      "bdev (g (bufs s i)) = d" "blockno (g (bufs s i)) = b"
    and ok: "buf_ok s H P c (bufs s i) \<Longrightarrow> buf_ok s H' P' c' (g (bufs s i))"
    and other: "\<And>a. a \<noteq> b \<Longrightarrow> (a \<in> H' \<longleftrightarrow> a \<in> H) \<and> P' a = P a \<and> c' a = c a"
    and clean: "b \<notin> H' \<Longrightarrow> P' b = 0 \<Longrightarrow> c' b = disk s b"
  shows "cache_rel d (upd_buf i g s) H' P' c'"
proof -
  have "buf_ok s H P c (bufs s i)" using i cache_relD(4) [OF r] by (simp add: holds_def)
  then show ?thesis
    unfolding upd_buf_def using links ok other clean by (intro cache_rel_upd [OF r i]) auto
qed

lemma set_data_ok:
  assumes r: "cache_rel d s H P c" and i: "holds d s b i" and b: "b \<in> H"
  shows "cache_rel d (set_data i x s) H P (c(b := x))"
    "holds d (set_data i x s) a j = holds d s a j"
    "\<exists>f. set_data i x s = s\<lparr>bufs := f\<rparr>"
proof -
  show "cache_rel d (set_data i x s) H P (c(b := x))"
    unfolding set_data_def using i b by (intro cache_rel_upd_buf [OF r i]) (auto simp: holds_def buf_ok_def)
qed (auto simp: set_data_def upd_buf_frame holds_upd)

lemma bpin_ok:
  assumes r: "cache_rel d s H P c" and i: "holds d s b i" and b: "b \<in> H"
  shows "cache_rel d (bpin i s) H (P(b := P b + 1)) c" "holds d (bpin i s) a j = holds d s a j"
    "\<exists>f. bpin i s = s\<lparr>bufs := f\<rparr>"
proof -
  show "cache_rel d (bpin i s) H (P(b := P b + 1)) c"
    unfolding bpin_def using i b by (intro cache_rel_upd_buf [OF r i]) (auto simp: holds_def buf_ok_def)
qed (auto simp: bpin_def upd_buf_frame holds_upd)

text \<open>Unpinning a block with no pin takes the counter below zero: it wraps around.\<close>

lemma bunpin_ok:
  assumes r: "cache_rel d s H P c" and i: "holds d s b i" and b: "b \<in> H"
  shows "cache_rel d (bunpin i s) H (P(b := if P b = 0 then 2 ^ 32 - 1 else P b - 1)) c"
    "holds d (bunpin i s) a j = holds d s a j" "\<exists>f. bunpin i s = s\<lparr>bufs := f\<rparr>"
proof -
  have "of_nat (P b + 1) - 1 = (of_nat ((if P b = 0 then 2 ^ 32 - 1 else P b - 1) + 1) :: u32)"
    by (cases "P b") simp_all
  then show "cache_rel d (bunpin i s) H (P(b := if P b = 0 then 2 ^ 32 - 1 else P b - 1)) c"
    unfolding bunpin_def using i b
    by (intro cache_rel_upd_buf [OF r i]) (auto simp: holds_def buf_ok_def)
qed (use i in \<open>auto simp: bunpin_def upd_buf_frame holds_upd\<close>)

lemma holds_locked:
  assumes r: "cache_rel d s H P c" and i: "holds d s b i" and b: "b \<in> H"
  shows "holdingsleep (curpid s) (blk (bufs s i))" "bdata (bufs s i) = c b" "valid (bufs s i)"
  using cache_relD(4) [OF r, of i] i b by (auto simp: holds_def buf_ok_def holdingsleep_def)

lemma bwrite_ok:
  assumes r: "cache_rel d s H P c" and i: "holds d s b i" and b: "b \<in> H"
  shows "bwrite i s = Ok (s\<lparr>disk := (disk s)(b := c b), wtrace := wtrace s @ [(b, c b)]\<rparr>)"
    "cache_rel d (s\<lparr>disk := (disk s)(b := c b), wtrace := wtrace s @ [(b, c b)]\<rparr>) H P c"
proof -
  have bn: "blockno (bufs s i) = b" using i by (simp add: holds_def)
  show "bwrite i s = Ok (s\<lparr>disk := (disk s)(b := c b), wtrace := wtrace s @ [(b, c b)]\<rparr>)"
    using holds_locked [OF r i b] bn by (simp add: bwrite_def disk_write_def Let_def)
  show "cache_rel d (s\<lparr>disk := (disk s)(b := c b), wtrace := wtrace s @ [(b, c b)]\<rparr>) H P c"
    (is "cache_rel d ?s H P c")
  proof (rule cache_relI)
    have h: "holds d ?s a j = holds d s a j" for a j by (simp add: holds_def)
    show "holds d ?s a i \<Longrightarrow> holds d ?s a j \<Longrightarrow> i = j" for a i j unfolding h by (rule cache_relD(2) [OF r])
    show "\<exists>i. holds d ?s a i" if "a \<in> H \<or> P a > 0" for a unfolding h by (rule cache_relD(5) [OF r that])
    show "c a = disk ?s a" if "a \<notin> H" "P a = 0" for a using cache_relD(6) [OF r that] that b by auto
  qed (use cache_relD [OF r] in \<open>simp_all add: buf_ok_def\<close>)
qed

text \<open>Moving a buffer to the front of the list changes nothing but the links.\<close>

lemma cache_rel_links:
  assumes r: "cache_rel d s H P c" and xs: "dll f xs" "set xs = {..<NBUF}"
    and same: "\<And>i. valid (f i) = valid (bufs s i) \<and> bdev (f i) = bdev (bufs s i) \<and> blockno (f i) = blockno (bufs s i) \<and>
      blk (f i) = blk (bufs s i) \<and> refcnt (f i) = refcnt (bufs s i) \<and> bdata (f i) = bdata (bufs s i)"
  shows "cache_rel d (s\<lparr>bufs := f\<rparr>) H P c"
proof (rule cache_relI)
  have h: "holds d (s\<lparr>bufs := f\<rparr>) a j = holds d s a j" for a j using same by (simp add: holds_def)
  show "\<exists>xs. dll (bufs (s\<lparr>bufs := f\<rparr>)) xs \<and> set xs = {..<NBUF}" using xs by auto
  show "holds d (s\<lparr>bufs := f\<rparr>) a i \<Longrightarrow> holds d (s\<lparr>bufs := f\<rparr>) a j \<Longrightarrow> i = j" for a i j
    unfolding h by (rule cache_relD(2) [OF r])
  show "\<exists>i. holds d (s\<lparr>bufs := f\<rparr>) a i" if "a \<in> H \<or> P a > 0" for a
    unfolding h by (rule cache_relD(5) [OF r that])
qed (use same cache_relD [OF r] in \<open>simp_all add: buf_ok_def\<close>)

lemma dll_move_front:
  assumes "dll (bufs s) xs" "i \<in> set xs"
  shows "\<exists>ys. dll (bufs (insert_head i (unlink i s))) ys \<and> set ys = set xs"
proof -
  obtain as bs where xs: "xs = as @ i # bs" using assms(2) by (meson split_list)
  have "distinct (bhead # xs)" using assms(1) by (simp add: dll_def)
  then have "i \<notin> set (bhead # as @ bs)" using xs by auto
  then have "dll (bufs (insert_head i (unlink i s))) (i # as @ bs)"
    using dll_insert_head dll_unlink assms(1) xs by blast
  then show ?thesis using xs by (intro exI [of _ "i # as @ bs"]) auto
qed

lemma insert_unlink_frame: "\<exists>f. insert_head i (unlink i s) = s\<lparr>bufs := f\<rparr>"
proof -
  have "insert_head i t = t\<lparr>bufs := bufs (insert_head i t)\<rparr>" for t :: "'a bst_scheme"
    by (simp add: insert_head_def Let_def upd_buf_def)
  moreover have "unlink i s = s\<lparr>bufs := bufs (unlink i s)\<rparr>"
    by (simp add: unlink_def Let_def upd_buf_def)
  ultimately show ?thesis by (metis bst.update_convs(1) bst.surjective)
qed

lemma brelse_ok:
  assumes r: "cache_rel d s H P c" and i: "holds d s b i" and b: "b \<in> H" and clean: "P b > 0 \<or> c b = disk s b"
  obtains f where "brelse i s = Ok (s\<lparr>bufs := f\<rparr>)" "cache_rel d (s\<lparr>bufs := f\<rparr>) (H - {b}) P c"
    "\<And>a j. holds d (s\<lparr>bufs := f\<rparr>) a j = holds d s a j"
proof -
  define s1 where "s1 = upd_buf i (\<lambda>b. b\<lparr>blk := releasesleep (blk b), refcnt := refcnt b - 1\<rparr>) s"
  have iN: "i < NBUF" "blockno (bufs s i) = b" "bdev (bufs s i) = d" using i by (auto simp: holds_def)
  have r1: "cache_rel d s1 (H - {b}) P c"
    unfolding s1_def using iN b clean
    by (intro cache_rel_upd_buf [OF r i]) (auto simp: buf_ok_def releasesleep_def)
  have h1: "holds d s1 a j = holds d s a j" for a j by (simp add: s1_def holds_upd)
  have br: "brelse i s = Ok (if refcnt (bufs s1 i) = 0 then insert_head i (unlink i s1) else s1)"
    using holds_locked [OF r i b] by (simp add: brelse_def s1_def upd_buf_def Let_def)
  show thesis
  proof (cases "refcnt (bufs s1 i) = 0")
    case False
    then show thesis using br r1 h1 that [of "bufs s1"] by (simp add: s1_def upd_buf_def)
  next
    case True
    obtain xs where xs: "dll (bufs s1) xs" "set xs = {..<NBUF}" using cache_relD(1) [OF r1] by blast
    obtain ys where ys: "dll (bufs (insert_head i (unlink i s1))) ys" "set ys = {..<NBUF}"
      using dll_move_front [OF xs(1), of i] xs(2) iN by auto
    obtain f where f: "insert_head i (unlink i s1) = s1\<lparr>bufs := f\<rparr>" using insert_unlink_frame by blast
    have fl: "valid (f j) = valid (bufs s1 j) \<and> bdev (f j) = bdev (bufs s1 j) \<and> blockno (f j) = blockno (bufs s1 j) \<and>
      blk (f j) = blk (bufs s1 j) \<and> refcnt (f j) = refcnt (bufs s1 j) \<and> bdata (f j) = bdata (bufs s1 j)" for j
      using insert_head_fields [of i "unlink i s1" j] unlink_fields [of i s1 j] f by simp
    have "cache_rel d (s1\<lparr>bufs := f\<rparr>) (H - {b}) P c"
      using cache_rel_links [OF r1 _ ys(2) fl] ys(1) f by simp
    moreover have "holds d (s1\<lparr>bufs := f\<rparr>) a j = holds d s a j" for a j
      using h1 [of a j] fl by (simp add: holds_def)
    ultimately show thesis
      using br True f that [of f] by (simp add: s1_def upd_buf_def)
  qed
qed

section \<open>From boot\<close>

text \<open>The buffers as the kernel image has them (zeroed) before \<^verbatim>\<open>binit\<close>.\<close>

definition boot_bufs :: "'a bst_scheme \<Rightarrow> bool" where
  "boot_bufs s \<longleftrightarrow> (\<forall>i \<le> NBUF. bdev (bufs s i) = 0 \<and> refcnt (bufs s i) = 0)"

lemma binit_loop_dll:
  assumes "nxt (bufs s bhead) = bhead" "prev (bufs s bhead) = bhead" "n \<le> NBUF"
  shows "\<exists>xs. dll (bufs (binit_loop n s)) xs \<and> set xs = {..<n}"
  using assms(3)
proof (induction n)
  case 0
  then show ?case using assms by (simp add: dll_def)
next
  case (Suc n)
  then obtain xs where xs: "dll (bufs (binit_loop n s)) xs" "set xs = {..<n}" by auto
  let ?s = "upd_buf n (\<lambda>b. b\<lparr>blk := initsleeplock\<rparr>) (binit_loop n s)"
  have "dll (bufs ?s) xs" using xs(1) dll_cong [of "bufs ?s" "bufs (binit_loop n s)"] by (simp add: upd_buf_apply)
  moreover have "n \<notin> set (bhead # xs)" using xs(2) Suc.prems by auto
  ultimately have "dll (bufs (insert_head n ?s)) (n # xs)" by (rule dll_insert_head)
  then show ?case using xs(2) by (intro exI [of _ "n # xs"]) (auto simp: lessThan_Suc)
qed

lemma binit_loop_fields:
  "bdev (bufs (binit_loop n s) i) = bdev (bufs s i) \<and> refcnt (bufs (binit_loop n s) i) = refcnt (bufs s i) \<and>
    disk (binit_loop n s) = disk s \<and> (i < n \<longrightarrow> \<not> sl_locked (blk (bufs (binit_loop n s) i)))"
  by (induction n) (auto simp: insert_head_fields upd_buf_apply initsleeplock_def less_Suc_eq,
      simp_all add: insert_head_def Let_def upd_buf_def)

lemma binit_ok:
  assumes "boot_bufs s" "d \<noteq> 0"
  shows "cache_rel d (binit s) {} (\<lambda>_. 0) (disk s)"
proof -
  let ?s = "upd_buf bhead (\<lambda>b. b\<lparr>nxt := bhead\<rparr>) (upd_buf bhead (\<lambda>b. b\<lparr>prev := bhead\<rparr>) s)"
  have b: "binit s = binit_loop NBUF ?s" by (simp add: binit_def Let_def)
  have "bdev (bufs (binit s) i) = 0" "refcnt (bufs (binit s) i) = 0" "\<not> sl_locked (blk (bufs (binit s) i))"
    if "i < NBUF" for i
    using assms(1) that binit_loop_fields [of NBUF ?s i] by (auto simp: b boot_bufs_def upd_buf_apply)
  moreover have "\<exists>xs. dll (bufs (binit s)) xs \<and> set xs = {..<NBUF}"
    unfolding b by (rule binit_loop_dll) (simp_all add: upd_buf_apply)
  moreover have "disk (binit s) = disk s" using binit_loop_fields [of NBUF ?s] by (simp add: b upd_buf_def)
  ultimately show ?thesis using assms(2) by (intro cache_relI) (auto simp: holds_def)
qed

text \<open>
  Uses of the cache from boot that keep to its protocol: at most \<open>NBUF\<close> blocks locked or
  pinned, stores only into locked buffers, a changed buffer released only when it was
  written or is pinned. \<open>c\<close> is what the blocks should hold: the disk at boot with every
  store since.
\<close>

inductive cache_run :: "u32 \<Rightarrow> 'a bst_scheme \<Rightarrow> u32 set \<Rightarrow> (u32 \<Rightarrow> nat) \<Rightarrow> (u32 \<Rightarrow> block) \<Rightarrow> bool" for d where
  boot: "boot_bufs s \<Longrightarrow> cache_run d (binit s) {} (\<lambda>_. 0) (disk s)"
| brd: "cache_run d s H P c \<Longrightarrow> b \<notin> H \<Longrightarrow> counts_ok H P \<Longrightarrow> card (H \<union> {b. P b > 0}) < NBUF \<Longrightarrow> bread d b s = Ok (s', i) \<Longrightarrow>
    cache_run d s' (insert b H) P c"
| store: "cache_run d s H P c \<Longrightarrow> holds d s b i \<Longrightarrow> b \<in> H \<Longrightarrow> cache_run d (set_data i x s) H P (c(b := x))"
| bwr: "cache_run d s H P c \<Longrightarrow> holds d s b i \<Longrightarrow> b \<in> H \<Longrightarrow> bwrite i s = Ok s' \<Longrightarrow> cache_run d s' H P c"
| pin: "cache_run d s H P c \<Longrightarrow> holds d s b i \<Longrightarrow> b \<in> H \<Longrightarrow>
    cache_run d (bpin i s) H (P(b := P b + 1)) c"
| unpin: "cache_run d s H P c \<Longrightarrow> holds d s b i \<Longrightarrow> b \<in> H \<Longrightarrow> P b > 0 \<Longrightarrow>
    cache_run d (bunpin i s) H (P(b := P b - 1)) c"
| brel: "cache_run d s H P c \<Longrightarrow> holds d s b i \<Longrightarrow> b \<in> H \<Longrightarrow> P b > 0 \<or> c b = disk s b \<Longrightarrow>
    brelse i s = Ok s' \<Longrightarrow> cache_run d s' (H - {b}) P c"

lemma cache_run_rel: "cache_run d s H P c \<Longrightarrow> d \<noteq> 0 \<Longrightarrow> cache_rel d s H P c"
proof (induction rule: cache_run.induct)
  case (boot s)
  then show ?case using binit_ok by blast
next
  case (brd s H P c b s' i)
  then show ?case using bread_ok [of d s H P c b] by (metis kres.inject(1) prod.inject)
next
  case (store s H P c b i x)
  then show ?case using set_data_ok(1) by blast
next
  case (bwr s H P c b i s')
  then show ?case using bwrite_ok [of d s H P c b i] by simp
next
  case (pin s H P c b i)
  then show ?case using bpin_ok(1) by blast
next
  case (unpin s H P c b i)
  then show ?case using bunpin_ok(1) [of d s H P c b i] by (simp add: fun_upd_def)
next
  case (brel s H P c b i s')
  then show ?case using brelse_ok [of d s H P c b i] by (metis kres.inject(1))
qed

text \<open>
  C4. The buffer cache is coherent: after any use of it that keeps to its protocol, \<^verbatim>\<open>bread\<close> of a
  block that is not locked, while fewer than 30 blocks are locked or pinned, returns a
  locked buffer for that block whose data is what was last stored in the block (on disk at
  boot if nothing was), whether the block was cached, recycled in between or never read;
  and no block has two buffers.
\<close>

theorem bread_coherent:
  assumes "cache_run d s H P c" "d \<noteq> 0" "counts_ok H P" "b \<notin> H" "card (H \<union> {b. P b > 0}) < NBUF"
  shows "\<exists>s' i. bread d b s = Ok (s', i) \<and> holds d s' b i \<and> bdata (bufs s' i) = c b \<and>
    holdingsleep (curpid s') (blk (bufs s' i)) \<and> (\<forall>j. holds d s' b j \<longrightarrow> j = i)"
proof -
  have r: "cache_rel d s H P c" using cache_run_rel assms by blast
  show ?thesis
  proof (rule bread_ok [OF r assms(3,4) disjI2 [OF assms(5)]])
    fix f i
    assume f: "bread d b s = Ok (s\<lparr>bufs := f\<rparr>, i)" "cache_rel d (s\<lparr>bufs := f\<rparr>) (insert b H) P c"
      "holds d (s\<lparr>bufs := f\<rparr>) b i" "bdata (f i) = c b"
    let ?s = "s\<lparr>bufs := f\<rparr>"
    have "holdingsleep (curpid ?s) (blk (bufs ?s i))" by (rule holds_locked(1) [OF f(2,3)]) simp
    moreover have "\<forall>j. holds d ?s b j \<longrightarrow> j = i" using cache_relD(2) [OF f(2) _ f(3)] by blast
    moreover have "bdata (bufs ?s i) = c b" using f(4) by simp
    ultimately show ?thesis using f(1,3) by blast
  qed
qed

definition demo_bst :: bst where
  "demo_bst = \<lparr>bufs = (\<lambda>_. \<lparr>valid = False, bdev = 0, blockno = 0, blk = initsleeplock, refcnt = 0,
      prev = 0, nxt = 0, bdata = []\<rparr>), disk = (\<lambda>_. replicate 1024 7), wtrace = [], curpid = 1\<rparr>"

theorem bread_coherent_witness:
  "\<exists>s' i. bread 1 5 (binit demo_bst) = Ok (s', i) \<and> bdata (bufs s' i) = disk demo_bst 5"
proof -
  have "cache_run 1 (binit demo_bst) {} (\<lambda>_. 0) (disk demo_bst)"
    by (rule cache_run.boot) (simp add: boot_bufs_def demo_bst_def)
  then show ?thesis using bread_coherent [of 1 "binit demo_bst" "{}" "\<lambda>_. 0" "disk demo_bst" 5] by (auto simp: counts_ok_def)
qed

end
