(* ===== verification/Bytes.thy ===== *)
theory Bytes
  imports Xv6_Prelude
begin

text \<open>
  Fields of on-disk structures: reading and overwriting parts of a byte list, and the
  little-endian 16-bit and 32-bit fields of C structs that overlay a block.
\<close>

definition sub :: "'a list \<Rightarrow> nat \<Rightarrow> nat \<Rightarrow> 'a list" where
  "sub bs off n = take n (drop off bs)"

definition splice :: "'a list \<Rightarrow> nat \<Rightarrow> 'a list \<Rightarrow> 'a list" where
  "splice bs off new = take off bs @ new @ drop (off + length new) bs"

definition rd16 :: "u8 list \<Rightarrow> nat \<Rightarrow> u16" where
  "rd16 bs off = le_word (sub bs off 2)"

definition rd32 :: "u8 list \<Rightarrow> nat \<Rightarrow> u32" where
  "rd32 bs off = le_word (sub bs off 4)"

definition wr16 :: "u8 list \<Rightarrow> nat \<Rightarrow> u16 \<Rightarrow> u8 list" where
  "wr16 bs off v = splice bs off (le_bytes 2 v)"

definition wr32 :: "u8 list \<Rightarrow> nat \<Rightarrow> u32 \<Rightarrow> u8 list" where
  "wr32 bs off v = splice bs off (le_bytes 4 v)"

named_theorems field_simps_le \<open>reads of fields after writes\<close>

lemma length_sub [simp]: "length (sub bs off n) = min n (length bs - off)"
  by (simp add: sub_def)

lemma length_splice [simp]: "off + length new \<le> length bs \<Longrightarrow> length (splice bs off new) = length bs"
  by (simp add: splice_def)

lemma nth_splice:
  assumes "off + length new \<le> length bs" "i < length bs"
  shows "splice bs off new ! i = (if off \<le> i \<and> i < off + length new then new ! (i - off) else bs ! i)"
proof -
  consider "i < off" | "off \<le> i" "i < off + length new" | "off + length new \<le> i" by linarith
  then show ?thesis
    using assms by cases (auto simp: splice_def nth_append)
qed

lemma nth_sub: "i < n \<Longrightarrow> off + i < length bs \<Longrightarrow> sub bs off n ! i = bs ! (off + i)"
  by (simp add: sub_def)

lemma sub_splice_same [field_simps_le]:
  "off + length new \<le> length bs \<Longrightarrow> n = length new \<Longrightarrow> sub (splice bs off new) off n = new"
  by (simp add: sub_def splice_def)

lemma sub_splice_other [field_simps_le]:
  assumes "off + length new \<le> length bs" "off' + n \<le> length bs" "off' + n \<le> off \<or> off + length new \<le> off'"
  shows "sub (splice bs off new) off' n = sub bs off' n"
proof (rule nth_equalityI)
  fix i assume "i < length (sub (splice bs off new) off' n)"
  then have "i < n" by simp
  then have b: "off' + i < length bs" using assms(2) by simp
  then show "sub (splice bs off new) off' n ! i = sub bs off' n ! i"
    using \<open>i < n\<close> assms by (subst (1 2) nth_sub) (auto simp: nth_splice)
qed (use assms in simp)

lemma splice_self: "off + n \<le> length bs \<Longrightarrow> splice bs off (sub bs off n) = bs"
  by (rule nth_equalityI) (auto simp: nth_splice nth_sub)

lemma length_wr [simp]:
  "off + 2 \<le> length bs \<Longrightarrow> length (wr16 bs off v) = length bs"
  "off + 4 \<le> length bs \<Longrightarrow> length (wr32 bs off w) = length bs"
  by (simp_all add: wr16_def wr32_def)

lemma rd16_wr16 [field_simps_le]: "off + 2 \<le> length bs \<Longrightarrow> rd16 (wr16 bs off v) off = v"
  by (simp add: rd16_def wr16_def sub_splice_same)

lemma rd32_wr32 [field_simps_le]: "off + 4 \<le> length bs \<Longrightarrow> rd32 (wr32 bs off v) off = v"
  by (simp add: rd32_def wr32_def sub_splice_same)

lemma sub_wr [field_simps_le]:
  "off + 2 \<le> length bs \<Longrightarrow> off' + n \<le> length bs \<Longrightarrow> off' + n \<le> off \<or> off + 2 \<le> off' \<Longrightarrow> sub (wr16 bs off v) off' n = sub bs off' n"
  "off + 4 \<le> length bs \<Longrightarrow> off' + n \<le> length bs \<Longrightarrow> off' + n \<le> off \<or> off + 4 \<le> off' \<Longrightarrow> sub (wr32 bs off w) off' n = sub bs off' n"
  by (simp_all add: wr16_def wr32_def sub_splice_other)

lemma rd32_wr32_other [field_simps_le]:
  "off + 4 \<le> length bs \<Longrightarrow> off' + 4 \<le> length bs \<Longrightarrow> off' + 4 \<le> off \<or> off + 4 \<le> off' \<Longrightarrow>
    rd32 (wr32 bs off v) off' = rd32 bs off'"
  by (simp add: rd32_def sub_wr)

lemma rd32_wr16_other [field_simps_le]:
  "off + 2 \<le> length bs \<Longrightarrow> off' + 4 \<le> length bs \<Longrightarrow> off' + 4 \<le> off \<or> off + 2 \<le> off' \<Longrightarrow>
    rd32 (wr16 bs off v) off' = rd32 bs off'"
  by (simp add: rd32_def sub_wr)

lemma rd16_wr_other [field_simps_le]:
  "off + 2 \<le> length bs \<Longrightarrow> off' + 2 \<le> length bs \<Longrightarrow> off' + 2 \<le> off \<or> off + 2 \<le> off' \<Longrightarrow>
    rd16 (wr16 bs off v) off' = rd16 bs off'"
  "off + 4 \<le> length bs \<Longrightarrow> off' + 2 \<le> length bs \<Longrightarrow> off' + 2 \<le> off \<or> off + 4 \<le> off' \<Longrightarrow>
    rd16 (wr32 bs off w) off' = rd16 bs off'"
  by (simp_all add: rd16_def sub_wr)

end
