(* ===== verification/Log.thy ===== *)
theory Log
  imports Bio Bytes
begin

text \<open>
  The write-ahead log, \<^verbatim>\<open>kernel/log.c\<close>. The in-memory header is \<open>lh_n\<close> and \<open>lh_block\<close>; on disk
  it is the block \<open>lg_start\<close>, a 32-bit count and the block numbers. \<^verbatim>\<open>begin_op\<close> that has to wait
  is \<open>Sleep LogChan\<close>: nothing has changed and the caller tries again when woken.
\<close>

section \<open>State\<close>

abbreviation MAXOPBLOCKS :: int where "MAXOPBLOCKS \<equiv> 10"
abbreviation LOGSIZE :: int where "LOGSIZE \<equiv> 30"

record log_st = bst +
  lg_start :: u32
  lg_size :: int
  outstanding :: int
  committing :: bool
  lg_dev :: u32
  lh_n :: int
  lh_block :: "nat \<Rightarrow> u32"

section \<open>Operations\<close>

definition log_block :: "'a log_st_scheme \<Rightarrow> nat \<Rightarrow> u32" where
  "log_block s tail = lg_start s + of_nat tail + 1"

text \<open>\<open>install_trans_loop n tail\<close> is the loop from \<open>tail\<close> on with \<open>n\<close> rounds left.\<close>

primrec install_trans_loop :: "nat \<Rightarrow> nat \<Rightarrow> 'a log_st_scheme \<Rightarrow> 'a log_st_scheme kres" where
  "install_trans_loop 0 tail s = Ok s"
| "install_trans_loop (Suc n) tail s =
     kbind (bread (lg_dev s) (log_block s tail) s) (\<lambda>(s, lbuf).
     kbind (bread (lg_dev s) (lh_block s tail) s) (\<lambda>(s, dbuf).
     kbind (bwrite dbuf (set_data dbuf (bdata (bufs s lbuf)) s)) (\<lambda>s.
     kbind (brelse lbuf (bunpin dbuf s)) (\<lambda>s.
     kbind (brelse dbuf s) (\<lambda>s.
       install_trans_loop n (Suc tail) s)))))"

definition install_trans :: "'a log_st_scheme \<Rightarrow> 'a log_st_scheme kres" where
  "install_trans s = install_trans_loop (nat (lh_n s)) 0 s"

definition read_head_blocks :: "block \<Rightarrow> int \<Rightarrow> (nat \<Rightarrow> u32) \<Rightarrow> nat \<Rightarrow> u32" where
  "read_head_blocks hdr n old = (\<lambda>i. if int i < n then rd32 hdr (4 + 4 * i) else old i)"

definition read_head :: "'a log_st_scheme \<Rightarrow> 'a log_st_scheme kres" where
  "read_head s =
     kbind (bread (lg_dev s) (lg_start s) s) (\<lambda>(s, b).
       let hdr = bdata (bufs s b);
           n = sint (rd32 hdr 0);
           s = s\<lparr>lh_n := n, lh_block := read_head_blocks hdr n (lh_block s)\<rparr>
       in brelse b s)"

primrec write_head_blocks :: "nat \<Rightarrow> (nat \<Rightarrow> u32) \<Rightarrow> block \<Rightarrow> block" where
  "write_head_blocks 0 blocks hdr = hdr"
| "write_head_blocks (Suc n) blocks hdr = wr32 (write_head_blocks n blocks hdr) (4 + 4 * n) (blocks n)"

definition head_data :: "int \<Rightarrow> (nat \<Rightarrow> u32) \<Rightarrow> block \<Rightarrow> block" where
  "head_data n blocks hdr = write_head_blocks (nat n) blocks (wr32 hdr 0 (of_int n))"

definition write_head :: "'a log_st_scheme \<Rightarrow> 'a log_st_scheme kres" where
  "write_head s =
     kbind (bread (lg_dev s) (lg_start s) s) (\<lambda>(s, b).
     kbind (bwrite b (set_data b (head_data (lh_n s) (lh_block s) (bdata (bufs s b))) s)) (\<lambda>s.
       brelse b s))"

definition recover_from_log :: "'a log_st_scheme \<Rightarrow> 'a log_st_scheme kres" where
  "recover_from_log s =
     kbind (read_head s) (\<lambda>s.
     kbind (install_trans s) (\<lambda>s.
       write_head (s\<lparr>lh_n := 0\<rparr>)))"

text \<open>\<open>logstart\<close> and \<open>nlog\<close> are the fields of the super block; the header (124 bytes) fits a block.\<close>

definition initlog :: "u32 \<Rightarrow> u32 \<Rightarrow> u32 \<Rightarrow> 'a log_st_scheme \<Rightarrow> 'a log_st_scheme kres" where
  "initlog dev logstart nlog s =
     recover_from_log (s\<lparr>lg_start := logstart, lg_size := sint nlog, lg_dev := dev\<rparr>)"

definition begin_op :: "'a log_st_scheme \<Rightarrow> 'a log_st_scheme kres" where
  "begin_op s =
     (if committing s then Sleep LogChan
      else if lh_n s + (outstanding s + 1) * MAXOPBLOCKS > LOGSIZE then Sleep LogChan
      else Ok (s\<lparr>outstanding := outstanding s + 1\<rparr>))"

primrec write_log_loop :: "nat \<Rightarrow> nat \<Rightarrow> 'a log_st_scheme \<Rightarrow> 'a log_st_scheme kres" where
  "write_log_loop 0 tail s = Ok s"
| "write_log_loop (Suc n) tail s =
     kbind (bread (lg_dev s) (log_block s tail) s) (\<lambda>(s, to).
     kbind (bread (lg_dev s) (lh_block s tail) s) (\<lambda>(s, from).
     kbind (bwrite to (set_data to (bdata (bufs s from)) s)) (\<lambda>s.
     kbind (brelse from s) (\<lambda>s.
     kbind (brelse to s) (\<lambda>s.
       write_log_loop n (Suc tail) s)))))"

definition write_log :: "'a log_st_scheme \<Rightarrow> 'a log_st_scheme kres" where
  "write_log s = write_log_loop (nat (lh_n s)) 0 s"

definition commit :: "'a log_st_scheme \<Rightarrow> 'a log_st_scheme kres" where
  "commit s =
     (if lh_n s > 0
      then kbind (write_log s) (\<lambda>s.
           kbind (write_head s) (\<lambda>s.
           kbind (install_trans s) (\<lambda>s.
             write_head (s\<lparr>lh_n := 0\<rparr>))))
      else Ok s)"

text \<open>\<open>end_op\<close>: the two critical sections with \<^verbatim>\<open>commit\<close> between them when this was the last operation.\<close>

definition end_op :: "'a log_st_scheme \<Rightarrow> 'a log_st_scheme kres" where
  "end_op s =
     (let s = s\<lparr>outstanding := outstanding s - 1\<rparr> in
      if committing s then Panic ''log.committing''
      else if outstanding s = 0
      then kbind (commit (s\<lparr>committing := True\<rparr>)) (\<lambda>s. Ok (s\<lparr>committing := False\<rparr>))
      else Ok s)"

text \<open>The index at which \<^verbatim>\<open>log_write\<close> finds the block number, \<open>n\<close> if it is not in the header.\<close>

primrec log_find :: "nat \<Rightarrow> (nat \<Rightarrow> u32) \<Rightarrow> u32 \<Rightarrow> nat \<Rightarrow> nat" where
  "log_find 0 blocks b i = i"
| "log_find (Suc n) blocks b i = (if blocks i = b then i else log_find n blocks b (Suc i))"

definition log_write :: "nat \<Rightarrow> 'a log_st_scheme \<Rightarrow> 'a log_st_scheme kres" where
  "log_write b s =
     (if lh_n s \<ge> LOGSIZE \<or> lh_n s \<ge> lg_size s - 1 then Panic ''too big a transaction''
      else if outstanding s < 1 then Panic ''log_write outside of trans''
      else let i = log_find (nat (lh_n s)) (lh_block s) (blockno (bufs s b)) 0;
               s = s\<lparr>lh_block := (lh_block s)(i := blockno (bufs s b))\<rparr>
           in Ok (if int i = lh_n s then (bpin b s)\<lparr>lh_n := lh_n s + 1\<rparr> else s))"

section \<open>One round of each loop\<close>

lemma counts_okI: "(\<And>b. P b < 2 ^ 32) \<Longrightarrow> (\<And>b. b \<in> H \<Longrightarrow> P b + 1 < 2 ^ 32) \<Longrightarrow> counts_ok H P"
  by (simp add: counts_ok_def)

abbreviation supp :: "(u32 \<Rightarrow> nat) \<Rightarrow> u32 set" where
  "supp P \<equiv> {b. P b > 0}"

lemma two_breads:
  assumes r: "cache_rel d s {} P c" and ne: "a \<noteq> b"
    and cnt: "\<And>x. P x < 2 ^ 32" "P a + 1 < 2 ^ 32"
    and room: "card (supp P) < NBUF" "P b > 0 \<or> card (insert a (supp P)) < NBUF"
  obtains g f ia ib where "bread d a s = Ok (s\<lparr>bufs := g\<rparr>, ia)"
    "bread d b (s\<lparr>bufs := g\<rparr>) = Ok (s\<lparr>bufs := f\<rparr>, ib)"
    "cache_rel d (s\<lparr>bufs := f\<rparr>) {a, b} P c"
    "holds d (s\<lparr>bufs := f\<rparr>) a ia" "holds d (s\<lparr>bufs := f\<rparr>) b ib"
proof (rule bread_ok [OF r counts_okI, of a])
  show "P a > 0 \<or> card ({} \<union> supp P) < NBUF" using room(1) by simp
  fix g ia
  assume g: "bread d a s = Ok (s\<lparr>bufs := g\<rparr>, ia)" "cache_rel d (s\<lparr>bufs := g\<rparr>) {a} P c"
    "holds d (s\<lparr>bufs := g\<rparr>) a ia"
  show thesis
  proof (rule bread_ok [OF g(2) counts_okI, of b])
    show "P b > 0 \<or> card ({a} \<union> supp P) < NBUF" using room(2) by simp
    fix f ib
    assume f: "bread d b (s\<lparr>bufs := g\<rparr>) = Ok (s\<lparr>bufs := g\<rparr>\<lparr>bufs := f\<rparr>, ib)"
      "cache_rel d (s\<lparr>bufs := g\<rparr>\<lparr>bufs := f\<rparr>) (insert b {a}) P c" "holds d (s\<lparr>bufs := g\<rparr>\<lparr>bufs := f\<rparr>) b ib"
      "\<And>x j. x \<in> {a} \<Longrightarrow> holds d (s\<lparr>bufs := g\<rparr>) x j \<Longrightarrow> holds d (s\<lparr>bufs := g\<rparr>\<lparr>bufs := f\<rparr>) x j"
    show thesis
      using g(1) f(1-3) f(4) [OF _ g(3)] by (intro that [of g ia f ib]) (simp_all add: insert_commute)
  qed (use cnt ne in auto)
qed (use cnt in auto)

lemma bufs_last: "s\<lparr>bufs := f, disk := D, wtrace := W\<rparr> = s\<lparr>disk := D, wtrace := W, bufs := f\<rparr>"
  by (cases s) simp

text \<open>Copying the contents \<open>x\<close> into the locked block \<open>t\<close> and writing it to disk.\<close>

lemma copy_write:
  assumes r: "cache_rel d s H P c" and t: "t \<in> H" "holds d s t it"
  obtains f where "bwrite it (set_data it x s) = Ok (s\<lparr>disk := (disk s)(t := x), wtrace := wtrace s @ [(t, x)], bufs := f\<rparr>)"
    "cache_rel d (s\<lparr>disk := (disk s)(t := x), wtrace := wtrace s @ [(t, x)], bufs := f\<rparr>) H P (c(t := x))"
    "\<And>a j. holds d (s\<lparr>disk := (disk s)(t := x), wtrace := wtrace s @ [(t, x)], bufs := f\<rparr>) a j = holds d s a j"
proof -
  note sd = set_data_ok [OF r t(2,1), of x]
  obtain f where f: "set_data it x s = s\<lparr>bufs := f\<rparr>" using sd(3) by blast
  have h: "holds d (s\<lparr>bufs := f\<rparr>) a j = holds d s a j" for a j using sd(2) f by simp
  have r1: "cache_rel d (s\<lparr>bufs := f\<rparr>) H P (c(t := x))" using sd(1) f by simp
  note w = bwrite_ok [OF r1 _ t(1), of it]
  show thesis
  proof (rule that [of f])
    show "bwrite it (set_data it x s) = Ok (s\<lparr>disk := (disk s)(t := x), wtrace := wtrace s @ [(t, x)], bufs := f\<rparr>)"
      using w(1) h t(2) f by (simp add: bufs_last)
    show "cache_rel d (s\<lparr>disk := (disk s)(t := x), wtrace := wtrace s @ [(t, x)], bufs := f\<rparr>) H P (c(t := x))"
      using w(2) h t(2) by (simp add: bufs_last)
    show "holds d (s\<lparr>disk := (disk s)(t := x), wtrace := wtrace s @ [(t, x)], bufs := f\<rparr>) a j = holds d s a j" for a j
      using h by (simp add: holds_def)
  qed
qed

lemma two_brelses:
  assumes r: "cache_rel d s {a, b} P c" and ne: "a \<noteq> b" and h: "holds d s a ia" "holds d s b ib"
    and clean: "P a > 0 \<or> c a = disk s a" "P b > 0 \<or> c b = disk s b"
  obtains g f where "brelse ia s = Ok (s\<lparr>bufs := g\<rparr>)" "brelse ib (s\<lparr>bufs := g\<rparr>) = Ok (s\<lparr>bufs := f\<rparr>)"
    "cache_rel d (s\<lparr>bufs := f\<rparr>) {} P c"
proof (rule brelse_ok [OF r h(1) _ clean(1)])
  fix g assume g: "brelse ia s = Ok (s\<lparr>bufs := g\<rparr>)" "cache_rel d (s\<lparr>bufs := g\<rparr>) ({a, b} - {a}) P c"
    "\<And>x j. holds d (s\<lparr>bufs := g\<rparr>) x j = holds d s x j"
  have e: "{a, b} - {a} = {b}" using ne by auto
  show thesis
  proof (rule brelse_ok [OF g(2) [unfolded e], of b ib])
    fix f assume "brelse ib (s\<lparr>bufs := g\<rparr>) = Ok (s\<lparr>bufs := g\<rparr>\<lparr>bufs := f\<rparr>)" "cache_rel d (s\<lparr>bufs := g\<rparr>\<lparr>bufs := f\<rparr>) ({b} - {b}) P c"
    then show thesis using g(1) by (intro that [of g f]) simp_all
  qed (use g(3) h clean(2) in simp_all)
qed simp

lemma write_log_round:
  assumes r: "cache_rel d s {} P c" and d: "lg_dev s = d" and ab: "a = log_block s tail" "b = lh_block s tail" "a \<noteq> b"
    and cnt: "\<And>x. P x < 2 ^ 32" and room: "card (supp P) < NBUF" and P: "P a = 0" "P b > 0"
  obtains f where "write_log_loop (Suc n) tail s =
      write_log_loop n (Suc tail) (s\<lparr>disk := (disk s)(a := c b), wtrace := wtrace s @ [(a, c b)], bufs := f\<rparr>)"
    "cache_rel d (s\<lparr>disk := (disk s)(a := c b), wtrace := wtrace s @ [(a, c b)], bufs := f\<rparr>) {} P (c(a := c b))"
proof (rule two_breads [OF r ab(3) cnt])
  fix g f ia ib
  assume b1: "bread d a s = Ok (s\<lparr>bufs := g\<rparr>, ia)" and b2: "bread d b (s\<lparr>bufs := g\<rparr>) = Ok (s\<lparr>bufs := f\<rparr>, ib)"
    and r2: "cache_rel d (s\<lparr>bufs := f\<rparr>) {a, b} P c"
    and ha: "holds d (s\<lparr>bufs := f\<rparr>) a ia" and hb: "holds d (s\<lparr>bufs := f\<rparr>) b ib"
  have data: "bdata (f ib) = c b" using holds_locked(2) [OF r2 hb] by simp
  show thesis
  proof (rule copy_write [OF r2 _ ha, of "c b"])
    fix f3
    let ?s3 = "s\<lparr>bufs := f\<rparr>\<lparr>disk := (disk (s\<lparr>bufs := f\<rparr>))(a := c b), wtrace := wtrace (s\<lparr>bufs := f\<rparr>) @ [(a, c b)], bufs := f3\<rparr>"
    assume w: "bwrite ia (set_data ia (c b) (s\<lparr>bufs := f\<rparr>)) = Ok ?s3"
      and r3: "cache_rel d ?s3 {a, b} P (c(a := c b))" and h3: "\<And>x j. holds d ?s3 x j = holds d (s\<lparr>bufs := f\<rparr>) x j"
    have r3': "cache_rel d ?s3 {b, a} P (c(a := c b))" using r3 by (simp add: insert_commute)
    show thesis
    proof (rule two_brelses [OF r3', of ib ia])
      fix g4 f4
      assume "brelse ib ?s3 = Ok (?s3\<lparr>bufs := g4\<rparr>)" "brelse ia (?s3\<lparr>bufs := g4\<rparr>) = Ok (?s3\<lparr>bufs := f4\<rparr>)"
        "cache_rel d (?s3\<lparr>bufs := f4\<rparr>) {} P (c(a := c b))"
      then show thesis using b1 b2 w d ab data by (intro that [of f4]) simp_all
    qed (use ha hb h3 ab P in simp_all)
  qed simp
qed (use room P in simp_all)

lemma install_round:
  assumes r: "cache_rel d s {} P c" and d: "lg_dev s = d" and ab: "a = log_block s tail" "b = lh_block s tail" "a \<noteq> b"
    and cnt: "\<And>x. P x < 2 ^ 32" and room: "card (supp P) < NBUF" "P b > 0 \<or> card (insert a (supp P)) < NBUF"
    and P: "P a = 0" "P b \<le> 1"
  obtains f where "install_trans_loop (Suc n) tail s =
      install_trans_loop n (Suc tail) (s\<lparr>disk := (disk s)(b := c a), wtrace := wtrace s @ [(b, c a)], bufs := f\<rparr>)"
    "cache_rel d (s\<lparr>disk := (disk s)(b := c a), wtrace := wtrace s @ [(b, c a)], bufs := f\<rparr>) {}
      (P(b := if P b = 0 then 2 ^ 32 - 1 else 0)) (c(b := c a))"
proof (rule two_breads [OF r ab(3) cnt])
  let ?P = "P(b := if P b = 0 then 2 ^ 32 - 1 else 0)" and ?P' = "P(b := if P b = 0 then 2 ^ 32 - 1 else P b - 1)"
  have PP: "?P' = ?P" using P by auto
  fix g f ia ib
  assume b1: "bread d a s = Ok (s\<lparr>bufs := g\<rparr>, ia)" and b2: "bread d b (s\<lparr>bufs := g\<rparr>) = Ok (s\<lparr>bufs := f\<rparr>, ib)"
    and r2: "cache_rel d (s\<lparr>bufs := f\<rparr>) {a, b} P c"
    and ha: "holds d (s\<lparr>bufs := f\<rparr>) a ia" and hb: "holds d (s\<lparr>bufs := f\<rparr>) b ib"
  have data: "bdata (f ia) = c a" using holds_locked(2) [OF r2 ha] by simp
  show thesis
  proof (rule copy_write [OF r2 _ hb, of "c a"])
    fix f3
    let ?s3 = "s\<lparr>bufs := f\<rparr>\<lparr>disk := (disk (s\<lparr>bufs := f\<rparr>))(b := c a), wtrace := wtrace (s\<lparr>bufs := f\<rparr>) @ [(b, c a)], bufs := f3\<rparr>"
    assume w: "bwrite ib (set_data ib (c a) (s\<lparr>bufs := f\<rparr>)) = Ok ?s3"
      and r3: "cache_rel d ?s3 {a, b} P (c(b := c a))" and h3: "\<And>x j. holds d ?s3 x j = holds d (s\<lparr>bufs := f\<rparr>) x j"
    have hb3: "holds d ?s3 b ib" using h3 hb by simp
    note up = bunpin_ok [OF r3 hb3]
    obtain f4 where f4: "bunpin ib ?s3 = ?s3\<lparr>bufs := f4\<rparr>" using up(3) by auto
    have r4: "cache_rel d (?s3\<lparr>bufs := f4\<rparr>) {a, b} ?P (c(b := c a))" using up(1) f4 PP by simp
    have h4: "holds d (?s3\<lparr>bufs := f4\<rparr>) x j = holds d (s\<lparr>bufs := f\<rparr>) x j" for x j using up(2) f4 h3 by simp
    show thesis
    proof (rule two_brelses [OF r4 ab(3), of ia ib])
      fix g5 f5
      assume "brelse ia (?s3\<lparr>bufs := f4\<rparr>) = Ok (?s3\<lparr>bufs := f4\<rparr>\<lparr>bufs := g5\<rparr>)"
        "brelse ib (?s3\<lparr>bufs := f4\<rparr>\<lparr>bufs := g5\<rparr>) = Ok (?s3\<lparr>bufs := f4\<rparr>\<lparr>bufs := f5\<rparr>)"
        "cache_rel d (?s3\<lparr>bufs := f4\<rparr>\<lparr>bufs := f5\<rparr>) {} ?P (c(b := c a))"
      then show thesis using b1 b2 w d ab data f4 by (intro that [of f5]) simp_all
    qed (use ha hb h4 ab P cache_relD(6) [OF r, of a] in simp_all)
  qed simp
qed (use room P in simp_all)

lemma write_head_ok:
  assumes r: "cache_rel d s {} P c" and d: "lg_dev s = d" and cnt: "\<And>x. P x < 2 ^ 32" and room: "card (supp P) < NBUF"
    and P: "P (lg_start s) = 0" and x: "x = head_data (lh_n s) (lh_block s) (c (lg_start s))"
  obtains f where "write_head s = Ok (s\<lparr>disk := (disk s)(lg_start s := x), wtrace := wtrace s @ [(lg_start s, x)], bufs := f\<rparr>)"
    "cache_rel d (s\<lparr>disk := (disk s)(lg_start s := x), wtrace := wtrace s @ [(lg_start s, x)], bufs := f\<rparr>) {} P (c(lg_start s := x))"
proof (rule bread_ok [OF r counts_okI, of "lg_start s"])
  let ?h = "lg_start s"
  show "P ?h > 0 \<or> card ({} \<union> supp P) < NBUF" using room by simp
  fix g i assume g: "bread d ?h s = Ok (s\<lparr>bufs := g\<rparr>, i)" "cache_rel d (s\<lparr>bufs := g\<rparr>) {?h} P c"
    "holds d (s\<lparr>bufs := g\<rparr>) ?h i" "bdata (g i) = c ?h"
  show thesis
  proof (rule copy_write [OF g(2) _ g(3), of x])
    fix f3
    let ?s3 = "s\<lparr>bufs := g\<rparr>\<lparr>disk := (disk (s\<lparr>bufs := g\<rparr>))(?h := x), wtrace := wtrace (s\<lparr>bufs := g\<rparr>) @ [(?h, x)], bufs := f3\<rparr>"
    assume w: "bwrite i (set_data i x (s\<lparr>bufs := g\<rparr>)) = Ok ?s3"
      and r3: "cache_rel d ?s3 {?h} P (c(?h := x))" and h3: "\<And>x j. holds d ?s3 x j = holds d (s\<lparr>bufs := g\<rparr>) x j"
    show thesis
    proof (rule brelse_ok [OF r3, of ?h i])
      fix f4 assume "brelse i ?s3 = Ok (?s3\<lparr>bufs := f4\<rparr>)" "cache_rel d (?s3\<lparr>bufs := f4\<rparr>) ({?h} - {?h}) P (c(?h := x))"
      then show thesis using g w d x by (intro that [of f4]) (simp_all add: write_head_def)
    qed (use h3 g(3) in simp_all)
  qed simp
qed (use cnt P in simp_all)

section \<open>The loops\<close>

primrec apply_writes :: "(u32 \<times> block) list \<Rightarrow> (u32 \<Rightarrow> block) \<Rightarrow> u32 \<Rightarrow> block" where
  "apply_writes [] D = D"
| "apply_writes (w # ws) D = apply_writes ws (D(fst w := snd w))"

lemma apply_writes_append: "apply_writes (xs @ ys) D = apply_writes ys (apply_writes xs D)"
  by (induction xs arbitrary: D) simp_all

lemma apply_writes_other: "b \<notin> fst ` set ws \<Longrightarrow> apply_writes ws D b = D b"
  by (induction ws arbitrary: D) auto

text \<open>If all the writes agree with \<open>g\<close>, a written block has the contents \<open>g\<close> says.\<close>

lemma apply_writes_agree:
  "(\<And>w. w \<in> set ws \<Longrightarrow> snd w = g (fst w)) \<Longrightarrow> b \<in> fst ` set ws \<or> D b = g b \<Longrightarrow> apply_writes ws D b = g b"
proof (induction ws arbitrary: D)
  case (Cons w ws)
  then show ?case by (cases "b \<in> fst ` set ws") (auto simp: apply_writes_other)
qed simp

definition log_writes :: "'a log_st_scheme \<Rightarrow> (u32 \<Rightarrow> block) \<Rightarrow> nat list \<Rightarrow> (u32 \<times> block) list" where
  "log_writes s c is = map (\<lambda>i. (log_block s i, c (lh_block s i))) is"

definition home_writes :: "'a log_st_scheme \<Rightarrow> (u32 \<Rightarrow> block) \<Rightarrow> nat list \<Rightarrow> (u32 \<times> block) list" where
  "home_writes s c is = map (\<lambda>i. (lh_block s i, c (log_block s i))) is"

lemma log_block_frame [simp]:
  "log_block (s\<lparr>bufs := f\<rparr>) i = log_block s i" "log_block (s\<lparr>disk := D\<rparr>) i = log_block s i"
  "log_block (s\<lparr>wtrace := W\<rparr>) i = log_block s i" "log_block (s\<lparr>lh_n := n\<rparr>) i = log_block s i"
  "log_block (s\<lparr>lh_block := L\<rparr>) i = log_block s i"
  by (simp_all add: log_block_def)

lemma write_log_loop_ok:
  assumes "cache_rel d s {} P c" "lg_dev s = d" "\<And>x. P x < 2 ^ 32" "card (supp P) < NBUF"
    and "\<And>i. tail \<le> i \<Longrightarrow> i < tail + n \<Longrightarrow> P (log_block s i) = 0 \<and> P (lh_block s i) > 0"
    and "ws = log_writes s c [tail..<tail + n]"
  obtains f where "write_log_loop n tail s = Ok (s\<lparr>disk := apply_writes ws (disk s), wtrace := wtrace s @ ws, bufs := f\<rparr>)"
    "cache_rel d (s\<lparr>disk := apply_writes ws (disk s), wtrace := wtrace s @ ws, bufs := f\<rparr>) {} P (apply_writes ws c)"
  using assms
proof (induction n arbitrary: tail s c ws thesis)
  case 0
  have "s = s\<lparr>disk := disk s, wtrace := wtrace s, bufs := bufs s\<rparr>" by simp
  then show ?case using 0(2,7) by (intro 0(1) [of "bufs s"]) (simp_all add: log_writes_def)
next
  case (Suc n)
  let ?a = "log_block s tail" and ?b = "lh_block s tail"
  have P: "P ?a = 0" "P ?b > 0" "?a \<noteq> ?b" using Suc.prems(6) [of tail] by auto
  show ?case
  proof (rule write_log_round [OF Suc.prems(2,3) refl refl P(3) Suc.prems(4,5) P(1,2), of n])
    fix f
    let ?s = "s\<lparr>disk := (disk s)(?a := c ?b), wtrace := wtrace s @ [(?a, c ?b)], bufs := f\<rparr>" and ?c = "c(?a := c ?b)"
    assume l: "write_log_loop (Suc n) tail s = write_log_loop n (Suc tail) ?s" and r: "cache_rel d ?s {} P ?c"
    define w where "w = log_writes ?s ?c [Suc tail..<Suc tail + n]"
    have ws: "ws = (?a, c ?b) # w"
    proof -
      have "?c (lh_block s i) = c (lh_block s i)" if "i \<in> set [Suc tail..<Suc tail + n]" for i
        using Suc.prems(6) [of i] that P(1) by (cases "lh_block s i = ?a") auto
      then show ?thesis
        using upt_conv_Cons [of tail "tail + Suc n"] by (simp add: w_def log_writes_def Suc.prems(7) del: upt_Suc)
    qed
    show ?case
    proof (rule Suc.IH [OF _ r _ _ _ _ w_def])
      fix f'
      assume "write_log_loop n (Suc tail) ?s = Ok (?s\<lparr>disk := apply_writes w (disk ?s), wtrace := wtrace ?s @ w, bufs := f'\<rparr>)"
        "cache_rel d (?s\<lparr>disk := apply_writes w (disk ?s), wtrace := wtrace ?s @ w, bufs := f'\<rparr>) {} P (apply_writes w ?c)"
      then show ?case using l by (intro Suc.prems(1) [of f']) (simp_all add: ws del: write_log_loop.simps)
    qed (use Suc.prems in simp_all)
  qed
qed

text \<open>Installing unpins each home block: the pin of a commit is gone, a block without one wraps.\<close>

definition unpinned :: "u32 set \<Rightarrow> (u32 \<Rightarrow> nat) \<Rightarrow> u32 \<Rightarrow> nat" where
  "unpinned B P = (\<lambda>b. if b \<in> B then (if P b = 0 then 2 ^ 32 - 1 else 0) else P b)"

lemma install_loop_ok:
  assumes "cache_rel d s {} P c" "lg_dev s = d" "\<And>x. P x < 2 ^ 32"
    "distinct (map (lh_block s) [tail..<tail + n])" "B = lh_block s ` {tail..<tail + n}"
    "card (supp P \<union> B) < NBUF"
    and "\<And>i. tail \<le> i \<Longrightarrow> i < tail + n \<Longrightarrow> P (log_block s i) = 0 \<and> P (lh_block s i) \<le> 1 \<and> log_block s i \<notin> B"
    and "ws = home_writes s c [tail..<tail + n]"
  obtains f where "install_trans_loop n tail s = Ok (s\<lparr>disk := apply_writes ws (disk s), wtrace := wtrace s @ ws, bufs := f\<rparr>)"
    "cache_rel d (s\<lparr>disk := apply_writes ws (disk s), wtrace := wtrace s @ ws, bufs := f\<rparr>) {} (unpinned B P) (apply_writes ws c)"
  using assms
proof (induction n arbitrary: tail s c ws B P thesis)
  case 0
  have "s = s\<lparr>disk := disk s, wtrace := wtrace s, bufs := bufs s\<rparr>" by simp
  then show ?case using 0(2,6,9) by (intro 0(1) [of "bufs s"]) (simp_all add: home_writes_def unpinned_def)
next
  case (Suc n)
  let ?a = "log_block s tail" and ?b = "lh_block s tail" and ?B = "lh_block s ` {Suc tail..<Suc tail + n}"
  let ?P = "P(?b := if P ?b = 0 then 2 ^ 32 - 1 else 0)"
  have upt: "[tail..<tail + Suc n] = tail # [Suc tail..<Suc tail + n]" using upt_conv_Cons [of tail "tail + Suc n"] by simp
  have B: "B = insert ?b ?B" and b: "?b \<notin> ?B" and dist: "distinct (map (lh_block s) [Suc tail..<Suc tail + n])"
  proof -
    have "set [tail..<tail + Suc n] = insert tail (set [Suc tail..<Suc tail + n])" by (simp only: upt list.set)
    then show "B = insert ?b ?B" using Suc.prems(6) by (simp del: upt_Suc)
  qed (use Suc.prems(5) [unfolded upt] in \<open>simp_all del: upt_Suc\<close>)
  have P: "P ?a = 0" "P ?b \<le> 1" "?a \<noteq> ?b" using Suc.prems(8) [of tail] B by auto
  have room: "card (supp P) < NBUF" "P ?b > 0 \<or> card (insert ?a (supp P)) < NBUF"
  proof -
    have "card (supp P) \<le> card (supp P \<union> B)" by (intro card_mono) auto
    then show "card (supp P) < NBUF" using Suc.prems(7) by simp
    have "card (insert ?b (supp P)) \<le> card (supp P \<union> B)" using B by (intro card_mono) auto
    moreover have "card (insert ?a (supp P)) \<le> Suc (card (supp P))" by (simp add: card_insert_le_m1)
    ultimately show "P ?b > 0 \<or> card (insert ?a (supp P)) < NBUF" using Suc.prems(7) by (cases "P ?b > 0") auto
  qed
  show ?case
  proof (rule install_round [OF Suc.prems(2,3) refl refl P(3) Suc.prems(4) room P(1,2), of n])
    fix f
    let ?s = "s\<lparr>disk := (disk s)(?b := c ?a), wtrace := wtrace s @ [(?b, c ?a)], bufs := f\<rparr>" and ?c = "c(?b := c ?a)"
    assume l: "install_trans_loop (Suc n) tail s = install_trans_loop n (Suc tail) ?s" and r: "cache_rel d ?s {} ?P ?c"
    have other: "?b \<noteq> log_block s i" if "tail \<le> i" "i < tail + Suc n" for i using Suc.prems(8) [OF that] B by auto
    define w where "w = home_writes ?s ?c [Suc tail..<Suc tail + n]"
    have ws: "ws = (?b, c ?a) # w"
    proof -
      have "c (log_block s i) = ?c (log_block s i)" if "i \<in> set [Suc tail..<Suc tail + n]" for i
        using other [of i] that by auto
      then show ?thesis unfolding Suc.prems(9) home_writes_def upt by (simp add: w_def home_writes_def del: upt_Suc)
    qed
    have up: "unpinned ?B ?P = unpinned B P" using b B by (auto simp: unpinned_def fun_eq_iff)
    have sub: "supp ?P \<union> ?B \<subseteq> supp P \<union> B" using B by auto
    show ?case
    proof (rule Suc.IH [where B = ?B, OF _ r _ _ _ _ _ _ w_def])
      fix f'
      assume "install_trans_loop n (Suc tail) ?s = Ok (?s\<lparr>disk := apply_writes w (disk ?s), wtrace := wtrace ?s @ w, bufs := f'\<rparr>)"
        "cache_rel d (?s\<lparr>disk := apply_writes w (disk ?s), wtrace := wtrace ?s @ w, bufs := f'\<rparr>) {} (unpinned ?B ?P) (apply_writes w ?c)"
      then show ?case using l up by (intro Suc.prems(1) [of f']) (simp_all add: ws del: install_trans_loop.simps)
    next
      show "card (supp ?P \<union> ?B) < NBUF"
        using order_le_less_trans [OF card_mono [OF _ sub] Suc.prems(7)] by simp
      show "?P (log_block ?s i) = 0 \<and> ?P (lh_block ?s i) \<le> 1 \<and> log_block ?s i \<notin> ?B"
        if i: "Suc tail \<le> i" "i < Suc tail + n" for i
      proof -
        have "lh_block s i \<in> ?B" using i by auto
        then have "lh_block s i \<noteq> ?b" using b by metis
        then show ?thesis using Suc.prems(8) [of i] i other [of i] B by auto
      qed
    qed (use Suc.prems(3,4) dist in simp_all)
  qed
qed

section \<open>The header block\<close>

lemma length_write_head_blocks: "4 + 4 * n \<le> length hdr \<Longrightarrow> length (write_head_blocks n blocks hdr) = length hdr"
  by (induction n) simp_all

lemma rd32_write_head_blocks:
  "4 + 4 * n \<le> length hdr \<Longrightarrow> i < n \<Longrightarrow> rd32 (write_head_blocks n blocks hdr) (4 + 4 * i) = blocks i"
proof (induction n)
  case (Suc n)
  then show ?case
    by (cases "i = n") (simp_all add: length_write_head_blocks rd32_wr32 rd32_wr32_other)
qed simp

lemma rd32_write_head_n:
  "4 + 4 * n \<le> length hdr \<Longrightarrow> rd32 (write_head_blocks n blocks hdr) 0 = rd32 hdr 0"
  by (induction n) (simp_all add: length_write_head_blocks rd32_wr32_other)

lemma head_data_decode:
  assumes "length hdr = BSIZE" "0 \<le> n" "n \<le> LOGSIZE"
  shows "sint (rd32 (head_data n blocks hdr) 0) = n"
    "i < nat n \<Longrightarrow> rd32 (head_data n blocks hdr) (4 + 4 * i) = blocks i"
    "length (head_data n blocks hdr) = BSIZE"
proof -
  have l: "4 + 4 * nat n \<le> length (wr32 hdr 0 (of_int n))" using assms by simp
  have "sint (of_int n :: u32) = n" using assms by (simp add: signed_take_bit_int_eq_self sint_sbintrunc')
  then show "sint (rd32 (head_data n blocks hdr) 0) = n"
    using l assms by (simp add: head_data_def rd32_write_head_n rd32_wr32)
  show "i < nat n \<Longrightarrow> rd32 (head_data n blocks hdr) (4 + 4 * i) = blocks i"
    using l by (simp add: head_data_def rd32_write_head_blocks)
  show "length (head_data n blocks hdr) = BSIZE"
    using l assms by (simp add: head_data_def length_write_head_blocks)
qed

lemma cache_rel_log_frame [simp]:
  "cache_rel d (s\<lparr>lh_n := n\<rparr>) H P c = cache_rel d s H P c"
  "cache_rel d (s\<lparr>lh_block := L\<rparr>) H P c = cache_rel d s H P c"
  "cache_rel d (s\<lparr>outstanding := k\<rparr>) H P c = cache_rel d s H P c"
  "cache_rel d (s\<lparr>committing := t\<rparr>) H P c = cache_rel d s H P c"
  "cache_rel d (s\<lparr>lg_start := b\<rparr>) H P c = cache_rel d s H P c"
  "cache_rel d (s\<lparr>lg_size := m\<rparr>) H P c = cache_rel d s H P c"
  "cache_rel d (s\<lparr>lg_dev := e\<rparr>) H P c = cache_rel d s H P c"
  by (simp_all add: cache_rel_def holds_def buf_ok_def)

lemma read_head_ok:
  assumes r: "cache_rel d s {} P c" and d: "lg_dev s = d" and cnt: "\<And>x. P x < 2 ^ 32" and room: "card (supp P) < NBUF"
    and P: "P (lg_start s) = 0" and n: "n = sint (rd32 (c (lg_start s)) 0)"
    and L: "L = read_head_blocks (c (lg_start s)) n (lh_block s)"
  obtains f where "read_head s = Ok (s\<lparr>lh_n := n, lh_block := L, bufs := f\<rparr>)"
    "cache_rel d (s\<lparr>lh_n := n, lh_block := L, bufs := f\<rparr>) {} P c"
proof (rule bread_ok [OF r counts_okI, of "lg_start s"])
  let ?h = "lg_start s"
  show "P ?h > 0 \<or> card ({} \<union> supp P) < NBUF" using room by simp
  fix g i assume g: "bread d ?h s = Ok (s\<lparr>bufs := g\<rparr>, i)" "cache_rel d (s\<lparr>bufs := g\<rparr>) {?h} P c"
    "holds d (s\<lparr>bufs := g\<rparr>) ?h i" "bdata (g i) = c ?h"
  let ?s = "s\<lparr>bufs := g\<rparr>\<lparr>lh_n := n, lh_block := L\<rparr>"
  show thesis
  proof (rule brelse_ok [of d ?s "{?h}" P c ?h i])
    fix f assume "brelse i ?s = Ok (?s\<lparr>bufs := f\<rparr>)" "cache_rel d (?s\<lparr>bufs := f\<rparr>) ({?h} - {?h}) P c"
    then show thesis using g d n L by (intro that [of f]) (simp_all add: read_head_def Let_def)
  qed (use g cache_relD(6) [OF r, of ?h] P in \<open>simp_all add: holds_def\<close>)
qed (use cnt P in simp_all)

section \<open>Recovery\<close>

lemma log_block_inj: "i < 2 ^ 31 \<Longrightarrow> j < 2 ^ 31 \<Longrightarrow> log_block s i = log_block s j \<longleftrightarrow> i = j"
proof -
  assume ij: "i < 2 ^ 31" "j < 2 ^ 31"
  have u: "unat (of_nat i :: u32) = i" "unat (of_nat j :: u32) = j"
    using ij by (simp_all add: unat_of_nat take_bit_nat_eq_self)
  have "i = j" if "(of_nat i :: u32) = of_nat j" using that u by (rule box_equals [OF arg_cong])
  then show ?thesis by (auto simp: log_block_def)
qed

lemma log_block_start: "i < 2 ^ 31 \<Longrightarrow> log_block s i \<noteq> lg_start s"
  using of_nat_u32_0 [of "Suc i"] by (auto simp: log_block_def algebra_simps)

lemma apply_writes_in: "distinct (map fst ws) \<Longrightarrow> (b, x) \<in> set ws \<Longrightarrow> apply_writes ws D b = x"
proof (induction ws arbitrary: D)
  case (Cons w ws)
  then show ?case by (cases "b \<in> fst ` set ws") (auto simp: apply_writes_other image_iff)
qed simp

text \<open>
  Recovery on a disk \<open>D\<close> whose header names the blocks \<open>L\<close>: every home block gets its log block,
  the header is cleared and all other blocks stay.
\<close>

lemma recover_ok:
  assumes r: "cache_rel d s {} (\<lambda>_. 0) D" and d: "lg_dev s = d"
    and n: "sint (rd32 (D (lg_start s)) 0) = int n" "n \<le> 29" "length (D (lg_start s)) = BSIZE"
    and L: "L = map (\<lambda>i. rd32 (D (lg_start s)) (4 + 4 * i)) [0..<n]" "distinct L"
      "lg_start s \<notin> set L" "\<And>i. i < n \<Longrightarrow> log_block s i \<notin> set L"
  obtains r where "recover_from_log s = Ok r" "lh_n r = 0" "lg_start r = lg_start s" "lg_dev r = d"
    "cache_rel d r {} (\<lambda>b. if b \<in> set L then 2 ^ 32 - 1 else 0) (disk r)"
    "\<And>i. i < n \<Longrightarrow> disk r (L ! i) = D (log_block s i)"
    "\<And>b. b \<notin> set L \<Longrightarrow> b \<noteq> lg_start s \<Longrightarrow> disk r b = D b"
    "sint (rd32 (disk r (lg_start s)) 0) = 0" "length (disk r (lg_start s)) = BSIZE"
proof -
  have D: "disk s = D" using cache_relD(6) [OF r] by (simp add: fun_eq_iff)
  let ?h = "lg_start s" and ?B = "read_head_blocks (D (lg_start s)) (int n) (lh_block s)"
  obtain f where rh: "read_head s = Ok (s\<lparr>lh_n := int n, lh_block := ?B, bufs := f\<rparr>)"
    and r1: "cache_rel d (s\<lparr>lh_n := int n, lh_block := ?B, bufs := f\<rparr>) {} (\<lambda>_. 0) D"
    by (rule read_head_ok [OF r d, of "int n" ?B]) (use n in simp_all)
  define s1 where "s1 = s\<lparr>lh_n := int n, lh_block := ?B, bufs := f\<rparr>"
  have B: "map (lh_block s1) [0..<n] = L" using L(1) by (simp add: s1_def read_head_blocks_def)
  have Bi: "lh_block s1 ` {0..<0 + n} = set L" using B [symmetric] by simp
  have lb: "log_block s1 i = log_block s i" for i by (simp add: s1_def)
  have ds1: "lg_dev s1 = d" using d by (simp add: s1_def)
  have Li: "lh_block s1 i = L ! i" if "i < n" for i using that B [symmetric] by simp
  have len: "length L = n" using L(1) by simp
  have card: "card (set L) < NBUF" using card_length [of L] len n(2) by simp
  define ws where "ws = home_writes s1 D [0..<0 + n]"
  have fst: "map fst ws = L" using B by (simp add: ws_def home_writes_def comp_def)
  obtain f2 where it: "install_trans_loop n 0 s1 = Ok (s1\<lparr>disk := apply_writes ws (disk s1), wtrace := wtrace s1 @ ws, bufs := f2\<rparr>)"
    and r2: "cache_rel d (s1\<lparr>disk := apply_writes ws (disk s1), wtrace := wtrace s1 @ ws, bufs := f2\<rparr>) {}
      (unpinned (set L) (\<lambda>_. 0)) (apply_writes ws D)"
    by (rule install_loop_ok [OF r1 [folded s1_def] _ _ _ Bi [symmetric] _ _ ws_def])
      (use ds1 B L(2-4) lb card in simp_all)
  define s2 where "s2 = s1\<lparr>disk := apply_writes ws (disk s1), wtrace := wtrace s1 @ ws, bufs := f2\<rparr>"
  let ?P = "\<lambda>b. if b \<in> set L then 2 ^ 32 - 1 else 0 :: nat" and ?c = "apply_writes ws D"
  have P: "unpinned (set L) (\<lambda>_. 0) = ?P" by (auto simp: unpinned_def)
  have hs: "?c ?h = D ?h" using apply_writes_other [of ?h ws D] L(3) fst by (metis set_map)
  let ?x = "head_data 0 ?B (D ?h)"
  have r3: "cache_rel d (s2\<lparr>lh_n := 0\<rparr>) {} ?P ?c" using r2 P by (simp add: s2_def)
  have s2: "lg_start s2 = ?h" "lg_dev s2 = d" "lh_block s2 = ?B" using d by (simp_all add: s2_def s1_def)
  obtain f3 where wh: "write_head (s2\<lparr>lh_n := 0\<rparr>) =
      Ok (s2\<lparr>lh_n := 0\<rparr>\<lparr>disk := (disk s2)(?h := ?x), wtrace := wtrace s2 @ [(?h, ?x)], bufs := f3\<rparr>)"
    and r4: "cache_rel d (s2\<lparr>lh_n := 0\<rparr>\<lparr>disk := (disk s2)(?h := ?x), wtrace := wtrace s2 @ [(?h, ?x)], bufs := f3\<rparr>) {} ?P (?c(?h := ?x))"
    by (rule write_head_ok [OF r3, of ?x]) (use s2 L(3) card hs in simp_all)
  define s3 where "s3 = s2\<lparr>lh_n := 0\<rparr>\<lparr>disk := (disk s2)(?h := ?x), wtrace := wtrace s2 @ [(?h, ?x)], bufs := f3\<rparr>"
  have d3: "disk s3 = ?c(?h := ?x)" using D by (simp add: s3_def s2_def s1_def)
  show thesis
  proof (rule that [of s3])
    show "recover_from_log s = Ok s3"
      using rh it wh by (simp add: recover_from_log_def install_trans_def s1_def s2_def s3_def)
    show "cache_rel d s3 {} ?P (disk s3)" using r4 d3 by (simp add: s3_def)
    show "disk s3 (L ! i) = D (log_block s i)" if "i < n" for i
    proof -
      have "(L ! i, D (log_block s i)) \<in> set ws" using that Li lb by (force simp: ws_def home_writes_def)
      then have "?c (L ! i) = D (log_block s i)" using apply_writes_in fst L(2) by metis
      moreover have "L ! i \<noteq> ?h" using L(3) that len nth_mem by metis
      ultimately show ?thesis using d3 by simp
    qed
    show "disk s3 b = D b" if "b \<notin> set L" "b \<noteq> ?h" for b
      using that d3 apply_writes_other [of b ws D] fst by (metis fun_upd_other set_map)
  qed (use d3 s2 n(3) in \<open>simp_all add: s3_def s2_def head_data_decode\<close>)
qed

section \<open>The state of a transaction\<close>

text \<open>
  \<open>log_rel d s H L c\<close>: the blocks of \<open>H\<close> are locked, \<open>L\<close> are the block numbers in the in-memory
  header, each pinned once, \<open>c\<close> is what the cache stands for, and the header on disk is empty.
\<close>

definition log_area :: "u32 \<Rightarrow> u32 set" where
  "log_area st = (\<lambda>i. st + of_nat i) ` {..<30}"

definition pins :: "u32 list \<Rightarrow> u32 \<Rightarrow> nat" where
  "pins L b = (if b \<in> set L then 1 else 0)"

definition log_rel :: "u32 \<Rightarrow> 'a log_st_scheme \<Rightarrow> u32 set \<Rightarrow> u32 list \<Rightarrow> (u32 \<Rightarrow> block) \<Rightarrow> bool" where
  "log_rel d s H L c \<longleftrightarrow>
     cache_rel d s H (pins L) c \<and> lg_dev s = d \<and> lh_n s = int (length L) \<and>
     map (lh_block s) [0..<length L] = L \<and> distinct L \<and> length L \<le> 29 \<and>
     (set L \<union> H) \<inter> log_area (lg_start s) = {} \<and>
     length (disk s (lg_start s)) = BSIZE \<and> rd32 (disk s (lg_start s)) 0 = 0"

lemma log_relD:
  assumes "log_rel d s H L c"
  shows "cache_rel d s H (pins L) c" "lg_dev s = d" "lh_n s = int (length L)" "distinct L" "length L \<le> 29"
    "map (lh_block s) [0..<length L] = L" "(set L \<union> H) \<inter> log_area (lg_start s) = {}"
    "length (disk s (lg_start s)) = BSIZE" "rd32 (disk s (lg_start s)) 0 = 0"
  using assms unfolding log_rel_def by blast+

lemma log_rel_nth: "log_rel d s H L c \<Longrightarrow> i < length L \<Longrightarrow> lh_block s i = L ! i"
  using log_relD(6) [of d s H L c] by (metis add_0 diff_zero nth_map_upt)

lemma supp_pins [simp]: "supp (pins L) = set L"
  by (auto simp: pins_def)

lemma pins_small [simp]: "pins L x < 4294967296" "pins L x \<le> Suc 0" "pins L x < 4294967295"
  by (simp_all add: pins_def)

lemma pins_0 [simp]: "pins L b = 0 \<longleftrightarrow> b \<notin> set L" "0 < pins L b \<longleftrightarrow> b \<in> set L"
  by (simp_all add: pins_def)

lemma card_set_30: "length L \<le> 29 \<Longrightarrow> card (set L) < 30"
  using card_length [of L] by simp

lemma log_area_start: "st \<in> log_area st"
  by (auto simp: log_area_def intro: image_eqI [of _ _ 0])

lemma log_area_block: "i < 29 \<Longrightarrow> log_block s i \<in> log_area (lg_start s)"
  by (auto simp: log_area_def log_block_def intro: image_eqI [of _ _ "Suc i"])

lemma log_rel_area:
  assumes "log_rel d s H L c"
  shows "lg_start s \<notin> set L" "i < 29 \<Longrightarrow> log_block s i \<notin> set L"
  using log_relD(7) [OF assms] log_area_start [of "lg_start s"] log_area_block [of i s] by auto

text \<open>The disk writes of a commit: the log, the header, the home blocks, the cleared header.\<close>

definition commit_header :: "'a log_st_scheme \<Rightarrow> block" where
  "commit_header s = head_data (lh_n s) (lh_block s) (disk s (lg_start s))"

definition commit_writes :: "'a log_st_scheme \<Rightarrow> u32 list \<Rightarrow> (u32 \<Rightarrow> block) \<Rightarrow> (u32 \<times> block) list" where
  "commit_writes s L c =
     (if L = [] then []
      else map (\<lambda>i. (log_block s i, c (L ! i))) [0..<length L] @ [(lg_start s, commit_header s)] @
        map (\<lambda>b. (b, c b)) L @ [(lg_start s, head_data 0 (lh_block s) (commit_header s))])"

lemma log_writes_eq:
  assumes "log_rel d s H L c"
  shows "log_writes s c [0..<0 + length L] = map (\<lambda>i. (log_block s i, c (L ! i))) [0..<length L]"
  unfolding log_writes_def using log_rel_nth [OF assms] by simp

lemma log_blocks_distinct: "n \<le> 29 \<Longrightarrow> distinct (map (log_block s) [0..<n])"
  by (simp add: distinct_map inj_on_def log_block_inj)

lemma log_blocks_fst: "map fst (map (\<lambda>i. (log_block s i, c (L ! i))) [0..<n]) = map (log_block s) [0..<n]"
  by simp

lemma start_not_logged: "n \<le> 29 \<Longrightarrow> lg_start s \<notin> set (map (log_block s) [0..<n])"
proof
  assume "n \<le> 29" "lg_start s \<in> set (map (log_block s) [0..<n])"
  then obtain i where "i < n" "lg_start s = log_block s i" by auto
  then show False using log_block_start [of i s] \<open>n \<le> 29\<close> by simp
qed

text \<open>The first half of a commit writes the log and the header, the second installs and clears it.\<close>

lemma commit_log:
  assumes l: "log_rel d s {} L c" and w: "w = map (\<lambda>i. (log_block s i, c (L ! i))) [0..<length L]"
    and x: "x = commit_header s"
  obtains f g W where "write_log s = Ok (s\<lparr>disk := apply_writes w (disk s), wtrace := wtrace s @ w, bufs := g\<rparr>)"
    "write_head (s\<lparr>disk := apply_writes w (disk s), wtrace := wtrace s @ w, bufs := g\<rparr>) =
      Ok (s\<lparr>disk := (apply_writes w (disk s))(lg_start s := x), wtrace := wtrace s @ w @ [(lg_start s, x)], bufs := f\<rparr>)"
    "cache_rel d (s\<lparr>disk := (apply_writes w (disk s))(lg_start s := x), wtrace := wtrace s @ w @ [(lg_start s, x)], bufs := f\<rparr>)
      {} (pins L) ((apply_writes w c)(lg_start s := x))"
proof -
  let ?n = "length L" and ?h = "lg_start s" and ?P = "pins L"
  note D = log_relD [OF l]
  have room: "card (supp ?P) < NBUF" using card_set_30 [OF D(5)] by simp
  have cond: "?P (log_block s i) = 0 \<and> ?P (lh_block s i) > 0" if "i < ?n" for i
    using that log_rel_area(2) [OF l, of i] log_rel_nth [OF l that] D(5) by (simp add: pins_def)
  have w': "w = log_writes s c [0..<0 + ?n]" using w log_writes_eq [OF l] by simp
  obtain g where wl: "write_log_loop ?n 0 s = Ok (s\<lparr>disk := apply_writes w (disk s), wtrace := wtrace s @ w, bufs := g\<rparr>)"
    and r1: "cache_rel d (s\<lparr>disk := apply_writes w (disk s), wtrace := wtrace s @ w, bufs := g\<rparr>) {} ?P (apply_writes w c)"
    by (rule write_log_loop_ok [OF D(1,2) _ room _ w']) (use cond in simp_all)
  let ?s1 = "s\<lparr>disk := apply_writes w (disk s), wtrace := wtrace s @ w, bufs := g\<rparr>"
  have "?h \<notin> fst ` set w"
    using start_not_logged [OF D(5), of s] log_blocks_fst [of s c L ?n] w by (metis set_map)
  moreover have Ph: "?P ?h = 0" using log_rel_area(1) [OF l] by (simp add: pins_def)
  moreover have "c ?h = disk s ?h" using cache_relD(6) [OF D(1), of ?h] Ph by simp
  ultimately have x': "x = head_data (lh_n ?s1) (lh_block ?s1) (apply_writes w c (lg_start ?s1))"
    using x by (simp add: commit_header_def apply_writes_other)
  show thesis
  proof (rule write_head_ok [OF r1 _ _ room _ x'])
    fix f
    assume "write_head ?s1 = Ok (?s1\<lparr>disk := (disk ?s1)(lg_start ?s1 := x), wtrace := wtrace ?s1 @ [(lg_start ?s1, x)], bufs := f\<rparr>)"
      "cache_rel d (?s1\<lparr>disk := (disk ?s1)(lg_start ?s1 := x), wtrace := wtrace ?s1 @ [(lg_start ?s1, x)], bufs := f\<rparr>) {} ?P
        ((apply_writes w c)(lg_start ?s1 := x))"
    then show thesis using wl D(3) by (intro that [of g f]) (simp_all add: write_log_def)
  qed (use D(2) Ph in simp_all)
qed

lemma commit_install:
  assumes r: "cache_rel d s {} (pins L) c'" and d: "lg_dev s = d" and n: "lh_n s = int (length L)" "length L \<le> 29"
    and L: "map (lh_block s) [0..<length L] = L" "distinct L" "lg_start s \<notin> set L"
    and w: "w = map (\<lambda>b. (b, c b)) L" and y: "y = head_data 0 (lh_block s) (c' (lg_start s))"
    and copy: "\<And>i. i < length L \<Longrightarrow> c' (log_block s i) = c (L ! i) \<and> log_block s i \<notin> set L"
  obtains f g where "install_trans s = Ok (s\<lparr>disk := apply_writes w (disk s), wtrace := wtrace s @ w, bufs := g\<rparr>)"
    "write_head (s\<lparr>disk := apply_writes w (disk s), wtrace := wtrace s @ w, bufs := g, lh_n := 0\<rparr>) =
      Ok (s\<lparr>lh_n := 0, disk := (apply_writes w (disk s))(lg_start s := y), wtrace := wtrace s @ w @ [(lg_start s, y)], bufs := f\<rparr>)"
    "cache_rel d (s\<lparr>lh_n := 0, disk := (apply_writes w (disk s))(lg_start s := y), wtrace := wtrace s @ w @ [(lg_start s, y)], bufs := f\<rparr>)
      {} (pins []) ((apply_writes w c')(lg_start s := y))"
proof -
  let ?n = "length L" and ?h = "lg_start s" and ?P = "pins L"
  have Li: "lh_block s i = L ! i" if "i < ?n" for i using L(1) that by (metis add_0 diff_zero nth_map_upt)
  have w': "w = home_writes s c' [0..<0 + ?n]"
  proof -
    have "w = map (\<lambda>i. (L ! i, c (L ! i))) [0..<?n]" unfolding w by (rule nth_equalityI) simp_all
    then show ?thesis using copy Li by (simp add: home_writes_def)
  qed
  have B: "set L = lh_block s ` {0..<0 + ?n}" using arg_cong [OF L(1), of set] by simp
  have up: "unpinned (set L) ?P = pins []" by (auto simp: unpinned_def pins_def fun_eq_iff)
  have room: "card (supp ?P \<union> set L) < NBUF" using card_set_30 [OF n(2)] by simp
  obtain g where it: "install_trans_loop ?n 0 s = Ok (s\<lparr>disk := apply_writes w (disk s), wtrace := wtrace s @ w, bufs := g\<rparr>)"
    and r1: "cache_rel d (s\<lparr>disk := apply_writes w (disk s), wtrace := wtrace s @ w, bufs := g\<rparr>) {} (pins []) (apply_writes w c')"
    unfolding up [symmetric]
    by (rule install_loop_ok [OF r d _ _ B room _ w']) (use L copy Li in simp_all)
  let ?s1 = "s\<lparr>disk := apply_writes w (disk s), wtrace := wtrace s @ w, bufs := g, lh_n := 0\<rparr>"
  have r1': "cache_rel d ?s1 {} (pins []) (apply_writes w c')" using r1 by simp
  have "?h \<notin> fst ` set w" using L(3) by (auto simp: w)
  then have y': "y = head_data (lh_n ?s1) (lh_block ?s1) (apply_writes w c' (lg_start ?s1))"
    using y by (simp add: apply_writes_other)
  have sw: "?s1\<lparr>disk := D, wtrace := W, bufs := f\<rparr> = s\<lparr>lh_n := 0, disk := D, wtrace := W, bufs := f\<rparr>" for D W f by simp
  show thesis
  proof (rule write_head_ok [OF r1' _ _ _ _ y'])
    fix f
    assume "write_head ?s1 = Ok (?s1\<lparr>disk := (disk ?s1)(lg_start ?s1 := y), wtrace := wtrace ?s1 @ [(lg_start ?s1, y)], bufs := f\<rparr>)"
      "cache_rel d (?s1\<lparr>disk := (disk ?s1)(lg_start ?s1 := y), wtrace := wtrace ?s1 @ [(lg_start ?s1, y)], bufs := f\<rparr>) {} (pins [])
        ((apply_writes w c')(lg_start ?s1 := y))"
    then show thesis unfolding sw using it n by (intro that [of g f]) (simp_all add: install_trans_def)
  qed (use d in \<open>simp_all add: pins_def\<close>)
qed

lemma logged_copy:
  assumes "w = map (\<lambda>i. (log_block s i, c (L ! i))) [0..<length L]" "length L \<le> 29" "i < length L"
  shows "((apply_writes w D)(lg_start s := x)) (log_block s i) = c (L ! i)"
proof -
  have "distinct (map fst w)" using log_blocks_distinct [OF assms(2), of s] assms(1) by (simp only: log_blocks_fst)
  moreover have "(log_block s i, c (L ! i)) \<in> set w" using assms(1,3) by auto
  ultimately have "apply_writes w D (log_block s i) = c (L ! i)" by (rule apply_writes_in)
  then show ?thesis using log_block_start [of i s] assms(2,3) by simp
qed

lemma commit_ok:
  assumes l: "log_rel d s {} L c" and ws: "ws = commit_writes s L c"
  obtains f where "commit s = Ok (s\<lparr>lh_n := 0, disk := apply_writes ws (disk s), wtrace := wtrace s @ ws, bufs := f\<rparr>)"
    "cache_rel d (s\<lparr>lh_n := 0, disk := apply_writes ws (disk s), wtrace := wtrace s @ ws, bufs := f\<rparr>)
      {} (pins []) (apply_writes ws (disk s))"
proof (cases "L = []")
  case True
  note D = log_relD [OF l]
  have c: "c = disk s" using cache_relD(6) [OF D(1)] True by (simp add: fun_eq_iff pins_def)
  have n: "lh_n s = 0" using D(3) True by simp
  have "s = s\<lparr>lh_n := 0, disk := disk s, wtrace := wtrace s, bufs := bufs s\<rparr>" using n by (cases s) simp
  then show thesis using D True ws n c by (intro that [of "bufs s"]) (simp_all add: commit_def commit_writes_def)
next
  case False
  note D = log_relD [OF l]
  let ?h = "lg_start s" and ?x = "commit_header s"
  define w1 where "w1 = map (\<lambda>i. (log_block s i, c (L ! i))) [0..<length L]"
  define w2 where "w2 = map (\<lambda>b. (b, c b)) L"
  let ?y = "head_data 0 (lh_block s) ?x"
  have W: "ws = w1 @ [(?h, ?x)] @ w2 @ [(?h, ?y)]" using False by (simp add: ws commit_writes_def w1_def w2_def)
  obtain f g where wl: "write_log s = Ok (s\<lparr>disk := apply_writes w1 (disk s), wtrace := wtrace s @ w1, bufs := g\<rparr>)"
    and wh: "write_head (s\<lparr>disk := apply_writes w1 (disk s), wtrace := wtrace s @ w1, bufs := g\<rparr>) =
      Ok (s\<lparr>disk := (apply_writes w1 (disk s))(?h := ?x), wtrace := wtrace s @ w1 @ [(?h, ?x)], bufs := f\<rparr>)"
    and r: "cache_rel d (s\<lparr>disk := (apply_writes w1 (disk s))(?h := ?x), wtrace := wtrace s @ w1 @ [(?h, ?x)], bufs := f\<rparr>)
      {} (pins L) ((apply_writes w1 c)(?h := ?x))"
    by (rule commit_log [OF l w1_def refl])
  let ?s2 = "s\<lparr>disk := (apply_writes w1 (disk s))(?h := ?x), wtrace := wtrace s @ w1 @ [(?h, ?x)], bufs := f\<rparr>"
  show thesis
  proof (rule commit_install [OF r _ _ D(5) _ D(4) _ w2_def, of ?y])
    fix f3 g3
    let ?s4 = "?s2\<lparr>lh_n := 0, disk := (apply_writes w2 (disk ?s2))(lg_start ?s2 := ?y), wtrace := wtrace ?s2 @ w2 @ [(lg_start ?s2, ?y)], bufs := f3\<rparr>"
    assume it: "install_trans ?s2 = Ok (?s2\<lparr>disk := apply_writes w2 (disk ?s2), wtrace := wtrace ?s2 @ w2, bufs := g3\<rparr>)"
      and wh2: "write_head (?s2\<lparr>disk := apply_writes w2 (disk ?s2), wtrace := wtrace ?s2 @ w2, bufs := g3, lh_n := 0\<rparr>) = Ok ?s4"
      and r4: "cache_rel d ?s4 {} (pins []) ((apply_writes w2 ((apply_writes w1 c)(?h := ?x)))(lg_start ?s2 := ?y))"
    have s4: "?s4 = s\<lparr>lh_n := 0, disk := apply_writes ws (disk s), wtrace := wtrace s @ ws, bufs := f3\<rparr>"
      by (simp add: W apply_writes_append)
    have c4: "(apply_writes w2 ((apply_writes w1 c)(?h := ?x)))(lg_start ?s2 := ?y) = apply_writes ws (disk s)"
      using cache_relD(6) [OF r4] by (simp add: fun_eq_iff W apply_writes_append)
    have n: "0 < lh_n s" using D(3) False by simp
    show thesis
      using wl wh it wh2 r4 n unfolding s4 c4 by (intro that [of f3]) (simp_all add: commit_def)
  qed (use D log_rel_area [OF l] logged_copy [OF w1_def D(5)] in \<open>simp_all\<close>)
qed

section \<open>The operations inside a transaction\<close>

lemma log_relI:
  assumes "cache_rel d s H (pins L) c" "lg_dev s = d" "lh_n s = int (length L)" "distinct L" "length L \<le> 29"
    "map (lh_block s) [0..<length L] = L" "(set L \<union> H) \<inter> log_area (lg_start s) = {}"
    "length (disk s (lg_start s)) = BSIZE" "rd32 (disk s (lg_start s)) 0 = 0"
  shows "log_rel d s H L c"
  using assms unfolding log_rel_def by blast

lemma log_rel_bufs:
  assumes "log_rel d s H L c" "cache_rel d (s\<lparr>bufs := f\<rparr>) H' (pins L) c'" "H' \<inter> log_area (lg_start s) = {}"
  shows "log_rel d (s\<lparr>bufs := f\<rparr>) H' L c'"
  using assms(2,3) log_relD [OF assms(1)] by (intro log_relI) auto

lemma log_bread_ok:
  assumes l: "log_rel d s H L c" and b: "b \<notin> H" "b \<notin> log_area (lg_start s)" and room: "b \<in> set L \<or> card (H \<union> set L) < NBUF"
  obtains f i where "bread d b s = Ok (s\<lparr>bufs := f\<rparr>, i)" "log_rel d (s\<lparr>bufs := f\<rparr>) (insert b H) L c"
    "holds d (s\<lparr>bufs := f\<rparr>) b i" "bdata (f i) = c b"
    "\<And>a j. a \<in> H \<Longrightarrow> holds d s a j \<Longrightarrow> holds d (s\<lparr>bufs := f\<rparr>) a j"
proof (rule bread_ok [OF log_relD(1) [OF l] counts_okI b(1)])
  fix f i assume f: "bread d b s = Ok (s\<lparr>bufs := f\<rparr>, i)" "cache_rel d (s\<lparr>bufs := f\<rparr>) (insert b H) (pins L) c"
    "holds d (s\<lparr>bufs := f\<rparr>) b i" "bdata (f i) = c b"
    "\<And>a j. a \<in> H \<Longrightarrow> holds d s a j \<Longrightarrow> holds d (s\<lparr>bufs := f\<rparr>) a j"
  have "log_rel d (s\<lparr>bufs := f\<rparr>) (insert b H) L c"
    by (rule log_rel_bufs [OF l f(2)]) (use b(2) log_relD(7) [OF l] in auto)
  then show thesis using f by (intro that [of f i]) simp_all
qed (use room in auto)

lemma log_set_data_ok:
  assumes l: "log_rel d s H L c" and i: "holds d s b i" "b \<in> H"
  obtains f where "set_data i x s = s\<lparr>bufs := f\<rparr>" "log_rel d (s\<lparr>bufs := f\<rparr>) H L (c(b := x))"
    "\<And>a j. holds d (s\<lparr>bufs := f\<rparr>) a j = holds d s a j"
proof -
  note sd = set_data_ok [OF log_relD(1) [OF l] i, of x]
  obtain f where f: "set_data i x s = s\<lparr>bufs := f\<rparr>" using sd(3) by blast
  show thesis
    using f sd(1,2) log_rel_bufs [OF l, of f H "c(b := x)"] log_relD(7) [OF l] by (intro that [of f]) auto
qed

lemma log_brelse_ok:
  assumes l: "log_rel d s H L c" and i: "holds d s b i" "b \<in> H" and clean: "b \<in> set L \<or> c b = disk s b"
  obtains f where "brelse i s = Ok (s\<lparr>bufs := f\<rparr>)" "log_rel d (s\<lparr>bufs := f\<rparr>) (H - {b}) L c"
    "\<And>a j. holds d (s\<lparr>bufs := f\<rparr>) a j = holds d s a j"
proof (rule brelse_ok [OF log_relD(1) [OF l] i])
  fix f assume f: "brelse i s = Ok (s\<lparr>bufs := f\<rparr>)" "cache_rel d (s\<lparr>bufs := f\<rparr>) (H - {b}) (pins L) c"
    "\<And>a j. holds d (s\<lparr>bufs := f\<rparr>) a j = holds d s a j"
  have "log_rel d (s\<lparr>bufs := f\<rparr>) (H - {b}) L c" by (rule log_rel_bufs [OF l f(2)]) (use log_relD(7) [OF l] in auto)
  then show thesis using f by (intro that [of f]) simp_all
qed (use clean in simp)

lemma log_find_eq:
  "log_find n blocks b i = (case find (\<lambda>j. blocks j = b) [i..<i + n] of Some j \<Rightarrow> j | None \<Rightarrow> i + n)"
proof (induction n arbitrary: i)
  case (Suc n)
  have "[i..<i + Suc n] = i # [Suc i..<Suc i + n]" using upt_conv_Cons [of i "i + Suc n"] by simp
  then show ?case using Suc.IH [of "Suc i"] by (simp del: upt_Suc split: option.split)
qed simp

lemma log_find_in:
  assumes "log_rel d s H L c"
  shows "b \<notin> set L \<Longrightarrow> log_find (length L) (lh_block s) b 0 = length L"
    "b \<in> set L \<Longrightarrow> log_find (length L) (lh_block s) b 0 < length L \<and> lh_block s (log_find (length L) (lh_block s) b 0) = b"
proof -
  let ?f = "find (\<lambda>j. lh_block s j = b) [0..<length L]"
  have e: "log_find (length L) (lh_block s) b 0 = (case ?f of Some j \<Rightarrow> j | None \<Rightarrow> length L)"
    using log_find_eq [of "length L" "lh_block s" b 0] by (simp split: option.split)
  have "set L = lh_block s ` {..<length L}" using arg_cong [OF log_relD(6) [OF assms], of set] by (simp add: atLeast0LessThan)
  then have mem: "b \<in> set L \<longleftrightarrow> ?f \<noteq> None" by (force simp: find_None_iff)
  show "b \<notin> set L \<Longrightarrow> log_find (length L) (lh_block s) b 0 = length L" using mem e by simp
  assume "b \<in> set L"
  then obtain j where "?f = Some j" using mem by blast
  then show "log_find (length L) (lh_block s) b 0 < length L \<and> lh_block s (log_find (length L) (lh_block s) b 0) = b"
    using e find_Some_set [of _ _ j] by fastforce
qed

definition log_add :: "u32 \<Rightarrow> u32 list \<Rightarrow> u32 list" where
  "log_add b L = (if b \<in> set L then L else L @ [b])"

lemma log_write_ok:
  assumes l: "log_rel d s H L c" and i: "holds d s b i" "b \<in> H"
    and op: "outstanding s \<ge> 1" and room: "length L < 29" "lg_size s = 30"
  obtains f g where "log_write i s = Ok (s\<lparr>lh_block := g, bufs := f, lh_n := int (length (log_add b L))\<rparr>)"
    "log_rel d (s\<lparr>lh_block := g, bufs := f, lh_n := int (length (log_add b L))\<rparr>) H (log_add b L) c"
    "\<And>a j. holds d (s\<lparr>lh_block := g, bufs := f, lh_n := int (length (log_add b L))\<rparr>) a j = holds d s a j"
proof (cases "b \<in> set L")
  case True
  note R = log_relD [OF l]
  have bn: "blockno (bufs s i) = b" using i(1) by (simp add: holds_def)
  have g: "(lh_block s)(log_find (length L) (lh_block s) b 0 := b) = lh_block s" using log_find_in(2) [OF l True] by (simp add: fun_upd_idem)
  have "s = s\<lparr>lh_block := lh_block s, bufs := bufs s, lh_n := int (length L)\<rparr>" using R(3) by (cases s) simp
  moreover have "log_write i s = Ok s"
    using R(3) op room bn g log_find_in(2) [OF l True] by (simp add: log_write_def Let_def)
  ultimately show thesis using l True by (intro that [of "bufs s" "lh_block s"]) (simp_all add: log_add_def)
next
  case False
  note R = log_relD [OF l]
  have bn: "blockno (bufs s i) = b" using i(1) by (simp add: holds_def)
  let ?g = "(lh_block s)(length L := b)"
  let ?s = "s\<lparr>lh_block := ?g\<rparr>"
  have r: "cache_rel d ?s H (pins L) c" using R(1) by simp
  have h: "holds d ?s b i" using i(1) by (simp add: holds_def)
  note bp = bpin_ok [OF r h i(2)]
  obtain f where f: "bpin i ?s = ?s\<lparr>bufs := f\<rparr>" using bp(3) by blast
  have P: "(pins L)(b := pins L b + 1) = pins (L @ [b])" using False by (auto simp: pins_def fun_eq_iff)
  let ?t = "s\<lparr>lh_block := ?g, bufs := f, lh_n := int (length (L @ [b]))\<rparr>"
  have "cache_rel d ?t H (pins (L @ [b])) c" using bp(1) f P by simp
  moreover have "map (lh_block ?t) [0..<length (L @ [b])] = L @ [b]"
    using R(6) by (simp add: map_eq_conv [THEN iffD2])
  ultimately have "log_rel d ?t H (L @ [b]) c"
    using R(2,4,7,8,9) room(1) False i(2) by (intro log_relI) auto
  moreover have "log_write i s = Ok ?t"
    using R(3) op room bn f log_find_in(1) [OF l False] by (simp add: log_write_def Let_def)
  moreover have "holds d ?t a j = holds d s a j" for a j using bp(2) f by (simp add: holds_def)
  ultimately show thesis using False by (intro that [of f ?g]) (simp_all add: log_add_def)
qed

section \<open>Crashes\<close>

text \<open>
  After a crash the machine boots: \<open>t\<close> is a memory with zeroed buffers on the disk the crash left,
  and \<^verbatim>\<open>initlog\<close> recovers.
\<close>

lemma initlog_ok:
  fixes s :: "'a log_st_scheme" and t :: "'b log_st_scheme"
  assumes t: "boot_bufs t" "d \<noteq> 0" and D: "D = disk t"
    and n: "sint (rd32 (D (lg_start s)) 0) = int n" "n \<le> 29" "length (D (lg_start s)) = BSIZE"
    and L: "L = map (\<lambda>i. rd32 (D (lg_start s)) (4 + 4 * i)) [0..<n]" "distinct L"
      "lg_start s \<notin> set L" "\<And>i. i < n \<Longrightarrow> log_block s i \<notin> set L"
  obtains r where "initlog d (lg_start s) nlog (binit t) = Ok r"
    "cache_rel d r {} (\<lambda>b. if b \<in> set L then 2 ^ 32 - 1 else 0) (disk r)"
    "\<And>i. i < n \<Longrightarrow> disk r (L ! i) = D (log_block s i)"
    "\<And>b. b \<notin> set L \<Longrightarrow> b \<noteq> lg_start s \<Longrightarrow> disk r b = D b"
proof -
  let ?t = "(binit t)\<lparr>lg_start := lg_start s, lg_size := sint nlog, lg_dev := d\<rparr>"
  have r: "cache_rel d ?t {} (\<lambda>_. 0) D" using binit_ok [OF t] D by simp
  have lb: "log_block ?t i = log_block s i" for i by (simp add: log_block_def)
  show thesis
    by (rule recover_ok [OF r _ _ n(2) _ _ L(2)]) (use n L lb that in \<open>simp_all add: initlog_def\<close>)
qed

lemma prefix_of_commit:
  assumes "log_rel d s {} L c" "L \<noteq> []"
  shows "k \<le> length L \<Longrightarrow> take k (commit_writes s L c) = take k (map (\<lambda>i. (log_block s i, c (L ! i))) [0..<length L])"
    "length L < k \<Longrightarrow> k < 2 * length L + 2 \<Longrightarrow> take k (commit_writes s L c) =
      map (\<lambda>i. (log_block s i, c (L ! i))) [0..<length L] @ [(lg_start s, commit_header s)] @
      take (k - length L - 1) (map (\<lambda>b. (b, c b)) L)"
    "2 * length L + 2 \<le> k \<Longrightarrow> take k (commit_writes s L c) = commit_writes s L c"
  using assms(2) by (auto simp: commit_writes_def take_Cons' Suc_diff_le split: nat.split)

text \<open>Before the header write the disk has an empty header and the old home blocks.\<close>

lemma crash_before:
  assumes l: "log_rel d s {} L c" and k: "k \<le> length L"
    and D: "D = apply_writes (take k (map (\<lambda>i. (log_block s i, c (L ! i))) [0..<length L])) (disk s)"
  shows "D (lg_start s) = disk s (lg_start s)" "b \<notin> log_area (lg_start s) \<Longrightarrow> D b = disk s b"
proof -
  let ?w = "take k (map (\<lambda>i. (log_block s i, c (L ! i))) [0..<length L])"
  have sub: "fst ` set ?w \<subseteq> set (map (log_block s) [0..<length L])" by (auto dest!: in_set_takeD)
  have area: "set (map (log_block s) [0..<length L]) \<subseteq> log_area (lg_start s)"
    using log_area_block [of _ s] log_relD(5) [OF l] by auto
  show "D (lg_start s) = disk s (lg_start s)"
    unfolding D by (rule apply_writes_other) (use sub start_not_logged [OF log_relD(5) [OF l], of s] in blast)
  show "b \<notin> log_area (lg_start s) \<Longrightarrow> D b = disk s b"
    unfolding D by (rule apply_writes_other) (use sub area in blast)
qed

text \<open>From the header write on the header names \<open>L\<close> and the log has the new contents.\<close>

lemma crash_after:
  assumes l: "log_rel d s {} L c"
    and D: "D = apply_writes (map (\<lambda>i. (log_block s i, c (L ! i))) [0..<length L] @ [(lg_start s, commit_header s)] @
      take m (map (\<lambda>b. (b, c b)) L)) (disk s)"
  shows "D (lg_start s) = commit_header s" "i < length L \<Longrightarrow> D (log_block s i) = c (L ! i)"
    "b \<notin> set L \<Longrightarrow> b \<notin> log_area (lg_start s) \<Longrightarrow> D b = disk s b"
    "m = length L \<Longrightarrow> b \<in> set L \<Longrightarrow> D b = c b"
proof -
  note R = log_relD [OF l]
  define w where "w = map (\<lambda>i. (log_block s i, c (L ! i))) [0..<length L]"
  define v where "v = take m (map (\<lambda>b. (b, c b)) L)"
  have v: "fst ` set v \<subseteq> set L" "\<And>p. p \<in> set v \<Longrightarrow> snd p = c (fst p)" by (auto simp: v_def dest!: in_set_takeD)
  have D': "D = apply_writes v ((apply_writes w (disk s))(lg_start s := commit_header s))"
    using D by (simp add: w_def v_def apply_writes_append)
  have o: "b \<notin> set L \<Longrightarrow> D b = ((apply_writes w (disk s))(lg_start s := commit_header s)) b" for b
    unfolding D' by (rule apply_writes_other) (use v(1) in blast)
  show "D (lg_start s) = commit_header s" using o log_rel_area(1) [OF l] by simp
  show "i < length L \<Longrightarrow> D (log_block s i) = c (L ! i)"
    using o [of "log_block s i"] log_rel_area(2) [OF l, of i] R(5) logged_copy [OF w_def R(5), of i] by simp
  have "set (map fst w) \<subseteq> log_area (lg_start s)"
    using log_area_block [of _ s] R(5) by (auto simp: w_def)
  then show "b \<notin> set L \<Longrightarrow> b \<notin> log_area (lg_start s) \<Longrightarrow> D b = disk s b"
    using o [of b] log_area_start [of "lg_start s"] apply_writes_other [of b w "disk s"] by auto
  assume "m = length L" "b \<in> set L"
  then have "b \<in> fst ` set v" by (force simp: v_def)
  then show "D b = c b" unfolding D' by (intro apply_writes_agree [OF v(2)]) auto
qed

definition recovered_to :: "u32 \<Rightarrow> u32 \<Rightarrow> u32 \<Rightarrow> 'a log_st_scheme \<Rightarrow> (u32 \<Rightarrow> block) \<Rightarrow> bool" where
  "recovered_to d st nlog t c \<longleftrightarrow>
     (\<exists>r. initlog d st nlog (binit t) = Ok r \<and> (\<forall>b. b \<notin> log_area st \<longrightarrow> disk r b = c b))"

lemma recover_empty:
  fixes s :: "'a log_st_scheme" and t :: "'b log_st_scheme"
  assumes t: "boot_bufs t" "d \<noteq> 0" and h: "sint (rd32 (disk t (lg_start s)) 0) = 0" "length (disk t (lg_start s)) = BSIZE"
    and c: "\<And>b. b \<notin> log_area (lg_start s) \<Longrightarrow> disk t b = c b"
  shows "recovered_to d (lg_start s) nlog t c"
proof (rule initlog_ok [OF t refl, of s 0 "[]" nlog])
  fix r assume r: "initlog d (lg_start s) nlog (binit t) = Ok r"
    "\<And>b. b \<notin> set [] \<Longrightarrow> b \<noteq> lg_start s \<Longrightarrow> disk r b = disk t b"
  have "disk r b = c b" if "b \<notin> log_area (lg_start s)" for b
    using r(2) [of b] c [OF that] that log_area_start [of "lg_start s"] by (cases "b = lg_start s") simp_all
  then show ?thesis using r(1) by (auto simp: recovered_to_def)
qed (use h in simp_all)

lemma clean_disk:
  assumes l: "log_rel d s {} L c" and b: "b \<notin> set L"
  shows "disk s b = c b"
  using cache_relD(6) [OF log_relD(1) [OF l], of b] b by simp

lemma recover_committed:
  fixes s :: "'a log_st_scheme" and t :: "'b log_st_scheme"
  assumes l: "log_rel d s {} L c" and t: "boot_bufs t" "d \<noteq> 0"
    and D: "disk t (lg_start s) = commit_header s" "\<And>i. i < length L \<Longrightarrow> disk t (log_block s i) = c (L ! i)"
      "\<And>b. b \<notin> set L \<Longrightarrow> b \<notin> log_area (lg_start s) \<Longrightarrow> disk t b = disk s b"
  shows "recovered_to d (lg_start s) nlog t c"
proof -
  note R = log_relD [OF l]
  have dec: "sint (rd32 (commit_header s) 0) = int (length L)" "length (commit_header s) = BSIZE"
    "\<And>i. i < length L \<Longrightarrow> rd32 (commit_header s) (4 + 4 * i) = L ! i"
    unfolding commit_header_def using head_data_decode [OF R(8), of "lh_n s"] R(3,5) log_rel_nth [OF l] by simp_all
  have L: "L = map (\<lambda>i. rd32 (disk t (lg_start s)) (4 + 4 * i)) [0..<length L]"
    by (rule nth_equalityI) (simp_all add: D(1) dec(3))
  show ?thesis
  proof (rule initlog_ok [OF t refl, of s "length L" L nlog])
    fix r assume r: "initlog d (lg_start s) nlog (binit t) = Ok r"
      "\<And>i. i < length L \<Longrightarrow> disk r (L ! i) = disk t (log_block s i)"
      "\<And>b. b \<notin> set L \<Longrightarrow> b \<noteq> lg_start s \<Longrightarrow> disk r b = disk t b"
    have "disk r b = c b" if b: "b \<notin> log_area (lg_start s)" for b
    proof (cases "b \<in> set L")
      case True
      then obtain i where "i < length L" "b = L ! i" by (auto simp: in_set_conv_nth)
      then show ?thesis using r(2) D(2) by simp
    next
      case False
      then show ?thesis using r(3) [OF False] D(3) [OF False b] clean_disk [OF l False] b log_area_start [of "lg_start s"] by auto
    qed
    then show ?thesis using r(1) by (auto simp: recovered_to_def)
  qed (use dec D(1) L R log_rel_area [OF l] in simp_all)
qed

lemma crash_recovers:
  fixes s :: "'a log_st_scheme" and t :: "'b log_st_scheme"
  assumes l: "log_rel d s {} L c" and t: "boot_bufs t" "d \<noteq> 0"
    and D: "disk t = apply_writes (take k (commit_writes s L c)) (disk s)"
  shows "recovered_to d (lg_start s) nlog t (disk s) \<or> recovered_to d (lg_start s) nlog t c"
proof (cases "L = [] \<or> k \<le> length L")
  case True
  have D: "disk t = apply_writes (take k (map (\<lambda>i. (log_block s i, c (L ! i))) [0..<length L])) (disk s)"
  proof (cases "L = []")
    case False
    then show ?thesis using D True prefix_of_commit(1) [OF l False, of k] by simp
  qed (use D in \<open>simp add: commit_writes_def\<close>)
  have k: "min k (length L) \<le> length L" by simp
  have D': "disk t = apply_writes (take (min k (length L)) (map (\<lambda>i. (log_block s i, c (L ! i))) [0..<length L])) (disk s)"
    using D by (simp add: min_def)
  show ?thesis
    using recover_empty [OF t, of s "disk s" nlog] crash_before [OF l k D'] log_relD(8,9) [OF l] by simp
next
  case False
  note R = log_relD [OF l] and P = prefix_of_commit [OF l, of k]
  show ?thesis
  proof (cases "k < 2 * length L + 2")
    case True
    then have D': "disk t = apply_writes (map (\<lambda>i. (log_block s i, c (L ! i))) [0..<length L] @ [(lg_start s, commit_header s)] @
      take (k - length L - 1) (map (\<lambda>b. (b, c b)) L)) (disk s)" using D P(2) False by simp
    show ?thesis using recover_committed [OF l t crash_after(1-3) [OF l D']] by simp
  next
    case k: False
    let ?A = "map (\<lambda>i. (log_block s i, c (L ! i))) [0..<length L] @ [(lg_start s, commit_header s)] @
      take (length L) (map (\<lambda>b. (b, c b)) L)"
    let ?y = "head_data 0 (lh_block s) (commit_header s)"
    have D': "disk t = (apply_writes ?A (disk s))(lg_start s := ?y)"
      using D P(3) False k by (simp add: commit_writes_def apply_writes_append)
    have "length (commit_header s) = BSIZE"
      unfolding commit_header_def using head_data_decode(3) [OF R(8), of "lh_n s"] R(3,5) by simp
    then have "sint (rd32 (disk t (lg_start s)) 0) = 0" "length (disk t (lg_start s)) = BSIZE"
      using D' by (simp_all add: head_data_decode)
    moreover have "disk t b = c b" if "b \<notin> log_area (lg_start s)" for b
      using D' crash_after(3,4) [OF l refl, where b = b and m = "length L"] clean_disk [OF l, of b] that log_area_start [of "lg_start s"]
      by (cases "b \<in> set L") auto
    ultimately show ?thesis using recover_empty [OF t, of s c nlog] by simp
  qed
qed

text \<open>
  C1. A commit is atomic with respect to crashes. Whatever prefix of its disk writes reached the
  disk, booting and recovering from it succeeds and leaves every block outside the log with
  the contents from before the transaction, or every such block with the contents after it; and a commit that
  runs to its end leaves the new contents at home.
\<close>

theorem commit_crash_atomic:
  assumes "log_rel d s {} L c" "d \<noteq> 0"
  shows "\<exists>s' ws. commit s = Ok s' \<and> wtrace s' = wtrace s @ ws \<and> disk s' = apply_writes ws (disk s) \<and> lh_n s' = 0 \<and>
    (\<forall>b. b \<notin> log_area (lg_start s) \<longrightarrow> disk s' b = c b) \<and>
    (\<forall>k t. boot_bufs t \<and> disk t = apply_writes (take k ws) (disk s) \<longrightarrow>
      recovered_to d (lg_start s) nlog t (disk s) \<or> recovered_to d (lg_start s) nlog t c)"
proof (rule commit_ok [OF assms(1) refl])
  let ?ws = "commit_writes s L c"
  fix f assume f: "commit s = Ok (s\<lparr>lh_n := 0, disk := apply_writes ?ws (disk s), wtrace := wtrace s @ ?ws, bufs := f\<rparr>)"
  have "apply_writes ?ws (disk s) b = c b" if "b \<notin> log_area (lg_start s)" for b
    using that log_area_start [of "lg_start s"] clean_disk [OF assms(1), of b] crash_after(3,4) [OF assms(1) refl, where b = b and m = "length L"]
    by (cases "b \<in> set L") (auto simp: commit_writes_def apply_writes_append)
  then show ?thesis
    using f crash_recovers [OF assms(1) _ assms(2)] by (intro exI [of _ "s\<lparr>lh_n := 0, disk := apply_writes ?ws (disk s), wtrace := wtrace s @ ?ws, bufs := f\<rparr>"] exI [of _ ?ws]) auto
qed

section \<open>Recovery and the reference counts\<close>

text \<open>
  C32. Recovery leaks a reference of every block it installs: \<^verbatim>\<open>install_trans\<close> unpins the block although
  only \<^verbatim>\<open>log_write\<close> pins, so that its counter wraps to \<open>2\<^sup>3\<^sup>2 - 1\<close>, and the first process that
  reads the block afterwards holds the locked buffer with a reference count of zero, which \<^verbatim>\<open>bget\<close>
  takes for a free buffer.
\<close>

theorem recovery_underflows_refcnt:
  fixes t :: "'a log_st_scheme"
  assumes "boot_bufs t" "d \<noteq> 0" "sint (rd32 (disk t st) 0) = int n" "n \<le> 29" "length (disk t st) = BSIZE"
    "L = map (\<lambda>i. rd32 (disk t st) (4 + 4 * i)) [0..<n]" "distinct L" "set L \<inter> log_area st = {}" "b \<in> set L"
  shows "\<exists>r i r'. initlog d st nlog (binit t) = Ok r \<and> holds d r b i \<and> refcnt (bufs r i) = - 1 \<and>
    bread d b r = Ok (r', i) \<and> refcnt (bufs r' i) = 0 \<and> sl_locked (blk (bufs r' i))"
proof -
  let ?s = "t\<lparr>lg_start := st\<rparr>"
  have area: "log_block ?s i \<notin> set L" if "i < n" for i
    using log_area_block [of i ?s] that assms(4,8) by auto
  show ?thesis
  proof (rule initlog_ok [OF assms(1,2) refl, of ?s n L nlog])
    fix r assume r: "initlog d (lg_start ?s) nlog (binit t) = Ok r"
      "cache_rel d r {} (\<lambda>b. if b \<in> set L then 2 ^ 32 - 1 else 0) (disk r)"
    obtain i where i: "holds d r b i" using cache_relD(5) [OF r(2), of b] assms(9) by auto
    then have iN: "i < NBUF" "bdev (bufs r i) = d" "blockno (bufs r i) = b" by (auto simp: holds_def)
    have ok: "buf_ok r {} (\<lambda>b. if b \<in> set L then 2 ^ 32 - 1 else 0) (disk r) (bufs r i)"
      using cache_relD(4) [OF r(2) iN(1,2)] .
    have one: "(of_nat (2 ^ 32 - 1) :: u32) = - 1" by simp
    have rc: "refcnt (bufs r i) = - 1" "valid (bufs r i)" "\<not> sl_locked (blk (bufs r i))"
      using ok iN(3) assms(9) one by (auto simp: buf_ok_def)
    have "bget_cached NBUF r d b (nxt (bufs r bhead)) = Some i" using bget_cached_iff [OF r(2)] i by blast
    then have "\<exists>r'. bread d b r = Ok (r', i) \<and> refcnt (bufs r' i) = 0 \<and> sl_locked (blk (bufs r' i))"
      using rc by (simp add: bread_def bget_def lock_buf_def acquiresleep_def upd_buf_def)
    then show ?thesis using r(1) i rc(1) by auto
  qed (use assms area log_area_start [of st] in auto)
qed

text \<open>A change of a block as the file system makes it: read it, change it, log it and release it.\<close>

definition update_block :: "u32 \<Rightarrow> u32 \<Rightarrow> block \<Rightarrow> 'a log_st_scheme \<Rightarrow> 'a log_st_scheme kres" where
  "update_block d b x s = kbind (bread d b s) (\<lambda>(s, i). kbind (log_write i (set_data i x s)) (brelse i))"

fun update_blocks :: "u32 \<Rightarrow> (u32 \<times> block) list \<Rightarrow> 'a log_st_scheme \<Rightarrow> 'a log_st_scheme kres" where
  "update_blocks d [] s = Ok s"
| "update_blocks d ((b, x) # us) s = kbind (update_block d b x s) (update_blocks d us)"

lemma update_block_ok:
  assumes l: "log_rel d s {} L c" and b: "b \<notin> log_area (lg_start s)" "b \<notin> set L"
    and op: "outstanding s \<ge> 1" "lg_size s = 30" "length L < 29"
  shows "\<exists>s'. update_block d b x s = Ok s' \<and> log_rel d s' {} (L @ [b]) (c(b := x)) \<and>
    outstanding s' = outstanding s \<and> lg_size s' = lg_size s \<and> lg_start s' = lg_start s"
proof -
  have room: "b \<in> set L \<or> card ({} \<union> set L) < NBUF" using card_set_30 [of L] op(3) by simp
  show ?thesis
  proof (rule log_bread_ok [OF l _ b(1) room])
    fix f i assume f: "bread d b s = Ok (s\<lparr>bufs := f\<rparr>, i)" "log_rel d (s\<lparr>bufs := f\<rparr>) (insert b {}) L c" "holds d (s\<lparr>bufs := f\<rparr>) b i"
    show ?thesis
    proof (rule log_set_data_ok [OF f(2,3), of x])
      fix g let ?s2 = "s\<lparr>bufs := f\<rparr>\<lparr>bufs := g\<rparr>"
      assume g: "set_data i x (s\<lparr>bufs := f\<rparr>) = ?s2" "log_rel d ?s2 (insert b {}) L (c(b := x))"
        "\<And>a j. holds d ?s2 a j = holds d (s\<lparr>bufs := f\<rparr>) a j"
      have h: "holds d ?s2 b i" using g(3) f(3) by simp
      show ?thesis
      proof (rule log_write_ok [OF g(2) h])
        fix k m let ?s3 = "?s2\<lparr>lh_block := m, bufs := k, lh_n := int (length (log_add b L))\<rparr>"
        assume w: "log_write i ?s2 = Ok ?s3" "log_rel d ?s3 (insert b {}) (log_add b L) (c(b := x))" "\<And>a j. holds d ?s3 a j = holds d ?s2 a j"
        have h3: "holds d ?s3 b i" using w(3) h by simp
        show ?thesis
        proof (rule log_brelse_ok [OF w(2) h3])
          fix n assume "brelse i ?s3 = Ok (?s3\<lparr>bufs := n\<rparr>)" "log_rel d (?s3\<lparr>bufs := n\<rparr>) (insert b {} - {b}) (log_add b L) (c(b := x))"
          then show ?thesis using f(1) g(1) w(1) b(2) by (simp add: update_block_def log_add_def)
        qed (simp_all add: log_add_def)
      qed (use op in simp_all)
    qed simp
  qed simp_all
qed

lemma update_block_full:
  assumes l: "log_rel d s {} L c" and b: "b \<notin> log_area (lg_start s)" and op: "lg_size s = 30" "length L = 29"
  shows "update_block d b x s = Panic ''too big a transaction''"
proof -
  have room: "b \<in> set L \<or> card ({} \<union> set L) < NBUF" using card_set_30 [of L] op(2) by simp
  show ?thesis
  proof (rule log_bread_ok [OF l _ b room])
    fix f i assume f: "bread d b s = Ok (s\<lparr>bufs := f\<rparr>, i)"
    have "lh_n (set_data i x (s\<lparr>bufs := f\<rparr>)) = 29" "lg_size (set_data i x (s\<lparr>bufs := f\<rparr>)) = 30"
      using log_relD(3) [OF l] op by (simp_all add: set_data_def upd_buf_def)
    then show ?thesis using f by (simp add: update_block_def log_write_def)
  qed simp
qed

lemma update_blocks_ok:
  assumes "log_rel d s {} L c" "set (map fst us) \<inter> log_area (lg_start s) = {}" "distinct (L @ map fst us)"
    "outstanding s \<ge> 1" "lg_size s = 30" "length L + length us \<le> 29"
  shows "\<exists>s' c'. update_blocks d us s = Ok s' \<and> log_rel d s' {} (L @ map fst us) c' \<and>
    lg_size s' = lg_size s \<and> lg_start s' = lg_start s"
  using assms
proof (induction us arbitrary: L s c)
  case (Cons u us)
  obtain b x where u: "u = (b, x)" by fastforce
  have b: "b \<notin> log_area (lg_start s)" "b \<notin> set L" "length L < 29" using Cons.prems(2,3,6) u by auto
  obtain s1 where s1: "update_block d b x s = Ok s1" "log_rel d s1 {} (L @ [b]) (c(b := x))"
    "outstanding s1 = outstanding s" "lg_size s1 = lg_size s" "lg_start s1 = lg_start s"
    using update_block_ok [OF Cons.prems(1) b(1,2) Cons.prems(4,5) b(3)] by blast
  have "\<exists>s' c'. update_blocks d us s1 = Ok s' \<and> log_rel d s' {} ((L @ [b]) @ map fst us) c' \<and> lg_size s' = lg_size s1 \<and> lg_start s' = lg_start s1"
    by (rule Cons.IH [OF s1(2)]) (use Cons.prems s1 u in auto)
  then show ?case using s1 u by simp
qed auto

lemma log_rel_outstanding: "log_rel d (s\<lparr>outstanding := n\<rparr>) H L c = log_rel d s H L c"
  by (simp add: log_rel_def)

text \<open>
  C33. The reservation of \<^verbatim>\<open>begin_op\<close> overcommits the log by one block: into an empty log of the size \<^verbatim>\<open>mkfs\<close> gives it three
  operations are admitted, a fourth has to wait, and when these three log no more than the ten blocks each that
  \<^verbatim>\<open>begin_op\<close> reserved for them, whichever thirty different blocks they are, the last of the thirty panics in \<^verbatim>\<open>log_write\<close>.
\<close>

theorem begin_op_overcommits:
  assumes "log_rel d s {} [] c" "outstanding s = 0" "\<not> committing s" "lg_size s = LOGSIZE"
    "length us = 3 * nat MAXOPBLOCKS" "distinct (map fst us)" "set (map fst us) \<inter> log_area (lg_start s) = {}"
  shows "\<exists>s1 s2. kbind (begin_op s) (\<lambda>s. kbind (begin_op s) begin_op) = Ok s1 \<and> begin_op s1 = Sleep LogChan \<and>
    update_blocks d (butlast us) s1 = Ok s2 \<and>
    update_block d (fst (last us)) (snd (last us)) s2 = Panic ''too big a transaction''"
proof -
  have n: "lh_n s = 0" using log_relD(3) [OF assms(1)] by simp
  let ?s1 = "s\<lparr>outstanding := 3\<rparr>"
  have b: "kbind (begin_op s) (\<lambda>s. kbind (begin_op s) begin_op) = Ok ?s1" "begin_op ?s1 = Sleep LogChan"
    using n assms(2,3) by (simp_all add: begin_op_def)
  have ne: "us \<noteq> []" using assms(5) by auto
  then have us: "us = butlast us @ [last us]" by simp
  then have m: "map fst us = map fst (butlast us) @ [fst (last us)]" by (metis list.simps(8,9) map_append)
  have r: "log_rel d ?s1 {} [] c" using assms(1) by (simp add: log_rel_outstanding)
  have "\<exists>s' c'. update_blocks d (butlast us) ?s1 = Ok s' \<and> log_rel d s' {} ([] @ map fst (butlast us)) c' \<and>
    lg_size s' = lg_size ?s1 \<and> lg_start s' = lg_start ?s1"
    by (rule update_blocks_ok [OF r]) (use assms(4-7) m in auto)
  then obtain s2 c2 where s2: "update_blocks d (butlast us) ?s1 = Ok s2" "log_rel d s2 {} (map fst (butlast us)) c2"
    "lg_size s2 = lg_size ?s1" "lg_start s2 = lg_start ?s1" by auto
  have "update_block d (fst (last us)) (snd (last us)) s2 = Panic ''too big a transaction''"
    by (rule update_block_full [OF s2(2)]) (use assms(4,5,7) m s2(3,4) in auto)
  then show ?thesis using b s2(1) by blast
qed

section \<open>Examples\<close>

definition zero_block :: block where
  "zero_block = replicate BSIZE 0"

lemma zero_block: "length zero_block = BSIZE" "rd32 zero_block 0 = 0"
  by (simp_all add: zero_block_def rd32_def sub_def le_word_def numeral_eq_Suc)

definition demo_log :: "(u32 \<Rightarrow> block) \<Rightarrow> log_st" where
  "demo_log D = bst.extend (demo_bst\<lparr>disk := D\<rparr>)
     \<lparr>lg_start = 2, lg_size = 30, outstanding = 1, committing = False, lg_dev = 1, lh_n = 0, lh_block = \<lambda>_. 0\<rparr>"

definition demo_txn :: "log_st kres" where
  "demo_txn =
     kbind (bread 1 50 (binit (demo_log (\<lambda>_. zero_block)))) (\<lambda>(s, i).
     kbind (log_write i (set_data i [7] s)) (brelse i))"

lemma demo_log_fields:
  "boot_bufs (demo_log D)" "disk (demo_log D) = D" "lg_start (demo_log D) = 2" "lg_size (demo_log D) = 30"
  "outstanding (demo_log D) = 1" "lg_dev (demo_log D) = 1" "lh_n (demo_log D) = 0"
  "\<not> committing (demo_log D)"
  by (simp_all add: demo_log_def demo_bst_def boot_bufs_def bst.defs)

lemma binit_loop_frame: "\<exists>f. binit_loop n s = s\<lparr>bufs := f\<rparr>"
proof (induction n)
  case 0
  have "s = s\<lparr>bufs := bufs s\<rparr>" by simp
  then show ?case by (metis binit_loop.simps(1))
next
  case (Suc n)
  then obtain f where "binit_loop n s = s\<lparr>bufs := f\<rparr>" by blast
  then show ?case by (simp add: insert_head_def Let_def upd_buf_def) blast
qed

lemma binit_frame: "\<exists>f. binit s = s\<lparr>bufs := f\<rparr>"
proof -
  let ?t = "upd_buf bhead (\<lambda>b. b\<lparr>nxt := bhead\<rparr>) (upd_buf bhead (\<lambda>b. b\<lparr>prev := bhead\<rparr>) s)"
  obtain f where "binit_loop NBUF ?t = ?t\<lparr>bufs := f\<rparr>" using binit_loop_frame by blast
  then show ?thesis by (simp add: binit_def Let_def upd_buf_def) blast
qed

lemma demo_log_rel: "log_rel 1 (binit (demo_log (\<lambda>_. zero_block))) {} [] (\<lambda>_. zero_block)"
proof -
  obtain f where f: "binit (demo_log (\<lambda>_. zero_block)) = (demo_log (\<lambda>_. zero_block))\<lparr>bufs := f\<rparr>" using binit_frame by blast
  have "pins [] = (\<lambda>_. 0)" by (simp add: pins_def fun_eq_iff)
  then have "cache_rel 1 (binit (demo_log (\<lambda>_. zero_block))) {} (pins []) (\<lambda>_. zero_block)"
    using binit_ok [of "demo_log (\<lambda>_. zero_block)" 1] demo_log_fields by simp
  then show ?thesis by (intro log_relI) (simp_all add: f demo_log_fields zero_block)
qed

lemma demo_txn_ok:
  "\<exists>s. demo_txn = Ok s \<and> log_rel 1 s {} [50] ((\<lambda>_. zero_block)(50 := [7])) \<and> outstanding s = 1 \<and> lg_start s = 2"
proof -
  let ?s0 = "binit (demo_log (\<lambda>_. zero_block))" and ?c = "(\<lambda>_. zero_block)(50 := [7])"
  obtain f0 where f0: "?s0 = (demo_log (\<lambda>_. zero_block))\<lparr>bufs := f0\<rparr>" using binit_frame by blast
  have area: "50 \<notin> log_area (lg_start ?s0)"
    by (simp add: f0 demo_log_fields log_area_def image_iff lessThan_nat_numeral lessThan_Suc)
  show ?thesis
  proof (rule log_bread_ok [OF demo_log_rel _ area])
    fix f i assume f: "bread 1 50 ?s0 = Ok (?s0\<lparr>bufs := f\<rparr>, i)" "log_rel 1 (?s0\<lparr>bufs := f\<rparr>) (insert 50 {}) [] (\<lambda>_. zero_block)"
      "holds 1 (?s0\<lparr>bufs := f\<rparr>) 50 i"
    show ?thesis
    proof (rule log_set_data_ok [OF f(2,3), of "[7]"])
      fix g let ?s2 = "?s0\<lparr>bufs := f\<rparr>\<lparr>bufs := g\<rparr>"
      assume g: "set_data i [7] (?s0\<lparr>bufs := f\<rparr>) = ?s2" "log_rel 1 ?s2 (insert 50 {}) [] ?c"
        "\<And>a j. holds 1 ?s2 a j = holds 1 (?s0\<lparr>bufs := f\<rparr>) a j"
      have h: "holds 1 ?s2 50 i" using g(3) f(3) by simp
      show ?thesis
      proof (rule log_write_ok [OF g(2) h])
        fix k l let ?s3 = "?s2\<lparr>lh_block := l, bufs := k, lh_n := int (length (log_add 50 []))\<rparr>"
        assume w: "log_write i ?s2 = Ok ?s3" "log_rel 1 ?s3 (insert 50 {}) (log_add 50 []) ?c" "\<And>a j. holds 1 ?s3 a j = holds 1 ?s2 a j"
        have h3: "holds 1 ?s3 50 i" using w(3) h by simp
        show ?thesis
        proof (rule log_brelse_ok [OF w(2) h3])
          fix m assume "brelse i ?s3 = Ok (?s3\<lparr>bufs := m\<rparr>)" "log_rel 1 (?s3\<lparr>bufs := m\<rparr>) (insert 50 {} - {50}) (log_add 50 []) ?c"
          then show ?thesis using f(1) g(1) w(1) by (simp add: demo_txn_def log_add_def f0 demo_log_fields)
        qed (simp_all add: log_add_def)
      qed (simp_all add: f0 demo_log_fields)
    qed simp
  qed simp_all
qed

theorem commit_crash_atomic_witness:
  "\<exists>s s' ws. demo_txn = Ok s \<and> commit s = Ok s' \<and> disk s' 50 = [7] \<and> wtrace s' = wtrace s @ ws \<and>
    (\<forall>k t. boot_bufs (t :: log_st) \<and> disk t = apply_writes (take k ws) (disk s) \<longrightarrow>
      recovered_to 1 2 30 t (disk s) \<or> recovered_to 1 2 30 t ((\<lambda>_. zero_block)(50 := [7])))"
proof -
  obtain s where s: "demo_txn = Ok s" "log_rel 1 s {} [50] ((\<lambda>_. zero_block)(50 := [7]))" "lg_start s = 2"
    using demo_txn_ok by blast
  have "50 \<notin> log_area (lg_start s)" by (simp add: s(3) log_area_def image_iff lessThan_nat_numeral lessThan_Suc)
  then show ?thesis using commit_crash_atomic [OF s(2), of 30] s(1,3) by fastforce
qed

definition demo_crashed :: log_st where
  "demo_crashed = demo_log (\<lambda>b. if b = 2 then head_data 1 (\<lambda>_. 50) zero_block else zero_block)"

theorem recovery_underflows_refcnt_witness:
  "\<exists>r i r'. initlog 1 2 30 (binit demo_crashed) = Ok r \<and> holds 1 r 50 i \<and> refcnt (bufs r i) = - 1 \<and>
    bread 1 50 r = Ok (r', i) \<and> refcnt (bufs r' i) = 0 \<and> sl_locked (blk (bufs r' i))"
proof (rule recovery_underflows_refcnt [of _ _ _ 1 "[50]"])
  let ?h = "head_data 1 (\<lambda>_. 50) zero_block"
  have "sint (rd32 ?h 0) = 1" "rd32 ?h (4 + 4 * 0) = 50" "length ?h = BSIZE"
    using head_data_decode(1,3) [OF zero_block(1), where n = 1 and blocks = "\<lambda>_. 50"]
      head_data_decode(2) [OF zero_block(1), where n = 1 and blocks = "\<lambda>_. 50" and i = 0] by simp_all
  then show "sint (rd32 (disk demo_crashed 2) 0) = int 1" "length (disk demo_crashed 2) = BSIZE"
    "[50] = map (\<lambda>i. rd32 (disk demo_crashed 2) (4 + 4 * i)) [0..<1]"
    by (simp_all add: demo_crashed_def demo_log_fields)
  show "set [50] \<inter> log_area 2 = {}" by (simp add: log_area_def image_iff lessThan_nat_numeral lessThan_Suc)
qed (simp_all add: demo_crashed_def demo_log_fields)

theorem begin_op_overcommits_witness:
  "let s = (binit (demo_log (\<lambda>_. zero_block)))\<lparr>outstanding := 0\<rparr>; us = map (\<lambda>i. (of_nat (100 + i), zero_block)) [0..<30] in
   log_rel 1 s {} [] (\<lambda>_. zero_block) \<and> (\<exists>s1 s2. kbind (begin_op s) (\<lambda>s. kbind (begin_op s) begin_op) = Ok s1 \<and>
     begin_op s1 = Sleep LogChan \<and> update_blocks 1 (butlast us) s1 = Ok s2 \<and>
     update_block 1 (fst (last us)) (snd (last us)) s2 = Panic ''too big a transaction'')"
proof -
  let ?s = "(binit (demo_log (\<lambda>_. zero_block)))\<lparr>outstanding := 0\<rparr>" and ?us = "map (\<lambda>i. (of_nat (100 + i) :: u32, zero_block)) [0..<30]"
  obtain f where f: "binit (demo_log (\<lambda>_. zero_block)) = (demo_log (\<lambda>_. zero_block))\<lparr>bufs := f\<rparr>" using binit_frame by blast
  have r: "log_rel 1 ?s {} [] (\<lambda>_. zero_block)" using demo_log_rel by (simp add: log_rel_outstanding)
  have u: "unat (of_nat (100 + i) :: u32) = 100 + i" "unat (2 + of_nat i :: u32) = 2 + i" if "i < 30" for i
    using that by (simp_all add: unat_word_ariths unat_of_nat take_bit_nat_eq_self)
  have "inj_on (\<lambda>i. of_nat (100 + i) :: u32) {0..<30}"
    by (rule inj_onI) (metis u(1) add_left_cancel atLeastLessThan_iff)
  then have d: "distinct (map fst ?us)" by (simp add: distinct_map comp_def del: of_nat_add)
  have "fst ` set ?us \<inter> log_area 2 = {}"
    using u by (auto simp: log_area_def dest!: arg_cong [of _ _ unat])
  moreover have "lg_start ?s = 2" by (simp add: f demo_log_fields)
  ultimately have a: "set (map fst ?us) \<inter> log_area (lg_start ?s) = {}" by (simp only: set_map)
  have p: "outstanding ?s = 0" "\<not> committing ?s" "lg_size ?s = LOGSIZE" "length ?us = 3 * nat MAXOPBLOCKS"
    by (simp_all add: f demo_log_fields)
  show ?thesis unfolding Let_def using begin_op_overcommits [OF r p d a] r by (intro conjI)
qed

end
