(* ===== verification/Fs.thy ===== *)
theory Fs
  imports Log Ucopy
begin

text \<open>
  The file system of \<^verbatim>\<open>kernel/fs.c\<close> on top of the log. An inode is named by its index in
  \<^verbatim>\<open>icache.inode\<close>; a null inode pointer is \<open>None\<close>. \<open>fmem\<close> is physical memory, \<open>ppt\<close> the page table and
  \<open>cwd\<close> the current directory of \<^verbatim>\<open>myproc()\<close>, \<open>destk\<close> the address of the local \<^verbatim>\<open>struct dirent\<close>
  through which directories are read and written. Path names and path elements are lists of bytes: a path
  without its terminating NUL, an element as the \<open>DIRSIZ\<close> bytes of the array \<^verbatim>\<open>name\<close>.
\<close>

section \<open>State\<close>

abbreviation FSMAGIC :: u32 where "FSMAGIC \<equiv> 0x10203040"
abbreviation NDIRECT :: nat where "NDIRECT \<equiv> 12"
abbreviation NINDIRECT :: nat where "NINDIRECT \<equiv> BSIZE div 4"
abbreviation MAXFILE :: nat where "MAXFILE \<equiv> NDIRECT + NINDIRECT"
abbreviation IPB :: nat where "IPB \<equiv> BSIZE div 64"
abbreviation BPB :: nat where "BPB \<equiv> BSIZE * 8"
abbreviation DIRSIZ :: nat where "DIRSIZ \<equiv> 14"
abbreviation NINODE :: nat where "NINODE \<equiv> 50"
abbreviation ROOTINO :: u32 where "ROOTINO \<equiv> 1"
abbreviation ROOTDEV :: u32 where "ROOTDEV \<equiv> 1"
abbreviation T_DIR :: u16 where "T_DIR \<equiv> 1"
abbreviation T_FILE :: u16 where "T_FILE \<equiv> 2"
abbreviation T_DEVICE :: u16 where "T_DEVICE \<equiv> 3"

record superblock =
  sb_magic :: u32
  sb_size :: u32
  sb_nblocks :: u32
  sb_ninodes :: u32
  sb_nlog :: u32
  sb_logstart :: u32
  sb_inodestart :: u32
  sb_bmapstart :: u32

record inode =
  idev :: u32
  inum :: u32
  iref :: int
  ilk :: sleeplock
  ivalid :: bool
  itype :: u16
  imajor :: u16
  iminor :: u16
  inlink :: u16
  isize :: u32
  addrs :: "nat \<Rightarrow> u32"

record fs_st = log_st +
  sb :: superblock
  inodes :: "nat \<Rightarrow> inode"
  fmem :: kmem
  ppt :: u64
  cwd :: nat
  destk :: u64

definition upd_ino :: "nat \<Rightarrow> (inode \<Rightarrow> inode) \<Rightarrow> 'a fs_st_scheme \<Rightarrow> 'a fs_st_scheme" where
  "upd_ino i f s = s\<lparr>inodes := (inodes s)(i := f (inodes s i))\<rparr>"

section \<open>Super block\<close>

definition readsb :: "u32 \<Rightarrow> 'a fs_st_scheme \<Rightarrow> 'a fs_st_scheme kres" where
  "readsb dev s =
     kbind (bread dev 1 s) (\<lambda>(s, bp).
       let d = bdata (bufs s bp) in
       brelse bp (s\<lparr>sb := \<lparr>sb_magic = rd32 d 0, sb_size = rd32 d 4, sb_nblocks = rd32 d 8, sb_ninodes = rd32 d 12,
         sb_nlog = rd32 d 16, sb_logstart = rd32 d 20, sb_inodestart = rd32 d 24, sb_bmapstart = rd32 d 28\<rparr>\<rparr>))"

definition fsinit :: "u32 \<Rightarrow> 'a fs_st_scheme \<Rightarrow> 'a fs_st_scheme kres" where
  "fsinit dev s =
     kbind (readsb dev s) (\<lambda>s.
       if sb_magic (sb s) \<noteq> FSMAGIC then Panic ''invalid file system''
       else initlog dev (sb_logstart (sb s)) (sb_nlog (sb s)) s)"

section \<open>Blocks\<close>

definition IBLOCK :: "u32 \<Rightarrow> superblock \<Rightarrow> u32" where
  "IBLOCK i sp = i div of_nat IPB + sb_inodestart sp"

definition BBLOCK :: "nat \<Rightarrow> superblock \<Rightarrow> u32" where
  "BBLOCK b sp = of_nat (b div BPB) + sb_bmapstart sp"

definition bzero :: "u32 \<Rightarrow> u32 \<Rightarrow> 'a fs_st_scheme \<Rightarrow> 'a fs_st_scheme kres" where
  "bzero dev bno s =
     kbind (bread dev bno s) (\<lambda>(s, bp).
     kbind (log_write bp (set_data bp (replicate BSIZE 0) s)) (\<lambda>s.
       brelse bp s))"

definition bit_mask :: "nat \<Rightarrow> u8" where
  "bit_mask bi = push_bit (bi mod 8) 1"

definition bit_free :: "block \<Rightarrow> nat \<Rightarrow> bool" where
  "bit_free d bi \<longleftrightarrow> d ! (bi div 8) AND bit_mask bi = 0"

definition mark_used :: "block \<Rightarrow> nat \<Rightarrow> block" where
  "mark_used d bi = d[bi div 8 := d ! (bi div 8) OR bit_mask bi]"

definition mark_free :: "block \<Rightarrow> nat \<Rightarrow> block" where
  "mark_free d bi = d[bi div 8 := d ! (bi div 8) AND NOT (bit_mask bi)]"

text \<open>The inner loop of \<^verbatim>\<open>balloc\<close> from \<open>bi\<close> on, with \<open>n\<close> bits left in the bitmap block.\<close>

primrec balloc_scan :: "nat \<Rightarrow> nat \<Rightarrow> nat \<Rightarrow> block \<Rightarrow> nat \<Rightarrow> nat option" where
  "balloc_scan 0 sz b d bi = None"
| "balloc_scan (Suc n) sz b d bi =
     (if b + bi < sz
      then if bit_free d bi then Some bi else balloc_scan n sz b d (Suc bi)
      else None)"

function balloc_loop :: "u32 \<Rightarrow> nat \<Rightarrow> nat \<Rightarrow> 'a fs_st_scheme \<Rightarrow> ('a fs_st_scheme \<times> u32) kres" where
  "balloc_loop dev sz b s =
     (if b < sz
      then kbind (bread dev (BBLOCK b (sb s)) s) (\<lambda>(s, bp).
        case balloc_scan BPB sz b (bdata (bufs s bp)) 0 of
          Some bi \<Rightarrow>
            kbind (log_write bp (set_data bp (mark_used (bdata (bufs s bp)) bi) s)) (\<lambda>s.
            kbind (brelse bp s) (\<lambda>s.
            kbind (bzero dev (of_nat (b + bi)) s) (\<lambda>s.
              Ok (s, of_nat (b + bi)))))
        | None \<Rightarrow>
            kbind (brelse bp s) (\<lambda>s.
              balloc_loop dev sz (b + BPB) s))
      else Panic ''balloc: out of blocks'')"
  by pat_completeness auto
termination
  by (relation "measure (\<lambda>(dev, sz, b, s). sz - b)") auto

declare balloc_loop.simps [simp del]

definition balloc :: "u32 \<Rightarrow> 'a fs_st_scheme \<Rightarrow> ('a fs_st_scheme \<times> u32) kres" where
  "balloc dev s = balloc_loop dev (unat (sb_size (sb s))) 0 s"

definition bfree :: "u32 \<Rightarrow> u32 \<Rightarrow> 'a fs_st_scheme \<Rightarrow> 'a fs_st_scheme kres" where
  "bfree dev b s =
     kbind (bread dev (BBLOCK (unat b) (sb s)) s) (\<lambda>(s, bp).
       let bi = unat b mod BPB in
       if bit_free (bdata (bufs s bp)) bi then Panic ''freeing free block''
       else kbind (log_write bp (set_data bp (mark_free (bdata (bufs s bp)) bi) s)) (\<lambda>s.
              brelse bp s))"

section \<open>Inodes\<close>

text \<open>The on-disk inode is the 64 bytes from \<open>dip_off\<close>: four shorts, the size and 13 addresses.\<close>

definition dip_off :: "u32 \<Rightarrow> nat" where
  "dip_off i = 64 * (unat i mod IPB)"

primrec wr_addrs :: "nat \<Rightarrow> (nat \<Rightarrow> u32) \<Rightarrow> nat \<Rightarrow> block \<Rightarrow> block" where
  "wr_addrs 0 a off d = d"
| "wr_addrs (Suc n) a off d = wr32 (wr_addrs n a off d) (off + 4 * n) (a n)"

definition store_dinode :: "inode \<Rightarrow> nat \<Rightarrow> block \<Rightarrow> block" where
  "store_dinode ip off d =
     (let d = wr16 d off (itype ip);
          d = wr16 d (off + 2) (imajor ip);
          d = wr16 d (off + 4) (iminor ip);
          d = wr16 d (off + 6) (inlink ip);
          d = wr32 d (off + 8) (isize ip)
      in wr_addrs (NDIRECT + 1) (addrs ip) (off + 12) d)"

definition load_dinode :: "block \<Rightarrow> nat \<Rightarrow> inode \<Rightarrow> inode" where
  "load_dinode d off ip =
     ip\<lparr>itype := rd16 d off, imajor := rd16 d (off + 2), iminor := rd16 d (off + 4), inlink := rd16 d (off + 6),
       isize := rd32 d (off + 8),
       addrs := (\<lambda>i. if i < NDIRECT + 1 then rd32 d (off + 12 + 4 * i) else addrs ip i)\<rparr>"

primrec iinit_loop :: "nat \<Rightarrow> 'a fs_st_scheme \<Rightarrow> 'a fs_st_scheme" where
  "iinit_loop 0 s = s"
| "iinit_loop (Suc n) s = upd_ino n (\<lambda>ip. ip\<lparr>ilk := initsleeplock\<rparr>) (iinit_loop n s)"

definition iinit :: "'a fs_st_scheme \<Rightarrow> 'a fs_st_scheme" where
  "iinit s = iinit_loop NINODE s"

text \<open>
  The loop of \<^verbatim>\<open>iget\<close> with \<open>n\<close> entries left from \<open>ip\<close> on: the entry found, or the first empty one.
\<close>

primrec iget_loop :: "nat \<Rightarrow> nat \<Rightarrow> nat option \<Rightarrow> u32 \<Rightarrow> u32 \<Rightarrow> (nat \<Rightarrow> inode) \<Rightarrow> nat + nat option" where
  "iget_loop 0 ip slot dev n f = Inr slot"
| "iget_loop (Suc k) ip slot dev n f =
     (if iref (f ip) > 0 \<and> idev (f ip) = dev \<and> inum (f ip) = n then Inl ip
      else iget_loop k (Suc ip) (if slot = None \<and> iref (f ip) = 0 then Some ip else slot) dev n f)"

definition iget :: "u32 \<Rightarrow> u32 \<Rightarrow> 'a fs_st_scheme \<Rightarrow> ('a fs_st_scheme \<times> nat) kres" where
  "iget dev n s =
     (case iget_loop NINODE 0 None dev n (inodes s) of
        Inl ip \<Rightarrow> Ok (upd_ino ip (\<lambda>i. i\<lparr>iref := iref i + 1\<rparr>) s, ip)
      | Inr None \<Rightarrow> Panic ''iget: no inodes''
      | Inr (Some ip) \<Rightarrow> Ok (upd_ino ip (\<lambda>i. i\<lparr>idev := dev, inum := n, iref := 1, ivalid := False\<rparr>) s, ip))"

function ialloc_loop :: "u32 \<Rightarrow> u16 \<Rightarrow> nat \<Rightarrow> nat \<Rightarrow> 'a fs_st_scheme \<Rightarrow> ('a fs_st_scheme \<times> nat) kres" where
  "ialloc_loop dev type ninodes n s =
     (if n < ninodes
      then kbind (bread dev (IBLOCK (of_nat n) (sb s)) s) (\<lambda>(s, bp).
        let off = dip_off (of_nat n) in
        if rd16 (bdata (bufs s bp)) off = 0
        then kbind (log_write bp (set_data bp (wr16 (splice (bdata (bufs s bp)) off (replicate 64 0)) off type) s)) (\<lambda>s.
             kbind (brelse bp s) (\<lambda>s.
               iget dev (of_nat n) s))
        else kbind (brelse bp s) (\<lambda>s.
               ialloc_loop dev type ninodes (Suc n) s))
      else Panic ''ialloc: no inodes'')"
  by pat_completeness auto
termination
  by (relation "measure (\<lambda>(dev, type, ninodes, n, s). ninodes - n)") auto

declare ialloc_loop.simps [simp del]

definition ialloc :: "u32 \<Rightarrow> u16 \<Rightarrow> 'a fs_st_scheme \<Rightarrow> ('a fs_st_scheme \<times> nat) kres" where
  "ialloc dev type s = ialloc_loop dev type (unat (sb_ninodes (sb s))) 1 s"

definition iupdate :: "nat \<Rightarrow> 'a fs_st_scheme \<Rightarrow> 'a fs_st_scheme kres" where
  "iupdate ip s =
     kbind (bread (idev (inodes s ip)) (IBLOCK (inum (inodes s ip)) (sb s)) s) (\<lambda>(s, bp).
     kbind (log_write bp (set_data bp
         (store_dinode (inodes s ip) (dip_off (inum (inodes s ip))) (bdata (bufs s bp))) s)) (\<lambda>s.
       brelse bp s))"

definition idup :: "nat \<Rightarrow> 'a fs_st_scheme \<Rightarrow> 'a fs_st_scheme" where
  "idup ip s = upd_ino ip (\<lambda>i. i\<lparr>iref := iref i + 1\<rparr>) s"

definition ilock :: "nat \<Rightarrow> 'a fs_st_scheme \<Rightarrow> 'a fs_st_scheme kres" where
  "ilock ip s =
     (if iref (inodes s ip) < 1 then Panic ''ilock''
      else kbind (acquiresleep (InodeLock ip) (curpid s) (ilk (inodes s ip))) (\<lambda>lk.
        let s = upd_ino ip (\<lambda>i. i\<lparr>ilk := lk\<rparr>) s in
        if \<not> ivalid (inodes s ip)
        then kbind (bread (idev (inodes s ip)) (IBLOCK (inum (inodes s ip)) (sb s)) s) (\<lambda>(s, bp).
          let s = upd_ino ip (load_dinode (bdata (bufs s bp)) (dip_off (inum (inodes s ip)))) s in
          kbind (brelse bp s) (\<lambda>s.
            let s = upd_ino ip (\<lambda>i. i\<lparr>ivalid := True\<rparr>) s in
            if itype (inodes s ip) = 0 then Panic ''ilock: no type'' else Ok s))
        else Ok s))"

definition iunlock :: "nat \<Rightarrow> 'a fs_st_scheme \<Rightarrow> 'a fs_st_scheme kres" where
  "iunlock ip s =
     (if \<not> holdingsleep (curpid s) (ilk (inodes s ip)) \<or> iref (inodes s ip) < 1 then Panic ''iunlock''
      else Ok (upd_ino ip (\<lambda>i. i\<lparr>ilk := releasesleep (ilk i)\<rparr>) s))"

section \<open>Inode content\<close>

definition bmap :: "nat \<Rightarrow> u32 \<Rightarrow> 'a fs_st_scheme \<Rightarrow> ('a fs_st_scheme \<times> u32) kres" where
  "bmap ip bn s =
     (if unat bn < NDIRECT
      then let addr = addrs (inodes s ip) (unat bn) in
        if addr = 0
        then kbind (balloc (idev (inodes s ip)) s) (\<lambda>(s, addr).
          Ok (upd_ino ip (\<lambda>i. i\<lparr>addrs := (addrs i)(unat bn := addr)\<rparr>) s, addr))
        else Ok (s, addr)
      else let bn = unat bn - NDIRECT in
        if bn < NINDIRECT
        then kbind (if addrs (inodes s ip) NDIRECT = 0
                    then kbind (balloc (idev (inodes s ip)) s) (\<lambda>(s, addr).
                      Ok (upd_ino ip (\<lambda>i. i\<lparr>addrs := (addrs i)(NDIRECT := addr)\<rparr>) s, addr))
                    else Ok (s, addrs (inodes s ip) NDIRECT)) (\<lambda>(s, addr).
          kbind (bread (idev (inodes s ip)) addr s) (\<lambda>(s, bp).
            let addr = rd32 (bdata (bufs s bp)) (4 * bn) in
            if addr = 0
            then kbind (balloc (idev (inodes s ip)) s) (\<lambda>(s, addr).
                 kbind (log_write bp (set_data bp (wr32 (bdata (bufs s bp)) (4 * bn) addr) s)) (\<lambda>s.
                 kbind (brelse bp s) (\<lambda>s. Ok (s, addr))))
            else kbind (brelse bp s) (\<lambda>s. Ok (s, addr))))
        else Panic ''bmap: out of range'')"

primrec itrunc_direct :: "nat \<Rightarrow> nat \<Rightarrow> nat \<Rightarrow> 'a fs_st_scheme \<Rightarrow> 'a fs_st_scheme kres" where
  "itrunc_direct 0 i ip s = Ok s"
| "itrunc_direct (Suc n) i ip s =
     kbind (if addrs (inodes s ip) i \<noteq> 0
            then kbind (bfree (idev (inodes s ip)) (addrs (inodes s ip) i) s) (\<lambda>s.
              Ok (upd_ino ip (\<lambda>x. x\<lparr>addrs := (addrs x)(i := 0)\<rparr>) s))
            else Ok s)
       (itrunc_direct n (Suc i) ip)"

primrec itrunc_indirect :: "nat \<Rightarrow> nat \<Rightarrow> nat \<Rightarrow> nat \<Rightarrow> 'a fs_st_scheme \<Rightarrow> 'a fs_st_scheme kres" where
  "itrunc_indirect 0 j bp ip s = Ok s"
| "itrunc_indirect (Suc n) j bp ip s =
     kbind (if rd32 (bdata (bufs s bp)) (4 * j) \<noteq> 0
            then bfree (idev (inodes s ip)) (rd32 (bdata (bufs s bp)) (4 * j)) s
            else Ok s)
       (itrunc_indirect n (Suc j) bp ip)"

definition itrunc :: "nat \<Rightarrow> 'a fs_st_scheme \<Rightarrow> 'a fs_st_scheme kres" where
  "itrunc ip s =
     kbind (itrunc_direct NDIRECT 0 ip s) (\<lambda>s.
     kbind (if addrs (inodes s ip) NDIRECT \<noteq> 0
            then kbind (bread (idev (inodes s ip)) (addrs (inodes s ip) NDIRECT) s) (\<lambda>(s, bp).
              kbind (itrunc_indirect NINDIRECT 0 bp ip s) (\<lambda>s.
              kbind (brelse bp s) (\<lambda>s.
              kbind (bfree (idev (inodes s ip)) (addrs (inodes s ip) NDIRECT) s) (\<lambda>s.
                Ok (upd_ino ip (\<lambda>x. x\<lparr>addrs := (addrs x)(NDIRECT := 0)\<rparr>) s)))))
            else Ok s) (\<lambda>s.
       iupdate ip (upd_ino ip (\<lambda>x. x\<lparr>isize := 0\<rparr>) s)))"

definition iput :: "nat \<Rightarrow> 'a fs_st_scheme \<Rightarrow> 'a fs_st_scheme kres" where
  "iput ip s =
     kbind (if iref (inodes s ip) = 1 \<and> ivalid (inodes s ip) \<and> inlink (inodes s ip) = 0
            then kbind (acquiresleep (InodeLock ip) (curpid s) (ilk (inodes s ip))) (\<lambda>lk.
              kbind (itrunc ip (upd_ino ip (\<lambda>i. i\<lparr>ilk := lk\<rparr>) s)) (\<lambda>s.
              kbind (iupdate ip (upd_ino ip (\<lambda>i. i\<lparr>itype := 0\<rparr>) s)) (\<lambda>s.
                Ok (upd_ino ip (\<lambda>i. i\<lparr>ivalid := False, ilk := releasesleep (ilk i)\<rparr>) s))))
            else Ok s) (\<lambda>s.
       Ok (upd_ino ip (\<lambda>i. i\<lparr>iref := iref i - 1\<rparr>) s))"

definition iunlockput :: "nat \<Rightarrow> 'a fs_st_scheme \<Rightarrow> 'a fs_st_scheme kres" where
  "iunlockput ip s = kbind (iunlock ip s) (\<lambda>s. iput ip s)"

record stat =
  st_dev :: u32
  st_ino :: u32
  st_type :: u16
  st_nlink :: u16
  st_size :: u64

definition stati :: "nat \<Rightarrow> 'a fs_st_scheme \<Rightarrow> stat" where
  "stati ip s =
     \<lparr>st_dev = idev (inodes s ip), st_ino = inum (inodes s ip), st_type = itype (inodes s ip),
      st_nlink = inlink (inodes s ip), st_size = ucast (isize (inodes s ip))\<rparr>"

text \<open>The number of bytes of the current round: what is left of the request or of the block.\<close>

definition io_chunk :: "u32 \<Rightarrow> u32 \<Rightarrow> u32 \<Rightarrow> u32" where
  "io_chunk n tot off = min (n - tot) (of_nat BSIZE - off mod of_nat BSIZE)"

lemma unat_io_chunk:
  assumes "tot < n"
  shows "unat (io_chunk n tot off) = min (unat n - unat tot) (1024 - unat off mod 1024)"
proof -
  have "off mod 1024 \<le> 1024" by (simp add: word_le_nat_alt unat_mod less_imp_le)
  then have "unat (1024 - off mod 1024) = 1024 - unat off mod 1024" by (simp add: unat_sub unat_mod)
  moreover have "unat (n - tot) = unat n - unat tot" using assms by (simp add: unat_sub order_less_imp_le)
  ultimately show ?thesis by (auto simp: io_chunk_def min_def word_le_nat_alt)
qed

lemma unat_tot_step:
  assumes "tot < n"
  shows "unat (tot + io_chunk n tot off) = unat tot + unat (io_chunk n tot off)"
    "0 < unat (io_chunk n tot off)" "unat tot + unat (io_chunk n tot off) \<le> unat n"
proof -
  have lt: "unat tot < unat n" using assms by (simp add: word_less_nat_alt)
  show le: "unat tot + unat (io_chunk n tot off) \<le> unat n" using unat_io_chunk [OF assms, of off] lt by simp
  show "0 < unat (io_chunk n tot off)" using unat_io_chunk [OF assms, of off] lt by simp
  have "unat tot + unat (io_chunk n tot off) < 2 ^ 32" using le unat_lt2p32 [of n] by simp
  then show "unat (tot + io_chunk n tot off) = unat tot + unat (io_chunk n tot off)"
    by (simp add: unat_word_ariths)
qed

function readi_loop :: "nat \<Rightarrow> bool \<Rightarrow> u64 \<Rightarrow> u32 \<Rightarrow> u32 \<Rightarrow> u32 \<Rightarrow> 'a fs_st_scheme \<Rightarrow> ('a fs_st_scheme \<times> int) kres" where
  "readi_loop ip user_dst dst off n tot s =
     (if tot < n
      then kbind (bmap ip (off div of_nat BSIZE) s) (\<lambda>(s, addr).
           kbind (bread (idev (inodes s ip)) addr s) (\<lambda>(s, bp).
             let m = io_chunk n tot off in
             kbind (either_copyout user_dst (ppt s) dst (sub (bdata (bufs s bp)) (unat off mod BSIZE) (unat m)) (fmem s)) (\<lambda>(k, r).
               let s = s\<lparr>fmem := k\<rparr> in
               kbind (brelse bp s) (\<lambda>s.
                 if r = - 1 then Ok (s, sint tot)
                 else readi_loop ip user_dst (dst + ucast m) (off + m) n (tot + m) s))))
      else Ok (s, sint tot))"
  by pat_completeness auto
termination
  by (relation "measure (\<lambda>(ip, user_dst, dst, off, n, tot, s). unat n - unat tot)")
    (use unat_tot_step in \<open>auto simp: diff_less_mono2 word_less_nat_alt\<close>)

declare readi_loop.simps [simp del]

definition readi :: "nat \<Rightarrow> bool \<Rightarrow> u64 \<Rightarrow> u32 \<Rightarrow> u32 \<Rightarrow> 'a fs_st_scheme \<Rightarrow> ('a fs_st_scheme \<times> int) kres" where
  "readi ip user_dst dst off n s =
     (if off > isize (inodes s ip) \<or> off + n < off then Ok (s, 0)
      else let n = (if off + n > isize (inodes s ip) then isize (inodes s ip) - off else n)
           in readi_loop ip user_dst dst off n 0 s)"

text \<open>The loop of \<^verbatim>\<open>writei\<close> returns the offset at which it stopped.\<close>

function writei_loop :: "nat \<Rightarrow> bool \<Rightarrow> u64 \<Rightarrow> u32 \<Rightarrow> u32 \<Rightarrow> u32 \<Rightarrow> 'a fs_st_scheme \<Rightarrow> ('a fs_st_scheme \<times> u32) kres" where
  "writei_loop ip user_src src off n tot s =
     (if tot < n
      then kbind (bmap ip (off div of_nat BSIZE) s) (\<lambda>(s, addr).
           kbind (bread (idev (inodes s ip)) addr s) (\<lambda>(s, bp).
             let m = io_chunk n tot off in
             kbind (either_copyin user_src (ppt s) src (unat m) (fmem s)) (\<lambda>(bs, r).
               let s = set_data bp (splice (bdata (bufs s bp)) (unat off mod BSIZE) bs) s in
               if r = - 1 then kbind (brelse bp s) (\<lambda>s. Ok (s, off))
               else kbind (log_write bp s) (\<lambda>s.
                    kbind (brelse bp s) (\<lambda>s.
                      writei_loop ip user_src (src + ucast m) (off + m) n (tot + m) s)))))
      else Ok (s, off))"
  by pat_completeness auto
termination
  by (relation "measure (\<lambda>(ip, user_src, src, off, n, tot, s). unat n - unat tot)")
    (use unat_tot_step in \<open>auto simp: diff_less_mono2 word_less_nat_alt\<close>)

declare writei_loop.simps [simp del]

definition writei :: "nat \<Rightarrow> bool \<Rightarrow> u64 \<Rightarrow> u32 \<Rightarrow> u32 \<Rightarrow> 'a fs_st_scheme \<Rightarrow> ('a fs_st_scheme \<times> int) kres" where
  "writei ip user_src src off n s =
     (if off > isize (inodes s ip) \<or> off + n < off then Ok (s, - 1)
      else if unat (off + n) > MAXFILE * BSIZE then Ok (s, - 1)
      else kbind (writei_loop ip user_src src off n 0 s) (\<lambda>(s, off).
        if n > 0
        then let s = (if off > isize (inodes s ip) then upd_ino ip (\<lambda>i. i\<lparr>isize := off\<rparr>) s else s)
             in kbind (iupdate ip s) (\<lambda>s. Ok (s, sint n))
        else Ok (s, sint n)))"

section \<open>Directories\<close>

definition namecmp :: "u8 list \<Rightarrow> u8 list \<Rightarrow> int" where
  "namecmp a b = strncmp (\<lambda>i. a ! i) (\<lambda>i. b ! i) DIRSIZ"

text \<open>The local \<^verbatim>\<open>struct dirent de\<close>: a 16-bit inode number and the 14 bytes of the name.\<close>

definition de_inum :: "'a fs_st_scheme \<Rightarrow> u16" where
  "de_inum s = le_word (mread (ram (fmem s)) (destk s) 2)"

definition de_name :: "'a fs_st_scheme \<Rightarrow> u8 list" where
  "de_name s = mread (ram (fmem s)) (destk s + 2) DIRSIZ"

function dirlookup_loop :: "nat \<Rightarrow> u8 list \<Rightarrow> nat \<Rightarrow> nat \<Rightarrow> 'a fs_st_scheme \<Rightarrow> ('a fs_st_scheme \<times> (nat \<times> u32) option) kres" where
  "dirlookup_loop dp name sz off s =
     (if off < sz
      then kbind (readi dp False (destk s) (of_nat off) 16 s) (\<lambda>(s, r).
        if r \<noteq> 16 then Panic ''dirlookup read''
        else if de_inum s = 0 then dirlookup_loop dp name sz (off + 16) s
        else if namecmp name (de_name s) = 0
        then kbind (iget (idev (inodes s dp)) (ucast (de_inum s)) s) (\<lambda>(s, ip).
               Ok (s, Some (ip, of_nat off)))
        else dirlookup_loop dp name sz (off + 16) s)
      else Ok (s, None))"
  by pat_completeness auto
termination
  by (relation "measure (\<lambda>(dp, name, sz, off, s). sz - off)") auto

declare dirlookup_loop.simps [simp del]

text \<open>The inode of the entry and its offset, which the code stores through \<^verbatim>\<open>poff\<close>.\<close>

definition dirlookup :: "nat \<Rightarrow> u8 list \<Rightarrow> 'a fs_st_scheme \<Rightarrow> ('a fs_st_scheme \<times> (nat \<times> u32) option) kres" where
  "dirlookup dp name s =
     (if itype (inodes s dp) \<noteq> T_DIR then Panic ''dirlookup not DIR''
      else dirlookup_loop dp name (unat (isize (inodes s dp))) 0 s)"

function dirlink_loop :: "nat \<Rightarrow> nat \<Rightarrow> nat \<Rightarrow> 'a fs_st_scheme \<Rightarrow> ('a fs_st_scheme \<times> nat) kres" where
  "dirlink_loop dp sz off s =
     (if off < sz
      then kbind (readi dp False (destk s) (of_nat off) 16 s) (\<lambda>(s, r).
        if r \<noteq> 16 then Panic ''dirlink read''
        else if de_inum s = 0 then Ok (s, off)
        else dirlink_loop dp sz (off + 16) s)
      else Ok (s, off))"
  by pat_completeness auto
termination
  by (relation "measure (\<lambda>(dp, sz, off, s). sz - off)") auto

declare dirlink_loop.simps [simp del]

text \<open>What \<^verbatim>\<open>strncpy(de.name, name, DIRSIZ)\<close> leaves in \<^verbatim>\<open>de.name\<close>.\<close>

definition dirent_name :: "u8 list \<Rightarrow> u8 list" where
  "dirent_name name = (let s = takeWhile (\<lambda>b. b \<noteq> 0) (take DIRSIZ name) in s @ replicate (DIRSIZ - length s) 0)"

definition dirlink :: "nat \<Rightarrow> u8 list \<Rightarrow> u32 \<Rightarrow> 'a fs_st_scheme \<Rightarrow> ('a fs_st_scheme \<times> int) kres" where
  "dirlink dp name n s =
     kbind (dirlookup dp name s) (\<lambda>(s, r).
       case r of
         Some (ip, off) \<Rightarrow> kbind (iput ip s) (\<lambda>s. Ok (s, - 1))
       | None \<Rightarrow>
           kbind (dirlink_loop dp (unat (isize (inodes s dp))) 0 s) (\<lambda>(s, off).
             let s = s\<lparr>fmem := (fmem s)\<lparr>ram := mwrite (ram (fmem s)) (destk s)
                   (le_bytes 2 (ucast n :: u16) @ dirent_name name)\<rparr>\<rparr> in
             kbind (writei dp False (destk s) (of_nat off) 16 s) (\<lambda>(s, r).
               if r \<noteq> 16 then Panic ''dirlink'' else Ok (s, 0))))"

section \<open>Paths\<close>

abbreviation slash :: u8 where "slash \<equiv> 0x2f"

definition skipelem :: "u8 list \<Rightarrow> u8 list \<Rightarrow> (u8 list \<times> u8 list) option" where
  "skipelem path name =
     (let path = dropWhile (\<lambda>b. b = slash) path in
      if path = [] then None
      else let s = takeWhile (\<lambda>b. b \<noteq> slash) path;
               path = dropWhile (\<lambda>b. b \<noteq> slash) path;
               name = (if length s \<ge> DIRSIZ then splice name 0 (take DIRSIZ s) else splice name 0 (s @ [0]));
               path = dropWhile (\<lambda>b. b = slash) path
           in Some (path, name))"

lemma skipelem_shorter: "skipelem path name = Some (path', name') \<Longrightarrow> length path' < length path"
proof -
  let ?p = "dropWhile (\<lambda>b. b = slash) path"
  assume s: "skipelem path name = Some (path', name')"
  then have ne: "?p \<noteq> []" and p': "path' = dropWhile (\<lambda>b. b = slash) (dropWhile (\<lambda>b. b \<noteq> slash) ?p)"
    by (auto simp: skipelem_def Let_def split: if_splits)
  have "hd ?p \<noteq> slash" using hd_dropWhile [OF ne] by simp
  then have "dropWhile (\<lambda>b. b \<noteq> slash) ?p = dropWhile (\<lambda>b. b \<noteq> slash) (tl ?p)"
    using ne by (cases ?p) auto
  then have "length path' \<le> length (tl ?p)"
    using p' length_dropWhile_le [of "\<lambda>b. b = slash" "dropWhile (\<lambda>b. b \<noteq> slash) (tl ?p)"]
      length_dropWhile_le [of "\<lambda>b. b \<noteq> slash" "tl ?p"] by simp
  also have "\<dots> < length ?p" using ne by (cases ?p) auto
  also have "\<dots> \<le> length path" by (rule length_dropWhile_le)
  finally show ?thesis .
qed

function namex_loop :: "u8 list \<Rightarrow> bool \<Rightarrow> u8 list \<Rightarrow> nat \<Rightarrow> 'a fs_st_scheme \<Rightarrow> ('a fs_st_scheme \<times> nat option \<times> u8 list) kres" where
  "namex_loop path nameiparent name ip s =
     (case skipelem path name of
        None \<Rightarrow>
          if nameiparent then kbind (iput ip s) (\<lambda>s. Ok (s, None, name))
          else Ok (s, Some ip, name)
      | Some (path, name) \<Rightarrow>
          kbind (ilock ip s) (\<lambda>s.
            if itype (inodes s ip) \<noteq> T_DIR
            then kbind (iunlockput ip s) (\<lambda>s. Ok (s, None, name))
            else if nameiparent \<and> path = []
            then kbind (iunlock ip s) (\<lambda>s. Ok (s, Some ip, name))
            else kbind (dirlookup ip name s) (\<lambda>(s, r).
              case r of
                None \<Rightarrow> kbind (iunlockput ip s) (\<lambda>s. Ok (s, None, name))
              | Some (next, off) \<Rightarrow>
                  kbind (iunlockput ip s) (\<lambda>s.
                    namex_loop path nameiparent name next s))))"
  by pat_completeness auto
termination
  by (relation "measure (\<lambda>(path, nameiparent, name, ip, s). length path)") (auto simp: skipelem_shorter)

declare namex_loop.simps [simp del]

definition namex :: "u8 list \<Rightarrow> bool \<Rightarrow> u8 list \<Rightarrow> 'a fs_st_scheme \<Rightarrow> ('a fs_st_scheme \<times> nat option \<times> u8 list) kres" where
  "namex path nameiparent name s =
     kbind (if path \<noteq> [] \<and> hd path = slash then iget ROOTDEV ROOTINO s
            else Ok (idup (cwd s) s, cwd s)) (\<lambda>(s, ip).
       namex_loop path nameiparent name ip s)"

text \<open>\<open>name0\<close> is what the uninitialised array \<^verbatim>\<open>name\<close> holds.\<close>

definition namei :: "u8 list \<Rightarrow> u8 list \<Rightarrow> 'a fs_st_scheme \<Rightarrow> ('a fs_st_scheme \<times> nat option) kres" where
  "namei name0 path s = kbind (namex path False name0 s) (\<lambda>(s, ip, name). Ok (s, ip))"

definition nameiparent :: "u8 list \<Rightarrow> u8 list \<Rightarrow> 'a fs_st_scheme \<Rightarrow> ('a fs_st_scheme \<times> nat option \<times> u8 list) kres" where
  "nameiparent name0 path s = namex path True name0 s"

end
