(* ===== verification/Fs_Block.thy ===== *)
theory Fs_Block
  imports Fs
begin

text \<open>
  Block allocation: what one logged update of a block does to the contents the cache stands
  for, and from it that \<^verbatim>\<open>balloc\<close> and \<^verbatim>\<open>bfree\<close> keep the bitmap of \<^verbatim>\<open>kernel/fs.c\<close>.
\<close>

section \<open>Updates of one block\<close>

text \<open>
  \<open>op_frame s s'\<close>: only the buffers and the in-memory log header differ. The disk is written
  by the commit alone.
\<close>

definition op_frame :: "'a fs_st_scheme \<Rightarrow> 'a fs_st_scheme \<Rightarrow> bool" where
  "op_frame s s' \<longleftrightarrow> (\<exists>f h n. s' = s\<lparr>lh_block := h, lh_n := n, bufs := f\<rparr>)"

lemma op_frame_refl [simp]: "op_frame s s"
proof -
  have "s = s\<lparr>lh_block := lh_block s, lh_n := lh_n s, bufs := bufs s\<rparr>" by simp
  then show ?thesis unfolding op_frame_def by blast
qed

lemma op_frame_trans: "op_frame s t \<Longrightarrow> op_frame t u \<Longrightarrow> op_frame s u"
  by (auto simp: op_frame_def) blast

lemma op_frame_bufs: "op_frame s (s\<lparr>bufs := f\<rparr>)"
proof -
  have "s\<lparr>bufs := f\<rparr> = s\<lparr>lh_block := lh_block s, lh_n := lh_n s, bufs := f\<rparr>" by simp
  then show ?thesis unfolding op_frame_def by blast
qed

lemma op_frame_log: "op_frame s (s\<lparr>lh_block := h, bufs := f, lh_n := n\<rparr>)"
proof -
  have "s\<lparr>lh_block := h, bufs := f, lh_n := n\<rparr> = s\<lparr>lh_block := h, lh_n := n, bufs := f\<rparr>" by simp
  then show ?thesis unfolding op_frame_def by blast
qed

lemma op_frameD:
  assumes "op_frame s s'"
  shows "sb s' = sb s" "inodes s' = inodes s" "fmem s' = fmem s" "ppt s' = ppt s" "cwd s' = cwd s" "destk s' = destk s"
    "curpid s' = curpid s" "disk s' = disk s" "wtrace s' = wtrace s" "lg_start s' = lg_start s" "lg_size s' = lg_size s"
    "outstanding s' = outstanding s" "committing s' = committing s" "lg_dev s' = lg_dev s"
  using assms by (auto simp: op_frame_def)

text \<open>An operation in a transaction on a log of the size \<^verbatim>\<open>mkfs\<close> makes, with room for \<open>k\<close> more blocks.\<close>

definition in_op :: "'a fs_st_scheme \<Rightarrow> u32 set \<Rightarrow> u32 list \<Rightarrow> nat \<Rightarrow> bool" where
  "in_op s H L k \<longleftrightarrow> outstanding s \<ge> 1 \<and> lg_size s = 30 \<and> finite H \<and> card H + length L + k \<le> 29"

lemma in_op_frame: "op_frame s s' \<Longrightarrow> in_op s H L k \<Longrightarrow> in_op s' H L k"
  by (simp add: in_op_def op_frameD)

lemma length_log_add: "length (log_add b L) \<le> Suc (length L)"
  by (simp add: log_add_def)

lemma in_op_add: "in_op s H L (Suc k) \<Longrightarrow> in_op s H (log_add b L) k"
  using length_log_add [of b L] by (auto simp: in_op_def)

lemma in_op_hold: "in_op s H L (Suc k) \<Longrightarrow> in_op s (insert b H) L k"
  using card_insert_le_m1 [of "card H + 1" H b] by (auto simp: in_op_def card_insert_if)

lemma in_op_mono: "in_op s H L k \<Longrightarrow> j \<le> k \<Longrightarrow> in_op s H L j"
  by (simp add: in_op_def)

lemma in_op_room: "in_op s H L k \<Longrightarrow> card (H \<union> set L) < NBUF"
  using card_Un_le [of H "set L"] card_length [of L] by (simp add: in_op_def)

lemma fs_bread:
  assumes l: "log_rel d s H L c" and b: "b \<notin> H" "b \<notin> log_area (lg_start s)" and op: "in_op s H L k"
  obtains s' i where "bread d b s = Ok (s', i)" "log_rel d s' (insert b H) L c" "op_frame s s'"
    "holds d s' b i" "bdata (bufs s' i) = c b" "\<And>a j. a \<in> H \<Longrightarrow> holds d s a j \<Longrightarrow> holds d s' a j"
proof (rule log_bread_ok [OF l b])
  fix f i assume "bread d b s = Ok (s\<lparr>bufs := f\<rparr>, i)" "log_rel d (s\<lparr>bufs := f\<rparr>) (insert b H) L c"
    "holds d (s\<lparr>bufs := f\<rparr>) b i" "bdata (f i) = c b" "\<And>a j. a \<in> H \<Longrightarrow> holds d s a j \<Longrightarrow> holds d (s\<lparr>bufs := f\<rparr>) a j"
  then show thesis by (intro that [of "s\<lparr>bufs := f\<rparr>" i]) (simp_all add: op_frame_bufs)
qed (use in_op_room [OF op] in simp)

lemma fs_brelse:
  assumes l: "log_rel d s H L c" and i: "holds d s b i" "b \<in> H" and clean: "b \<in> set L \<or> c b = disk s b"
  obtains s' where "brelse i s = Ok s'" "log_rel d s' (H - {b}) L c" "op_frame s s'" "\<And>a j. holds d s' a j = holds d s a j"
proof (rule log_brelse_ok [OF l i clean])
  fix f assume "brelse i s = Ok (s\<lparr>bufs := f\<rparr>)" "log_rel d (s\<lparr>bufs := f\<rparr>) (H - {b}) L c"
    "\<And>a j. holds d (s\<lparr>bufs := f\<rparr>) a j = holds d s a j"
  then show thesis by (intro that [of "s\<lparr>bufs := f\<rparr>"]) (simp_all add: op_frame_bufs)
qed

lemma fs_log_write:
  assumes l: "log_rel d s H L c" and i: "holds d s b i" "b \<in> H" and op: "in_op s H L k"
  obtains s' where "log_write i (set_data i x s) = Ok s'" "log_rel d s' H (log_add b L) (c(b := x))" "op_frame s s'"
    "\<And>a j. holds d s' a j = holds d s a j"
proof (rule log_set_data_ok [OF l i, of x])
  fix f assume f: "set_data i x s = s\<lparr>bufs := f\<rparr>" "log_rel d (s\<lparr>bufs := f\<rparr>) H L (c(b := x))"
    "\<And>a j. holds d (s\<lparr>bufs := f\<rparr>) a j = holds d s a j"
  have h: "holds d (s\<lparr>bufs := f\<rparr>) b i" using f(3) i(1) by simp
  have "card H > 0" using op i(2) by (auto simp: in_op_def card_gt_0_iff)
  show thesis
  proof (rule log_write_ok [OF f(2) h i(2)])
    fix g e let ?s = "s\<lparr>bufs := f\<rparr>\<lparr>lh_block := e, bufs := g, lh_n := int (length (log_add b L))\<rparr>"
    assume "log_write i (s\<lparr>bufs := f\<rparr>) = Ok ?s" "log_rel d ?s H (log_add b L) (c(b := x))"
      "\<And>a j. holds d ?s a j = holds d (s\<lparr>bufs := f\<rparr>) a j"
    then show thesis
      using f by (intro that [of ?s]) (simp_all add: op_frame_log)
  qed (use op \<open>card H > 0\<close> in \<open>auto simp: in_op_def\<close>)
qed

text \<open>Reading a block and putting it back changes nothing the cache stands for.\<close>

lemma fs_read_block:
  assumes l: "log_rel d s H L c" and b: "b \<notin> H" "b \<notin> log_area (lg_start s)" and op: "in_op s H L k"
  obtains s1 i s2 where "bread d b s = Ok (s1, i)" "bdata (bufs s1 i) = c b" "op_frame s s1" "brelse i s1 = Ok s2"
    "log_rel d s2 H L c" "op_frame s s2" "\<And>a j. a \<in> H \<Longrightarrow> holds d s a j \<Longrightarrow> holds d s2 a j"
    "log_rel d s1 (insert b H) L c" "holds d s1 b i"
proof (rule fs_bread [OF l b op])
  fix s1 i assume s1: "bread d b s = Ok (s1, i)" "log_rel d s1 (insert b H) L c" "op_frame s s1"
    "holds d s1 b i" "bdata (bufs s1 i) = c b" "\<And>a j. a \<in> H \<Longrightarrow> holds d s a j \<Longrightarrow> holds d s1 a j"
  have clean: "b \<in> set L \<or> c b = disk s1 b"
    using cache_relD(6) [OF log_relD(1) [OF l], of b] b(1) op_frameD(8) [OF s1(3)] by auto
  have e: "insert b H - {b} = H" using b(1) by simp
  show thesis
  proof (rule fs_brelse [OF s1(2,4) _ clean])
    fix s2 assume "brelse i s1 = Ok s2" "log_rel d s2 (insert b H - {b}) L c" "op_frame s1 s2"
      "\<And>a j. holds d s2 a j = holds d s1 a j"
    then show thesis using s1 e op_frame_trans [OF s1(3)] by (intro that [of s1 i s2]) simp_all
  qed simp
qed

text \<open>A block read, changed, logged and put back.\<close>

lemma fs_update_block:
  assumes l: "log_rel d s H L c" and b: "b \<notin> H" "b \<notin> log_area (lg_start s)" and op: "in_op s H L (Suc k)"
  obtains s1 i s2 s3 where "bread d b s = Ok (s1, i)" "bdata (bufs s1 i) = c b" "op_frame s s1"
    "log_write i (set_data i x s1) = Ok s2" "brelse i s2 = Ok s3" "op_frame s s2"
    "log_rel d s3 H (log_add b L) (c(b := x))" "op_frame s s3" "\<And>a j. a \<in> H \<Longrightarrow> holds d s a j \<Longrightarrow> holds d s3 a j"
proof (rule fs_bread [OF l b op])
  fix s1 i assume s1: "bread d b s = Ok (s1, i)" "log_rel d s1 (insert b H) L c" "op_frame s s1"
    "holds d s1 b i" "bdata (bufs s1 i) = c b" "\<And>a j. a \<in> H \<Longrightarrow> holds d s a j \<Longrightarrow> holds d s1 a j"
  have op1: "in_op s1 (insert b H) L k" using in_op_hold [OF in_op_frame [OF s1(3) op]] .
  have e: "insert b H - {b} = H" using b(1) by simp
  show thesis
  proof (rule fs_log_write [OF s1(2,4) _ op1, of x])
    fix s2 assume s2: "log_write i (set_data i x s1) = Ok s2" "log_rel d s2 (insert b H) (log_add b L) (c(b := x))"
      "op_frame s1 s2" "\<And>a j. holds d s2 a j = holds d s1 a j"
    show thesis
    proof (rule fs_brelse [OF s2(2), of b i])
      fix s3 assume s3: "brelse i s2 = Ok s3" "log_rel d s3 (insert b H - {b}) (log_add b L) (c(b := x))"
        "op_frame s2 s3" "\<And>a j. holds d s3 a j = holds d s2 a j"
      note t = op_frame_trans [OF s1(3) s2(3)]
      show thesis
        using s1 s2 s3 t op_frame_trans [OF t s3(3)] e by (intro that [of s1 i s2 s3]) simp_all
    qed (use s2(4) s1(4) in \<open>simp_all add: log_add_def\<close>)
  qed simp
qed

lemma bzero_ok:
  assumes l: "log_rel d s H L c" and b: "b \<notin> H" "b \<notin> log_area (lg_start s)" and op: "in_op s H L (Suc k)"
  obtains s' where "bzero d b s = Ok s'" "log_rel d s' H (log_add b L) (c(b := zero_block))" "op_frame s s'"
    "\<And>a j. a \<in> H \<Longrightarrow> holds d s a j \<Longrightarrow> holds d s' a j"
  by (rule fs_update_block [OF l b op, of zero_block]) (auto simp: bzero_def zero_block_def [symmetric] intro!: that)

section \<open>The bitmap\<close>

lemma and_mask_0: "n < 8 \<Longrightarrow> (w :: u8) AND push_bit n 1 = 0 \<longleftrightarrow> \<not> bit w n"
proof
  assume n: "n < 8" and "w AND push_bit n 1 = 0"
  then have "\<not> bit (w AND push_bit n 1) n" by simp
  then show "\<not> bit w n" using n by (simp add: bit_simps)
qed (auto intro!: bit_word_eqI simp: bit_simps)

lemma bit_free_iff: "bit_free d bi \<longleftrightarrow> \<not> bit (d ! (bi div 8)) (bi mod 8)"
  using and_mask_0 [of "bi mod 8" "d ! (bi div 8)"] by (simp add: bit_free_def bit_mask_def)

lemma div_mod_8_eq: "i div 8 = j div 8 \<Longrightarrow> i mod 8 = j mod 8 \<Longrightarrow> i = (j :: nat)"
  by (metis div_mult_mod_eq)

lemma bit_free_mark_used:
  "i div 8 < length d \<Longrightarrow> bit_free (mark_used d i) j \<longleftrightarrow> j \<noteq> i \<and> bit_free d j"
  using div_mod_8_eq [of i j] by (auto simp: bit_free_iff mark_used_def bit_mask_def bit_simps nth_list_update)

lemma bit_free_mark_free:
  "i div 8 < length d \<Longrightarrow> bit_free (mark_free d i) j \<longleftrightarrow> j = i \<or> bit_free d j"
  using div_mod_8_eq [of i j] by (auto simp: bit_free_iff mark_free_def bit_mask_def bit_simps nth_list_update)

lemma mark_free_used:
  assumes "i div 8 < length d" "bit_free d i"
  shows "mark_free (mark_used d i) i = d"
proof -
  have "(d ! (i div 8) OR bit_mask i) AND NOT (bit_mask i) = d ! (i div 8)"
    using assms(2) by (auto intro!: bit_word_eqI simp: bit_simps bit_mask_def bit_free_iff)
  then show ?thesis using assms(1) by (simp add: mark_free_def mark_used_def)
qed

lemma length_mark [simp]: "length (mark_used d i) = length d" "length (mark_free d i) = length d"
  by (simp_all add: mark_used_def mark_free_def)

lemma balloc_scan_hit:
  "bi \<le> k \<Longrightarrow> k < bi + n \<Longrightarrow> b + k < sz \<Longrightarrow> bit_free d k \<Longrightarrow> (\<And>j. bi \<le> j \<Longrightarrow> j < k \<Longrightarrow> \<not> bit_free d j) \<Longrightarrow>
    balloc_scan n sz b d bi = Some k"
proof (induction n arbitrary: bi)
  case (Suc n)
  then show ?case
  proof (cases "bi = k")
    case False
    then have "balloc_scan n sz b d (Suc bi) = Some k" using Suc.prems by (intro Suc.IH) auto
    then show ?thesis using Suc.prems False by auto
  qed auto
qed simp

lemma balloc_scan_miss:
  "(\<And>j. bi \<le> j \<Longrightarrow> j < bi + n \<Longrightarrow> b + j < sz \<Longrightarrow> \<not> bit_free d j) \<Longrightarrow> balloc_scan n sz b d bi = None"
proof (induction n arbitrary: bi)
  case (Suc n)
  then have "balloc_scan n sz b d (Suc bi) = None" by (intro Suc.IH) auto
  then show ?case using Suc.prems [of bi] by auto
qed simp

text \<open>\<open>blk_free sp c b\<close>: the bitmap of the contents \<open>c\<close> has block \<open>b\<close> free.\<close>

definition blk_free :: "superblock \<Rightarrow> (u32 \<Rightarrow> block) \<Rightarrow> nat \<Rightarrow> bool" where
  "blk_free sp c b \<longleftrightarrow> bit_free (c (BBLOCK b sp)) (b mod BPB)"

definition bitmap_ok :: "u32 \<Rightarrow> superblock \<Rightarrow> u32 set \<Rightarrow> (u32 \<Rightarrow> block) \<Rightarrow> bool" where
  "bitmap_ok st sp H c \<longleftrightarrow>
     (\<forall>b < unat (sb_size sp). BBLOCK b sp \<notin> H \<and> BBLOCK b sp \<notin> log_area st \<and> length (c (BBLOCK b sp)) = BSIZE)"

definition alloc_blk :: "superblock \<Rightarrow> nat \<Rightarrow> (u32 \<Rightarrow> block) \<Rightarrow> u32 \<Rightarrow> block" where
  "alloc_blk sp b c = c(BBLOCK b sp := mark_used (c (BBLOCK b sp)) (b mod BPB), of_nat b := zero_block)"

definition alloc_log :: "superblock \<Rightarrow> nat \<Rightarrow> u32 list \<Rightarrow> u32 list" where
  "alloc_log sp b L = log_add (of_nat b) (log_add (BBLOCK b sp) L)"

lemma BBLOCK_block: "j < BPB \<Longrightarrow> BBLOCK (BPB * q + j) sp = of_nat q + sb_bmapstart sp"
  by (simp add: BBLOCK_def)

lemma block_of: "b div BPB = q \<Longrightarrow> b = BPB * q + b mod BPB"
  using mult_div_mod_eq [of BPB b] by simp

lemma balloc_loop_ok:
  assumes l: "log_rel d s H L c" and op: "in_op s H L 2" and sp: "sb s = sp"
    and b: "x < sz" "blk_free sp c x" "\<And>y. y < x \<Longrightarrow> \<not> blk_free sp c y" "x div BPB = q + k"
    and ok: "sz = unat (sb_size sp)" "bitmap_ok (lg_start s) sp H c"
    and data: "of_nat x \<notin> H" "of_nat x \<notin> log_area (lg_start s)"
  obtains s' where "balloc_loop d sz (BPB * q) s = Ok (s', of_nat x)"
    "log_rel d s' H (alloc_log sp x L) (alloc_blk sp x c)" "op_frame s s'" "\<And>a j. a \<in> H \<Longrightarrow> holds d s a j \<Longrightarrow> holds d s' a j"
  using l op sp b(4) ok(2) data
proof (induction k arbitrary: q s thesis)
  case 0
  let ?bm = "BBLOCK x sp" and ?bi = "x mod BPB" and ?b = "BPB * q"
  have x: "x = ?b + ?bi" by (rule block_of) (use 0(5) in simp)
  have lt: "?b < sz" using b(1) x by simp
  have bb: "BBLOCK ?b (sb s) = ?bm" using BBLOCK_block [of 0 q sp] BBLOCK_block [of ?bi q sp] x 0(4) by simp
  have bm: "?bm \<notin> H" "?bm \<notin> log_area (lg_start s)" using 0(6) b(1) ok(1) by (auto simp: bitmap_ok_def)
  have scan: "balloc_scan BPB sz ?b (c ?bm) 0 = Some ?bi"
  proof (rule balloc_scan_hit)
    show "bit_free (c ?bm) ?bi" using b(2) by (simp add: blk_free_def)
    show "\<not> bit_free (c ?bm) j" if "j < ?bi" for j
    proof -
      have "j < BPB" using that by (simp add: less_trans)
      moreover have "?b + j < x" using that x by linarith
      ultimately show ?thesis using b(3) [of "?b + j"] BBLOCK_block [of j q sp] BBLOCK_block [of ?bi q sp] x
        by (simp add: blk_free_def)
    qed
  qed (use x b(1) in auto)
  have op2: "in_op s H L (Suc 1)" using 0(3) by (simp add: numeral_2_eq_2)
  show ?case
  proof (rule fs_update_block [OF 0(2) bm op2, of "mark_used (c ?bm) ?bi"])
    fix s1 i s2 s3
    assume u: "bread d ?bm s = Ok (s1, i)" "bdata (bufs s1 i) = c ?bm" "op_frame s s1"
      "log_write i (set_data i (mark_used (c ?bm) ?bi) s1) = Ok s2" "brelse i s2 = Ok s3"
      "log_rel d s3 H (log_add ?bm L) (c(?bm := mark_used (c ?bm) ?bi))" "op_frame s s3"
      "\<And>a j. a \<in> H \<Longrightarrow> holds d s a j \<Longrightarrow> holds d s3 a j"
    have op3: "in_op s3 H (log_add ?bm L) (Suc 0)" using in_op_add [OF in_op_frame [OF u(7) op2]] by simp
    show ?case
    proof (rule bzero_ok [OF u(6) 0(7) _ op3])
      fix s4 assume z: "bzero d (of_nat x) s3 = Ok s4"
        "log_rel d s4 H (log_add (of_nat x) (log_add ?bm L)) (c(?bm := mark_used (c ?bm) ?bi, of_nat x := zero_block))"
        "op_frame s3 s4" "\<And>a j. a \<in> H \<Longrightarrow> holds d s3 a j \<Longrightarrow> holds d s4 a j"
      have "balloc_loop d sz ?b s = Ok (s4, of_nat x)"
        using lt bb u(1,2,4,5) scan z(1) x by (subst balloc_loop.simps) simp
      moreover have "log_rel d s4 H (alloc_log sp x L) (alloc_blk sp x c)"
        using z(2) unfolding alloc_log_def alloc_blk_def .
      ultimately show ?case
        using z(4) u(8) op_frame_trans [OF u(7) z(3)] by (intro 0(1) [of s4]) simp_all
    qed (use 0(8) op_frameD(10) [OF u(7)] in simp)
  qed
next
  case (Suc k)
  let ?b = "BPB * q" and ?bm = "BBLOCK (BPB * q) sp"
  have xb: "?b + BPB \<le> x" using block_of [OF Suc.prems(5)] by simp
  then have lt: "?b < sz" using b(1) by simp
  have bm: "?bm \<notin> H" "?bm \<notin> log_area (lg_start s)" using Suc.prems(6) lt ok(1) by (auto simp: bitmap_ok_def)
  have scan: "balloc_scan BPB sz ?b (c ?bm) 0 = None"
  proof (rule balloc_scan_miss)
    fix j assume "j < 0 + BPB"
    then show "\<not> bit_free (c ?bm) j"
      using b(3) [of "?b + j"] xb BBLOCK_block [of j q sp] BBLOCK_block [of 0 q sp] by (simp add: blk_free_def)
  qed
  show ?case
  proof (rule fs_read_block [OF Suc.prems(2) bm Suc.prems(3)])
    fix s1 i s2
    assume u: "bread d ?bm s = Ok (s1, i)" "bdata (bufs s1 i) = c ?bm" "brelse i s1 = Ok s2" "log_rel d s2 H L c"
      "op_frame s s2" "\<And>a j. a \<in> H \<Longrightarrow> holds d s a j \<Longrightarrow> holds d s2 a j"
    note F = op_frameD [OF u(5)]
    have step: "balloc_loop d sz ?b s = balloc_loop d sz (BPB * Suc q) s2"
      using lt u(1-3) scan Suc.prems(4) by (subst balloc_loop.simps) (simp add: add.commute)
    show ?case
    proof (rule Suc.IH [OF _ u(4) in_op_frame [OF u(5) Suc.prems(3)], of "Suc q"])
      fix s' assume "balloc_loop d sz (BPB * Suc q) s2 = Ok (s', of_nat x)"
        "log_rel d s' H (alloc_log sp x L) (alloc_blk sp x c)" "op_frame s2 s'" "\<And>a j. a \<in> H \<Longrightarrow> holds d s2 a j \<Longrightarrow> holds d s' a j"
      then show ?case using step u(6) op_frame_trans [OF u(5)] by (intro Suc.prems(1) [of s']) simp_all
    qed (use Suc.prems F in simp_all)
  qed
qed

lemma balloc_loop_none:
  assumes "log_rel d s H L c" "in_op s H L k" "sb s = sp" "sz = unat (sb_size sp)" "bitmap_ok (lg_start s) sp H c"
    "\<And>y. y < sz \<Longrightarrow> \<not> blk_free sp c y"
  shows "balloc_loop d sz (BPB * q) s = Panic ''balloc: out of blocks''"
  using assms
proof (induction "sz - BPB * q" arbitrary: q s rule: less_induct)
  case less
  let ?b = "BPB * q" and ?bm = "BBLOCK (BPB * q) sp"
  show ?case
  proof (cases "?b < sz")
    case True
    have bm: "?bm \<notin> H" "?bm \<notin> log_area (lg_start s)" using less.prems(4,5) True by (auto simp: bitmap_ok_def)
    have scan: "balloc_scan BPB sz ?b (c ?bm) 0 = None"
    proof (rule balloc_scan_miss)
      fix j assume "j < 0 + BPB" "?b + j < sz"
      then show "\<not> bit_free (c ?bm) j"
        using less.prems(6) [of "?b + j"] BBLOCK_block [of j q sp] BBLOCK_block [of 0 q sp] by (simp add: blk_free_def)
    qed
    show ?thesis
    proof (rule fs_read_block [OF less.prems(1) bm less.prems(2)])
      fix s1 i s2
      assume u: "bread d ?bm s = Ok (s1, i)" "bdata (bufs s1 i) = c ?bm" "brelse i s1 = Ok s2" "log_rel d s2 H L c" "op_frame s s2"
      note F = op_frameD [OF u(5)]
      have "balloc_loop d sz ?b s = balloc_loop d sz (BPB * Suc q) s2"
        using True u(1-3) scan less.prems(3) by (subst balloc_loop.simps) (simp add: add.commute)
      also have "\<dots> = Panic ''balloc: out of blocks''"
        by (rule less.hyps [OF _ u(4) in_op_frame [OF u(5) less.prems(2)]]) (use True less.prems F in simp_all)
      finally show ?thesis .
    qed
  qed (subst balloc_loop.simps, simp)
qed

lemma bfree_ok:
  assumes l: "log_rel d s H L c" and op: "in_op s H L (Suc k)" and b: "unat b < unat (sb_size (sb s))"
    and ok: "bitmap_ok (lg_start s) (sb s) H c" and bm: "bm = BBLOCK (unat b) (sb s)"
  shows "blk_free (sb s) c (unat b) \<Longrightarrow> bfree d b s = Panic ''freeing free block''"
    "\<not> blk_free (sb s) c (unat b) \<Longrightarrow> \<exists>s'. bfree d b s = Ok s' \<and>
      log_rel d s' H (log_add bm L) (c(bm := mark_free (c bm) (unat b mod BPB))) \<and> op_frame s s'"
proof -
  let ?x = "mark_free (c bm) (unat b mod BPB)"
  have bo: "bm \<notin> H" "bm \<notin> log_area (lg_start s)" using ok b bm by (auto simp: bitmap_ok_def)
  show "bfree d b s = Panic ''freeing free block''" if "blk_free (sb s) c (unat b)"
  proof (rule fs_bread [OF l bo op])
    fix s1 i assume "bread d bm s = Ok (s1, i)" "bdata (bufs s1 i) = c bm"
    then show ?thesis using that bm by (simp add: bfree_def blk_free_def Let_def)
  qed
  show "\<exists>s'. bfree d b s = Ok s' \<and> log_rel d s' H (log_add bm L) (c(bm := ?x)) \<and> op_frame s s'"
    if "\<not> blk_free (sb s) c (unat b)"
  proof (rule fs_update_block [OF l bo op, of ?x])
    fix s1 i s2 s3
    assume "bread d bm s = Ok (s1, i)" "bdata (bufs s1 i) = c bm" "log_write i (set_data i ?x s1) = Ok s2" "brelse i s2 = Ok s3"
      and r: "log_rel d s3 H (log_add bm L) (c(bm := ?x))" "op_frame s s3"
    then have "bfree d b s = Ok s3" using that bm by (simp add: bfree_def blk_free_def Let_def)
    then show ?thesis using r by blast
  qed
qed

text \<open>Every block of the meta-data is marked used, so that a free block is a data block.\<close>

definition meta_used :: "u32 \<Rightarrow> superblock \<Rightarrow> u32 set \<Rightarrow> (u32 \<Rightarrow> block) \<Rightarrow> bool" where
  "meta_used st sp H c \<longleftrightarrow>
     (\<forall>b < unat (sb_size sp). blk_free sp c b \<longrightarrow> of_nat b \<notin> H \<and> of_nat b \<notin> log_area st \<and>
       (\<forall>x < unat (sb_size sp). of_nat b \<noteq> BBLOCK x sp))"

lemma alloc_blk_free:
  assumes "x < unat (sb_size sp)" "y < unat (sb_size sp)" "bitmap_ok st sp H c" "\<And>z. z < unat (sb_size sp) \<Longrightarrow> of_nat x \<noteq> BBLOCK z sp"
  shows "blk_free sp (alloc_blk sp x c) y \<longleftrightarrow> y \<noteq> x \<and> blk_free sp c y"
proof -
  have len: "length (c (BBLOCK x sp)) = BSIZE" using assms(1,3) by (simp add: bitmap_ok_def)
  have i8: "x mod BPB div 8 < BSIZE" by (simp add: less_mult_imp_div_less)
  have ne: "BBLOCK y sp \<noteq> of_nat x" using assms(4) [OF assms(2)] by simp
  show ?thesis
  proof (cases "BBLOCK y sp = BBLOCK x sp")
    case True
    have sz: "unat (sb_size sp) < 2 ^ 32" by (rule unat_lt2p32)
    have "y div BPB = x div BPB"
    proof -
      have "unat (of_nat (y div BPB) :: u32) = y div BPB" "unat (of_nat (x div BPB) :: u32) = x div BPB"
        using assms(1,2) sz by (simp_all add: unat_of_nat take_bit_nat_eq_self div_less_dividend le_less_trans [OF div_le_dividend])
      moreover have "(of_nat (y div BPB) :: u32) = of_nat (x div BPB)" using True by (simp add: BBLOCK_def)
      ultimately show ?thesis by argo
    qed
    then have "y = x \<longleftrightarrow> y mod BPB = x mod BPB" by (metis div_mult_mod_eq)
    then show ?thesis using True ne len i8 by (simp add: blk_free_def alloc_blk_def bit_free_mark_used)
  next
    case False
    then show ?thesis using ne by (auto simp: blk_free_def alloc_blk_def)
  qed
qed

lemma alloc_bitmap_ok:
  assumes "bitmap_ok st sp H c" "x < unat (sb_size sp)" "\<And>z. z < unat (sb_size sp) \<Longrightarrow> of_nat x \<noteq> BBLOCK z sp"
  shows "bitmap_ok st sp H (alloc_blk sp x c)"
  unfolding bitmap_ok_def
proof (intro allI impI conjI)
  fix b assume b: "b < unat (sb_size sp)"
  show "BBLOCK b sp \<notin> H" "BBLOCK b sp \<notin> log_area st" using assms(1) b by (simp_all add: bitmap_ok_def)
  show "length (alloc_blk sp x c (BBLOCK b sp)) = BSIZE"
    using assms(1,2) b assms(3) [OF b] by (auto simp: bitmap_ok_def alloc_blk_def)
qed

lemma in_op_alloc: "in_op s H L (k + 2) \<Longrightarrow> in_op s H (alloc_log sp x L) k"
  by (simp add: alloc_log_def in_op_add numeral_2_eq_2)

lemma balloc_ok:
  assumes l: "log_rel d s H L c" and op: "in_op s H L (k + 2)"
    and bm: "bitmap_ok (lg_start s) (sb s) H c" and meta: "meta_used (lg_start s) (sb s) H c"
    and x: "x < unat (sb_size (sb s))" "blk_free (sb s) c x" "\<And>y. y < x \<Longrightarrow> \<not> blk_free (sb s) c y"
  obtains s' where "balloc d s = Ok (s', of_nat x)" "log_rel d s' H (alloc_log (sb s) x L) (alloc_blk (sb s) x c)"
    "op_frame s s'" "in_op s' H (alloc_log (sb s) x L) k" "\<And>a j. a \<in> H \<Longrightarrow> holds d s a j \<Longrightarrow> holds d s' a j"
proof -
  have m: "of_nat x \<notin> H" "of_nat x \<notin> log_area (lg_start s)" using meta x(1,2) by (auto simp: meta_used_def)
  have op2: "in_op s H L 2" using in_op_mono [OF op] by simp
  show thesis
  proof (rule balloc_loop_ok [where q = 0 and k = "x div BPB", OF l op2 refl x _ refl bm m])
    fix s' assume s': "balloc_loop d (unat (sb_size (sb s))) (BPB * 0) s = Ok (s', of_nat x)"
      "log_rel d s' H (alloc_log (sb s) x L) (alloc_blk (sb s) x c)" "op_frame s s'" "\<And>a j. a \<in> H \<Longrightarrow> holds d s a j \<Longrightarrow> holds d s' a j"
    then show thesis
      using in_op_alloc [OF in_op_frame [OF s'(3) op]] by (intro that [of s']) (simp_all add: balloc_def)
  qed simp_all
qed

text \<open>
  C10. \<^verbatim>\<open>balloc\<close> keeps the free bitmap. In a transaction with room in the log it marks the first free block used, zeroes it and
  changes no other block; \<^verbatim>\<open>bfree\<close> of that block then frees exactly it again, and a second \<^verbatim>\<open>bfree\<close> panics.
  With no free block \<^verbatim>\<open>balloc\<close> panics.
\<close>

theorem balloc_bfree_correct:
  assumes "log_rel d s H L c" "in_op s H L 4" "bitmap_ok (lg_start s) (sb s) H c" "meta_used (lg_start s) (sb s) H c"
  shows "(\<forall>x < unat (sb_size (sb s)). blk_free (sb s) c x \<and> (\<forall>y < x. \<not> blk_free (sb s) c y) \<longrightarrow>
      (\<exists>s' L' c'. balloc d s = Ok (s', of_nat x) \<and> log_rel d s' H L' c' \<and> c' (of_nat x) = replicate BSIZE 0 \<and>
        (\<forall>y < unat (sb_size (sb s)). blk_free (sb s) c' y \<longleftrightarrow> y \<noteq> x \<and> blk_free (sb s) c y) \<and>
        (\<forall>b. b \<noteq> of_nat x \<and> b \<noteq> BBLOCK x (sb s) \<longrightarrow> c' b = c b) \<and>
        (\<exists>s'' L''. bfree d (of_nat x) s' = Ok s'' \<and> log_rel d s'' H L'' (c(of_nat x := replicate BSIZE 0)) \<and>
          bfree d (of_nat x) s'' = Panic ''freeing free block'')))
    \<and> ((\<forall>x < unat (sb_size (sb s)). \<not> blk_free (sb s) c x) \<longrightarrow> balloc d s = Panic ''balloc: out of blocks'')"
proof (intro conjI allI impI, goal_cases)
  case (1 x)
  let ?c = "alloc_blk (sb s) x c" and ?bm = "BBLOCK x (sb s)" and ?c2 = "c(of_nat x := zero_block)"
  have ne: "of_nat x \<noteq> BBLOCK z (sb s)" if "z < unat (sb_size (sb s))" for z using assms(4) 1 that by (auto simp: meta_used_def)
  have xu: "unat (of_nat x :: u32) = x"
    using 1 unat_lt2p32 [of "sb_size (sb s)"] by (simp add: unat_of_nat take_bit_nat_eq_self)
  have op: "in_op s H L (2 + 2)" using assms(2) by simp
  have bmx: "length (c ?bm) = BSIZE" using assms(3) 1 by (simp add: bitmap_ok_def)
  show ?case
  proof (rule balloc_ok [OF assms(1) op assms(3,4), of x])
    fix s' assume s': "balloc d s = Ok (s', of_nat x)" "log_rel d s' H (alloc_log (sb s) x L) ?c" "op_frame s s'"
      "in_op s' H (alloc_log (sb s) x L) 2"
    note F = op_frameD [OF s'(3)]
    have nf: "\<not> blk_free (sb s') ?c (unat (of_nat x :: u32))" using alloc_blk_free [OF _ _ assms(3) ne] 1 xu F by simp
    have b': "bitmap_ok (lg_start s') (sb s') H ?c" using alloc_bitmap_ok [OF assms(3) _ ne] 1 F by simp
    have op': "in_op s' H (alloc_log (sb s) x L) (Suc 1)" using s'(4) by (simp add: numeral_2_eq_2)
    have un: "?c(?bm := mark_free (?c ?bm) (x mod BPB)) = ?c2"
    proof -
      have "mark_free (mark_used (c ?bm) (x mod BPB)) (x mod BPB) = c ?bm"
        using 1 bmx by (intro mark_free_used) (simp_all add: blk_free_def less_mult_imp_div_less)
      then show ?thesis using ne [of x] 1 by (auto simp: alloc_blk_def fun_eq_iff)
    qed
    have "\<exists>s2. bfree d (of_nat x) s' = Ok s2 \<and>
        log_rel d s2 H (log_add ?bm (alloc_log (sb s) x L)) (?c(?bm := mark_free (?c ?bm) (x mod BPB))) \<and> op_frame s' s2"
      using bfree_ok(2) [OF s'(2) op' _ b' refl nf] F xu 1 by simp
    then obtain s2 where s2: "bfree d (of_nat x) s' = Ok s2"
      "log_rel d s2 H (log_add ?bm (alloc_log (sb s) x L)) ?c2" "op_frame s' s2"
      using un by auto
    have b2: "bitmap_ok (lg_start s2) (sb s2) H ?c2"
      using assms(3) op_frameD(1,10) [OF s2(3)] F(1,10) zero_block(1) by (auto simp: bitmap_ok_def)
    have f2: "blk_free (sb s2) ?c2 (unat (of_nat x :: u32))"
      using 1 ne [of x] xu op_frameD(1) [OF s2(3)] F(1) by (auto simp: blk_free_def)
    have "in_op s2 H (log_add ?bm (alloc_log (sb s) x L)) (Suc 0)" using in_op_add [OF in_op_frame [OF s2(3) op']] by simp
    then have "bfree d (of_nat x) s2 = Panic ''freeing free block''"
      using bfree_ok(1) [OF s2(2) _ _ b2 refl f2, of 0] 1 op_frameD [OF s2(3)] F xu by simp
    moreover have "blk_free (sb s) ?c y \<longleftrightarrow> y \<noteq> x \<and> blk_free (sb s) c y" if "y < unat (sb_size (sb s))" for y
      using alloc_blk_free [OF _ that assms(3) ne] 1 by simp
    moreover have "?c (of_nat x) = zero_block" "b \<noteq> of_nat x \<and> b \<noteq> ?bm \<Longrightarrow> ?c b = c b" for b by (simp_all add: alloc_blk_def)
    ultimately show ?case unfolding zero_block_def [symmetric] using s'(1,2) s2(1,2) by blast
  qed (use 1 in auto)
next
  case 2
  then show ?case using balloc_loop_none [OF assms(1,2) refl refl assms(3), of 0] by (simp add: balloc_def)
qed

section \<open>Example\<close>

text \<open>A file system of 60 blocks: log at 2, inodes at 32, bitmap at 45, and block 50 the only free one.\<close>

definition demo_sb :: superblock where
  "demo_sb = \<lparr>sb_magic = FSMAGIC, sb_size = 60, sb_nblocks = 14, sb_ninodes = 200, sb_nlog = 30, sb_logstart = 2,
     sb_inodestart = 32, sb_bmapstart = 45\<rparr>"

definition demo_inode :: inode where
  "demo_inode = \<lparr>idev = 0, inum = 0, iref = 0, ilk = initsleeplock, ivalid = False, itype = 0, imajor = 0, iminor = 0,
     inlink = 0, isize = 0, addrs = \<lambda>_. 0\<rparr>"

definition demo_fs :: "(u32 \<Rightarrow> block) \<Rightarrow> fs_st" where
  "demo_fs D = log_st.extend (demo_log D)
     \<lparr>sb = demo_sb, inodes = \<lambda>_. demo_inode, fmem = \<lparr>ram = \<lambda>_. 0, freelist = 0\<rparr>, ppt = 0, cwd = 0, destk = 4096\<rparr>"

definition demo_bitmap :: block where
  "demo_bitmap = mark_free (replicate BSIZE (- 1)) 50"

definition demo_disk :: "u32 \<Rightarrow> block" where
  "demo_disk = (\<lambda>_. zero_block)(45 := demo_bitmap)"

lemma demo_fs_fields:
  "boot_bufs (demo_fs D)" "disk (demo_fs D) = D" "lg_start (demo_fs D) = 2" "lg_size (demo_fs D) = 30"
  "outstanding (demo_fs D) = 1" "lg_dev (demo_fs D) = 1" "lh_n (demo_fs D) = 0" "sb (demo_fs D) = demo_sb"
  by (simp_all add: demo_fs_def log_st.defs demo_log_def demo_bst_def boot_bufs_def bst.defs)

lemma demo_fs_rel:
  assumes "length (D 2) = BSIZE" "rd32 (D 2) 0 = 0"
  shows "log_rel 1 (binit (demo_fs D)) {} [] D" "in_op (binit (demo_fs D)) {} [] 29"
    "lg_start (binit (demo_fs D)) = 2" "sb (binit (demo_fs D)) = demo_sb"
proof -
  obtain f where f: "binit (demo_fs D) = (demo_fs D)\<lparr>bufs := f\<rparr>" using binit_frame by blast
  have "pins [] = (\<lambda>_. 0)" by (simp add: pins_def fun_eq_iff)
  then have "cache_rel 1 (binit (demo_fs D)) {} (pins []) D"
    using binit_ok [of "demo_fs D" 1] demo_fs_fields(1,2) by simp
  then show "log_rel 1 (binit (demo_fs D)) {} [] D"
    using assms by (intro log_relI) (simp_all add: f demo_fs_fields)
  show "in_op (binit (demo_fs D)) {} [] 29" "lg_start (binit (demo_fs D)) = 2" "sb (binit (demo_fs D)) = demo_sb"
    by (simp_all add: in_op_def f demo_fs_fields)
qed

lemma demo_bitmap_free: "b < 60 \<Longrightarrow> blk_free demo_sb demo_disk b \<longleftrightarrow> b = 50"
proof -
  assume b: "b < 60"
  then have B: "BBLOCK b demo_sb = 45" by (simp add: BBLOCK_def demo_sb_def)
  have "\<not> bit_free (replicate BSIZE (- 1)) b" using b by (simp add: bit_free_iff less_mult_imp_div_less bit_simps)
  then show ?thesis
    using b B by (simp add: blk_free_def demo_disk_def demo_bitmap_def bit_free_mark_free)
qed

theorem balloc_bfree_correct_witness:
  "\<exists>s'. balloc 1 (binit (demo_fs demo_disk)) = Ok (s', 50)"
proof -
  let ?s = "binit (demo_fs demo_disk)"
  have D: "length (demo_disk 2) = BSIZE" "rd32 (demo_disk 2) 0 = 0" by (simp_all add: demo_disk_def zero_block)
  note R = demo_fs_rel [of demo_disk, OF D]
  have sz: "unat (sb_size (sb ?s)) = 60" by (simp add: R(4) demo_sb_def)
  have B: "BBLOCK b (sb ?s) = 45" if "b < 60" for b using that by (simp add: R(4) BBLOCK_def demo_sb_def)
  have area: "45 \<notin> log_area 2" by (simp add: log_area_def image_iff lessThan_nat_numeral lessThan_Suc)
  have len: "length (demo_disk 45) = BSIZE" by (simp add: demo_disk_def demo_bitmap_def)
  have "bitmap_ok (lg_start ?s) (sb ?s) {} demo_disk"
    unfolding bitmap_ok_def sz
  proof (intro allI impI)
    fix b assume "b < (60 :: nat)"
    then have "BBLOCK b (sb ?s) = 45" by (rule B)
    then show "BBLOCK b (sb ?s) \<notin> {} \<and> BBLOCK b (sb ?s) \<notin> log_area (lg_start ?s) \<and> length (demo_disk (BBLOCK b (sb ?s))) = BSIZE"
      using area len by (simp add: R(3))
  qed
  moreover have "meta_used (lg_start ?s) (sb ?s) {} demo_disk"
    unfolding meta_used_def sz
  proof (intro allI impI)
    fix b assume b: "b < (60 :: nat)" "blk_free (sb ?s) demo_disk b"
    then have "b = 50" using demo_bitmap_free by (simp add: R(4))
    then show "of_nat b \<notin> {} \<and> of_nat b \<notin> log_area (lg_start ?s) \<and> (\<forall>x < 60. of_nat b \<noteq> BBLOCK x (sb ?s))"
      using B by (simp add: R(3) log_area_def image_iff lessThan_nat_numeral lessThan_Suc)
  qed
  moreover have "in_op ?s {} [] 4" by (rule in_op_mono [OF R(2)]) simp
  moreover have "blk_free (sb ?s) demo_disk 50" "\<And>y. y < 50 \<Longrightarrow> \<not> blk_free (sb ?s) demo_disk y"
    using demo_bitmap_free by (simp_all add: R(4))
  ultimately show ?thesis
    using conjunct1 [OF balloc_bfree_correct [OF R(1)], THEN spec, of 50] sz by auto
qed

end
