(* ===== verification/Fs_Inode.thy ===== *)
theory Fs_Inode
  imports Fs_Block
begin

text \<open>
  Inodes of \<^verbatim>\<open>kernel/fs.c\<close>: their on-disk encoding, the inode cache and its reference counts, and
  the block map and contents of a file.
\<close>

section \<open>The on-disk inode\<close>

lemma length_wr_addrs: "off + 4 * n \<le> length d \<Longrightarrow> length (wr_addrs n a off d) = length d"
  by (induction n) simp_all

lemma rd32_wr_addrs: "off + 4 * n \<le> length d \<Longrightarrow> i < n \<Longrightarrow> rd32 (wr_addrs n a off d) (off + 4 * i) = a i"
proof (induction n)
  case (Suc n)
  then show ?case by (cases "i = n") (simp_all add: length_wr_addrs rd32_wr32 rd32_wr32_other)
qed simp

lemma sub_wr_addrs:
  "off + 4 * n \<le> length d \<Longrightarrow> p + k \<le> length d \<Longrightarrow> p + k \<le> off \<or> off + 4 * n \<le> p \<Longrightarrow> sub (wr_addrs n a off d) p k = sub d p k"
  by (induction n) (auto simp: length_wr_addrs sub_wr)

lemma rd_wr_addrs_other:
  "off + 4 * n \<le> length d \<Longrightarrow> p + 2 \<le> length d \<Longrightarrow> p + 2 \<le> off \<or> off + 4 * n \<le> p \<Longrightarrow> rd16 (wr_addrs n a off d) p = rd16 d p"
  "off + 4 * n \<le> length d \<Longrightarrow> p + 4 \<le> length d \<Longrightarrow> p + 4 \<le> off \<or> off + 4 * n \<le> p \<Longrightarrow> rd32 (wr_addrs n a off d) p = rd32 d p"
  by (simp_all add: rd16_def rd32_def sub_wr_addrs)

lemma length_store_dinode: "off + 64 \<le> length d \<Longrightarrow> length (store_dinode ip off d) = length d"
  by (simp add: store_dinode_def Let_def length_wr_addrs)

text \<open>Loading a stored inode gives its fields back, whatever cache entry it is loaded into.\<close>

lemma load_store_dinode:
  assumes "off + 64 \<le> length d"
  shows "load_dinode (store_dinode ip off d) off jp =
    jp\<lparr>itype := itype ip, imajor := imajor ip, iminor := iminor ip, inlink := inlink ip, isize := isize ip,
      addrs := (\<lambda>i. if i < NDIRECT + 1 then addrs ip i else addrs jp i)\<rparr>"
proof -
  have "rd32 (store_dinode ip off d) (off + 12 + 4 * i) = addrs ip i" if "i < 13" for i
    using assms that by (simp add: store_dinode_def Let_def rd32_wr_addrs)
  then have a: "(\<lambda>i. if i < 13 then rd32 (store_dinode ip off d) (off + 12 + 4 * i) else addrs jp i) =
      (\<lambda>i. if i < 13 then addrs ip i else addrs jp i)" by auto
  show ?thesis
    unfolding load_dinode_def using assms a
    by (simp add: store_dinode_def Let_def rd_wr_addrs_other rd16_wr16 rd16_wr_other rd32_wr32)
qed

lemma load_store_other:
  assumes "off + 64 \<le> length d" "off' + 64 \<le> length d" "off' + 64 \<le> off \<or> off + 64 \<le> off'"
  shows "load_dinode (store_dinode ip off d) off' jp = load_dinode d off' jp"
proof -
  have s: "sub (store_dinode ip off d) p k = sub d p k" if "p + k \<le> off \<or> off + 64 \<le> p" "p + k \<le> length d" for p k
    using assms(1) that by (auto simp: store_dinode_def Let_def sub_wr_addrs sub_wr)
  have r16: "rd16 (store_dinode ip off d) q = rd16 d q" if "off' \<le> q" "q + 2 \<le> off' + 64" for q
    using s [of q 2] that assms by (auto simp: rd16_def)
  have r32: "rd32 (store_dinode ip off d) q = rd32 d q" if "off' \<le> q" "q + 4 \<le> off' + 64" for q
    using s [of q 4] that assms by (auto simp: rd32_def)
  have "(\<lambda>i. if i < 13 then rd32 (store_dinode ip off d) (off' + 12 + 4 * i) else addrs jp i) =
      (\<lambda>i. if i < 13 then rd32 d (off' + 12 + 4 * i) else addrs jp i)" by (auto simp: r32)
  then show ?thesis unfolding load_dinode_def by (simp add: r16 r32)
qed

lemma dip_off_bound: "dip_off i + 64 \<le> BSIZE"
  by (simp add: dip_off_def)

text \<open>Two inodes are in the same place only if they are the same inode.\<close>

lemma dip_same:
  assumes "IBLOCK i sp = IBLOCK j sp" "dip_off i = dip_off j"
  shows "i = j"
proof -
  have "i div 16 = j div 16" using assms(1) by (simp add: IBLOCK_def)
  then have "unat (i div 16) = unat (j div 16)" by simp
  then have "unat i div 16 = unat j div 16" unfolding unat_div by simp
  moreover have "unat i mod 16 = unat j mod 16" using assms(2) by (simp add: dip_off_def)
  ultimately have "unat i = unat j" by (metis div_mult_mod_eq)
  then show ?thesis by (simp add: word_unat_eq_iff)
qed

lemma dip_apart: "dip_off i \<noteq> dip_off j \<Longrightarrow> dip_off i + 64 \<le> dip_off j \<or> dip_off j + 64 \<le> dip_off i"
proof -
  let ?a = "unat i mod IPB" and ?b = "unat j mod IPB"
  assume "dip_off i \<noteq> dip_off j"
  then have "?a < ?b \<or> ?b < ?a" by (auto simp: dip_off_def)
  then have "Suc ?a \<le> ?b \<or> Suc ?b \<le> ?a" by (simp only: Suc_le_eq)
  then show ?thesis unfolding dip_off_def by linarith
qed

lemma log_rel_inodes [simp]: "log_rel d (s\<lparr>inodes := x\<rparr>) H L c = log_rel d s H L c"
  by (simp add: log_rel_def cache_rel_def holds_def buf_ok_def)

lemma log_rel_fmem [simp]: "log_rel d (s\<lparr>fmem := x\<rparr>) H L c = log_rel d s H L c"
  by (simp add: log_rel_def cache_rel_def holds_def buf_ok_def)

lemma iupdate_ok:
  assumes l: "log_rel d s H L c" and op: "in_op s H L (Suc k)" and ip: "idev (inodes s ip) = d"
    and b: "b = IBLOCK (inum (inodes s ip)) (sb s)" "b \<notin> H" "b \<notin> log_area (lg_start s)"
  obtains s' where "iupdate ip s = Ok s'"
    "log_rel d s' H (log_add b L) (c(b := store_dinode (inodes s ip) (dip_off (inum (inodes s ip))) (c b)))" "op_frame s s'"
    "\<And>a j. a \<in> H \<Longrightarrow> holds d s a j \<Longrightarrow> holds d s' a j"
proof -
  let ?x = "store_dinode (inodes s ip) (dip_off (inum (inodes s ip))) (c b)"
  show thesis
  proof (rule fs_update_block [OF l b(2,3) op, of ?x])
    fix s1 i s2 s3
    assume u: "bread d b s = Ok (s1, i)" "bdata (bufs s1 i) = c b" "op_frame s s1" "log_write i (set_data i ?x s1) = Ok s2"
      "brelse i s2 = Ok s3" "log_rel d s3 H (log_add b L) (c(b := ?x))" "op_frame s s3"
      "\<And>a j. a \<in> H \<Longrightarrow> holds d s a j \<Longrightarrow> holds d s3 a j"
    have "iupdate ip s = Ok s3" using u(1,2,4,5) ip b(1) op_frameD(2) [OF u(3)] by (simp add: iupdate_def)
    then show thesis using u by (intro that [of s3]) simp_all
  qed
qed

lemma ilock_load:
  assumes l: "log_rel d s H L c" and op: "in_op s H L k" and ip: "idev (inodes s ip) = d" "iref (inodes s ip) \<ge> 1"
      "\<not> sl_locked (ilk (inodes s ip))" "\<not> ivalid (inodes s ip)"
    and b: "b = IBLOCK (inum (inodes s ip)) (sb s)" "b \<notin> H" "b \<notin> log_area (lg_start s)"
    and j: "j = load_dinode (c b) (dip_off (inum (inodes s ip)))
      ((inodes s ip)\<lparr>ilk := \<lparr>sl_locked = True, sl_pid = curpid s\<rparr>\<rparr>)"
  shows "itype j = 0 \<Longrightarrow> ilock ip s = Panic ''ilock: no type''"
    "itype j \<noteq> 0 \<Longrightarrow> \<exists>s'. ilock ip s = Ok s' \<and> inodes s' = (inodes s)(ip := j\<lparr>ivalid := True\<rparr>) \<and> log_rel d s' H L c \<and> sb s' = sb s"
proof -
  let ?t = "upd_ino ip (\<lambda>i. i\<lparr>ilk := \<lparr>sl_locked = True, sl_pid = curpid s\<rparr>\<rparr>) s"
  have t: "log_rel d ?t H L c" "in_op ?t H L k" "lg_start ?t = lg_start s"
    using l op by (simp_all add: upd_ino_def in_op_def)
  obtain s1 i where u: "bread d b ?t = Ok (s1, i)" "log_rel d s1 (insert b H) L c" "op_frame ?t s1" "holds d s1 b i" "bdata (bufs s1 i) = c b"
    by (rule fs_bread [OF t(1) b(2) _ t(2)]) (use b(3) t(3) in auto)
  have i1: "inodes s1 ip = (inodes s ip)\<lparr>ilk := \<lparr>sl_locked = True, sl_pid = curpid s\<rparr>\<rparr>" "sb s1 = sb s" "inodes s1 = inodes ?t"
    using op_frameD(1,2) [OF u(3)] by (simp_all add: upd_ino_def)
  let ?s2 = "s1\<lparr>inodes := (inodes s1)(ip := j)\<rparr>"
  have r2: "log_rel d ?s2 (insert b H) L c" using u(2) by simp
  have h2: "holds d ?s2 b i" using u(4) by (simp add: holds_def)
  have clean: "b \<in> set L \<or> c b = disk ?s2 b"
    using cache_relD(6) [OF log_relD(1) [OF t(1)], of b] b(2) op_frameD(8) [OF u(3)] by auto
  obtain s3 where v: "brelse i ?s2 = Ok s3" "log_rel d s3 (insert b H - {b}) L c" "op_frame ?s2 s3"
    by (rule fs_brelse [OF r2 h2 _ clean]) auto
  have e: "insert b H - {b} = H" using b(2) by simp
  have i3: "inodes s3 ip = j" "sb s3 = sb s" "inodes s3 = (inodes s1)(ip := j)" using op_frameD(1,2) [OF v(3)] i1 by simp_all
  have il: "ilock ip s = (let s = upd_ino ip (\<lambda>i. i\<lparr>ivalid := True\<rparr>) s3 in
      if itype (inodes s ip) = 0 then Panic ''ilock: no type'' else Ok s)"
    using ip u(1,5) v(1) i1 b(1) j
    by (simp add: ilock_def acquiresleep_def Let_def upd_ino_def)
  show "itype j = 0 \<Longrightarrow> ilock ip s = Panic ''ilock: no type''" using il i3 by (simp add: upd_ino_def)
  show "itype j \<noteq> 0 \<Longrightarrow> \<exists>s'. ilock ip s = Ok s' \<and> inodes s' = (inodes s)(ip := j\<lparr>ivalid := True\<rparr>) \<and> log_rel d s' H L c \<and> sb s' = sb s"
    using il i3 i1 v(2) e by (simp add: upd_ino_def)
qed

text \<open>The part of an inode that lives on disk.\<close>

definition disk_part :: "inode \<Rightarrow> u16 \<times> u16 \<times> u16 \<times> u16 \<times> u32 \<times> u32 list" where
  "disk_part i = (itype i, imajor i, iminor i, inlink i, isize i, map (addrs i) [0..<NDIRECT + 1])"

definition dinode_of :: "superblock \<Rightarrow> (u32 \<Rightarrow> block) \<Rightarrow> u32 \<Rightarrow> u16 \<times> u16 \<times> u16 \<times> u16 \<times> u32 \<times> u32 list" where
  "dinode_of sp c n = disk_part (load_dinode (c (IBLOCK n sp)) (dip_off n) demo_inode)"

lemma disk_part_load: "disk_part (load_dinode d off i) = disk_part (load_dinode d off j)"
  by (simp add: disk_part_def load_dinode_def)

lemma disk_part_store: "off + 64 \<le> length d \<Longrightarrow> disk_part (load_dinode (store_dinode ip off d) off i) = disk_part ip"
  by (simp add: load_store_dinode disk_part_def)

lemma dinode_of_store:
  assumes "length (c (IBLOCK n sp)) = BSIZE"
  shows "dinode_of sp (c(IBLOCK n sp := store_dinode ip (dip_off n) (c (IBLOCK n sp)))) m =
    (if m = n then disk_part ip else dinode_of sp c m)"
proof (cases "m = n")
  case True
  then show ?thesis using disk_part_store dip_off_bound assms by (simp add: dinode_of_def)
next
  case False
  show ?thesis
  proof (cases "IBLOCK m sp = IBLOCK n sp")
    case True
    then have "dip_off m \<noteq> dip_off n" using dip_same False by blast
    then have "dip_off m + 64 \<le> dip_off n \<or> dip_off n + 64 \<le> dip_off m" by (rule dip_apart)
    then show ?thesis
      using True False load_store_other [of "dip_off n" "c (IBLOCK n sp)" "dip_off m"] dip_off_bound [of n] dip_off_bound [of m] assms
      by (simp add: dinode_of_def)
  qed (use False in \<open>simp add: dinode_of_def\<close>)
qed

text \<open>
  C12. The inode cache is write-through: \<^verbatim>\<open>iupdate\<close> stores the on-disk part of the inode at its place,
  changes no other inode and no other block, and whatever the cache holds afterwards, \<^verbatim>\<open>ilock\<close> of
  an entry that has to be read from disk reads exactly what was stored, or panics if the type is 0.
\<close>

theorem iupdate_ilock_roundtrip:
  fixes s :: "'a fs_st_scheme"
  assumes "log_rel d s H L c" "in_op s H L 2" "idev (inodes s ip) = d" "IBLOCK (inum (inodes s ip)) (sb s) \<notin> H"
    "IBLOCK (inum (inodes s ip)) (sb s) \<notin> log_area (lg_start s)" "length (c (IBLOCK (inum (inodes s ip)) (sb s))) = BSIZE"
  shows "\<exists>s' L' c'. iupdate ip s = Ok s' \<and> log_rel d s' H L' c' \<and>
    (\<forall>n. dinode_of (sb s) c' n = (if n = inum (inodes s ip) then disk_part (inodes s ip) else dinode_of (sb s) c n)) \<and>
    (\<forall>b. b \<noteq> IBLOCK (inum (inodes s ip)) (sb s) \<longrightarrow> c' b = c b) \<and>
    (\<forall>f j. idev (f j) = d \<and> inum (f j) = inum (inodes s ip) \<and> iref (f j) \<ge> 1 \<and> \<not> sl_locked (ilk (f j)) \<and> \<not> ivalid (f j) \<longrightarrow>
      (if itype (inodes s ip) = 0 then ilock j (s'\<lparr>inodes := f\<rparr>) = Panic ''ilock: no type''
       else \<exists>s''. ilock j (s'\<lparr>inodes := f\<rparr>) = Ok s'' \<and> disk_part (inodes s'' j) = disk_part (inodes s ip) \<and> ivalid (inodes s'' j)))"
proof -
  let ?n = "inum (inodes s ip)" and ?b = "IBLOCK (inum (inodes s ip)) (sb s)"
  let ?c = "c(?b := store_dinode (inodes s ip) (dip_off ?n) (c ?b))"
  have op: "in_op s H L (Suc 1)" using assms(2) by (simp add: numeral_2_eq_2)
  obtain s' where s': "iupdate ip s = Ok s'" "log_rel d s' H (log_add ?b L) ?c" "op_frame s s'"
    by (rule iupdate_ok [OF assms(1) op assms(3) refl assms(4,5)])
  note F = op_frameD [OF s'(3)]
  have op': "in_op s' H (log_add ?b L) 1" using in_op_add [OF in_op_frame [OF s'(3) op]] .
  have "if itype (inodes s ip) = 0 then ilock j (s'\<lparr>inodes := f\<rparr>) = Panic ''ilock: no type''
       else \<exists>s''. ilock j (s'\<lparr>inodes := f\<rparr>) = Ok s'' \<and> disk_part (inodes s'' j) = disk_part (inodes s ip) \<and> ivalid (inodes s'' j)"
    if j: "idev (f j) = d" "inum (f j) = ?n" "iref (f j) \<ge> 1" "\<not> sl_locked (ilk (f j))" "\<not> ivalid (f j)" for f j
  proof -
    let ?t = "s'\<lparr>inodes := f\<rparr>"
    let ?e = "(f j)\<lparr>ilk := \<lparr>sl_locked = True, sl_pid = curpid s'\<rparr>\<rparr>"
    have t: "log_rel d ?t H (log_add ?b L) ?c" "in_op ?t H (log_add ?b L) 1" using s'(2) op' by (simp_all add: in_op_def)
    note il = ilock_load [OF t, of j ?b "load_dinode (?c ?b) (dip_off ?n) ?e"]
    have dp: "disk_part (load_dinode (?c ?b) (dip_off ?n) ?e) = disk_part (inodes s ip)"
      using disk_part_store dip_off_bound assms(6) by simp
    then have ty: "itype (load_dinode (?c ?b) (dip_off ?n) ?e) = itype (inodes s ip)" by (simp add: disk_part_def)
    have dv: "disk_part (x\<lparr>ivalid := True\<rparr>) = disk_part x" for x by (simp add: disk_part_def)
    show ?thesis
    proof (cases "itype (inodes s ip) = 0")
      case True
      then show ?thesis using il(1) j assms(4,5) F ty by simp
    next
      case False
      then obtain s'' where "ilock j ?t = Ok s''"
        "inodes s'' = f(j := (load_dinode (?c ?b) (dip_off ?n) ?e)\<lparr>ivalid := True\<rparr>)"
        using il(2) j assms(4,5) F ty by auto
      then show ?thesis using False dp dv by simp
    qed
  qed
  moreover have "dinode_of (sb s) ?c m = (if m = ?n then disk_part (inodes s ip) else dinode_of (sb s) c m)" for m
    by (rule dinode_of_store) (rule assms(6))
  ultimately show ?thesis using s'(1,2) by (intro exI [of _ s'] exI [of _ "log_add ?b L"] exI [of _ ?c]) simp
qed

section \<open>The inode cache\<close>

definition icache_ok :: "(nat \<Rightarrow> inode) \<Rightarrow> bool" where
  "icache_ok f \<longleftrightarrow> (\<forall>i < NINODE. iref (f i) \<ge> 0) \<and>
     (\<forall>i < NINODE. \<forall>j < NINODE. iref (f i) > 0 \<and> iref (f j) > 0 \<and> idev (f i) = idev (f j) \<and> inum (f i) = inum (f j) \<longrightarrow> i = j)"

lemma icache_okD:
  assumes "icache_ok f"
  shows "i < NINODE \<Longrightarrow> iref (f i) \<ge> 0"
    "i < NINODE \<Longrightarrow> j < NINODE \<Longrightarrow> iref (f i) > 0 \<Longrightarrow> iref (f j) > 0 \<Longrightarrow> idev (f i) = idev (f j) \<Longrightarrow> inum (f i) = inum (f j) \<Longrightarrow> i = j"
  using assms unfolding icache_ok_def by blast+

lemma icache_ok_upd:
  assumes "icache_ok f" "iref x > 0"
    "\<And>j. j < NINODE \<Longrightarrow> j \<noteq> i \<Longrightarrow> iref (f j) > 0 \<Longrightarrow> \<not> (idev (f j) = idev x \<and> inum (f j) = inum x)"
  shows "icache_ok (f(i := x))"
  unfolding icache_ok_def
proof (intro conjI allI impI, goal_cases)
  case (1 j)
  then show ?case using icache_okD(1) [OF assms(1), of j] assms(2) by simp
next
  case (2 j k)
  then show ?case
    using icache_okD(2) [OF assms(1), of j k] assms(3) [of j] assms(3) [of k] by (cases "j = i"; cases "k = i") auto
qed

lemma iget_loop_hit:
  "iget_loop k p e dev n f = Inl i \<Longrightarrow> p \<le> i \<and> i < p + k \<and> iref (f i) > 0 \<and> idev (f i) = dev \<and> inum (f i) = n"
proof (induction k arbitrary: p e)
  case (Suc k)
  show ?case
  proof (cases "iref (f p) > 0 \<and> idev (f p) = dev \<and> inum (f p) = n")
    case False
    then have "iget_loop k (Suc p) (if e = None \<and> iref (f p) = 0 then Some p else e) dev n f = Inl i" using Suc.prems by auto
    from Suc.IH [OF this] show ?thesis by auto
  qed (use Suc.prems in auto)
qed simp

lemma iget_loop_miss:
  "iget_loop k p e dev n f = Inr r \<Longrightarrow> p \<le> i \<Longrightarrow> i < p + k \<Longrightarrow> \<not> (iref (f i) > 0 \<and> idev (f i) = dev \<and> inum (f i) = n)"
proof (induction k arbitrary: p e)
  case (Suc k)
  let ?e = "if e = None \<and> iref (f p) = 0 then Some p else e"
  have np: "\<not> (iref (f p) > 0 \<and> idev (f p) = dev \<and> inum (f p) = n)" and r: "iget_loop k (Suc p) ?e dev n f = Inr r"
    using Suc.prems(1) by (auto split: if_splits)
  show ?case using Suc.IH [OF r] np Suc.prems(2,3) by (cases "i = p") auto
qed simp

lemma iget_loop_slot:
  "iget_loop k p e dev n f = Inr r \<Longrightarrow>
    (case e of Some i \<Rightarrow> r = Some i
     | None \<Rightarrow> (case r of None \<Rightarrow> \<forall>i. p \<le> i \<and> i < p + k \<longrightarrow> iref (f i) \<noteq> 0 | Some i \<Rightarrow> p \<le> i \<and> i < p + k \<and> iref (f i) = 0))"
proof (induction k arbitrary: p e)
  case 0
  then show ?case by (auto split: option.splits)
next
  case (Suc k)
  let ?e = "if e = None \<and> iref (f p) = 0 then Some p else e"
  have r: "iget_loop k (Suc p) ?e dev n f = Inr r" using Suc.prems by (auto split: if_splits)
  have le: "iref (f i) \<noteq> 0" if "\<forall>i. Suc p \<le> i \<and> i < Suc p + k \<longrightarrow> iref (f i) \<noteq> 0" "iref (f p) \<noteq> 0" "p \<le> i" "i < p + Suc k" for i
    using that by (cases "i = p") auto
  show ?case using Suc.IH [OF r] le by (auto split: option.splits if_splits)
qed

text \<open>
  C19. \<^verbatim>\<open>iget\<close> keeps the inode cache free of duplicates: it returns the entry of the inode if the
  inode is cached and otherwise an unused entry set up for it, counts the new reference, leaves all other
  entries alone, and panics only when the inode is not cached and every entry is in use.
\<close>

theorem iget_correct:
  assumes "icache_ok (inodes s)"
  shows "(\<exists>s' i. iget dev n s = Ok (s', i) \<and> i < NINODE \<and> icache_ok (inodes s') \<and> idev (inodes s' i) = dev \<and> inum (inodes s' i) = n \<and>
      (if \<exists>j < NINODE. iref (inodes s j) > 0 \<and> idev (inodes s j) = dev \<and> inum (inodes s j) = n
       then inodes s' i = (inodes s i)\<lparr>iref := iref (inodes s i) + 1\<rparr> \<and> iref (inodes s i) > 0
       else iref (inodes s i) = 0 \<and> iref (inodes s' i) = 1 \<and> \<not> ivalid (inodes s' i)) \<and>
      (\<forall>j. j \<noteq> i \<longrightarrow> inodes s' j = inodes s j))
    \<or> (iget dev n s = Panic ''iget: no inodes'' \<and> (\<forall>j < NINODE. iref (inodes s j) > 0 \<and> \<not> (idev (inodes s j) = dev \<and> inum (inodes s j) = n)))"
proof (cases "iget_loop NINODE 0 None dev n (inodes s)")
  case (Inl i)
  from iget_loop_hit [OF this] have i: "i < NINODE" "iref (inodes s i) > 0" "idev (inodes s i) = dev" "inum (inodes s i) = n" by auto
  have ok: "icache_ok ((inodes s)(i := (inodes s i)\<lparr>iref := iref (inodes s i) + 1\<rparr>))"
  proof (rule icache_ok_upd [OF assms])
    show "\<not> (idev (inodes s j) = idev ((inodes s i)\<lparr>iref := iref (inodes s i) + 1\<rparr>) \<and>
        inum (inodes s j) = inum ((inodes s i)\<lparr>iref := iref (inodes s i) + 1\<rparr>))"
      if "j < NINODE" "j \<noteq> i" "iref (inodes s j) > 0" for j
      using icache_okD(2) [OF assms that(1) i(1) that(3) i(2)] that(2) by auto
  qed (use i in simp)
  have "iget dev n s = Ok (s\<lparr>inodes := (inodes s)(i := (inodes s i)\<lparr>iref := iref (inodes s i) + 1\<rparr>)\<rparr>, i)"
    by (simp add: iget_def Inl upd_ino_def)
  moreover have "\<exists>j < NINODE. iref (inodes s j) > 0 \<and> idev (inodes s j) = dev \<and> inum (inodes s j) = n" using i by blast
  ultimately show ?thesis
    using i ok by (intro disjI1 exI [of _ "s\<lparr>inodes := (inodes s)(i := (inodes s i)\<lparr>iref := iref (inodes s i) + 1\<rparr>)\<rparr>"] exI [of _ i]) simp
next
  case (Inr r)
  have no: "\<And>j. j < NINODE \<Longrightarrow> \<not> (iref (inodes s j) > 0 \<and> idev (inodes s j) = dev \<and> inum (inodes s j) = n)"
    using iget_loop_miss [OF Inr] by simp
  note sl = iget_loop_slot [OF Inr, simplified]
  show ?thesis
  proof (cases r)
    case None
    then have "\<And>j. j < NINODE \<Longrightarrow> iref (inodes s j) \<noteq> 0" using sl by simp
    then have "\<And>j. j < NINODE \<Longrightarrow> iref (inodes s j) > 0" using icache_okD(1) [OF assms] by (simp add: order_less_le)
    moreover have "iget dev n s = Panic ''iget: no inodes''" by (simp add: iget_def Inr None)
    ultimately show ?thesis using no by blast
  next
    case (Some i)
    let ?x = "(inodes s i)\<lparr>idev := dev, inum := n, iref := 1, ivalid := False\<rparr>"
    have i: "i < NINODE" "iref (inodes s i) = 0" using sl Some by simp_all
    have ok: "icache_ok ((inodes s)(i := ?x))" by (rule icache_ok_upd [OF assms]) (use no in auto)
    have "iget dev n s = Ok (s\<lparr>inodes := (inodes s)(i := ?x)\<rparr>, i)" by (simp add: iget_def Inr Some upd_ino_def)
    moreover have "\<not> (\<exists>j < NINODE. iref (inodes s j) > 0 \<and> idev (inodes s j) = dev \<and> inum (inodes s j) = n)" using no by blast
    ultimately show ?thesis using i ok by (intro disjI1 exI [of _ "s\<lparr>inodes := (inodes s)(i := ?x)\<rparr>"] exI [of _ i]) simp
  qed
qed

theorem iget_correct_witness: "\<exists>s' i. iget 1 3 (demo_fs demo_disk) = Ok (s', i) \<and> inum (inodes s' i) = 3"
proof -
  have "inodes (demo_fs demo_disk) = (\<lambda>_. demo_inode)" by (simp add: demo_fs_def log_st.defs)
  then have "icache_ok (inodes (demo_fs demo_disk))" "iref (inodes (demo_fs demo_disk) 0) = 0"
    by (simp_all add: icache_ok_def demo_inode_def)
  then show ?thesis using iget_correct [of "demo_fs demo_disk" 1 3] by fastforce
qed

definition demo_ino3 :: inode where
  "demo_ino3 = demo_inode\<lparr>idev := 1, inum := 3, iref := 1, itype := T_FILE, inlink := 1, isize := 2000\<rparr>"

theorem iupdate_ilock_roundtrip_witness:
  "\<exists>s' s''. iupdate 0 ((binit (demo_fs demo_disk))\<lparr>inodes := \<lambda>_. demo_ino3\<rparr>) = Ok s' \<and>
    ilock 7 (s'\<lparr>inodes := \<lambda>_. demo_inode\<lparr>idev := 1, inum := 3, iref := 1\<rparr>\<rparr>) = Ok s'' \<and> isize (inodes s'' 7) = 2000"
proof -
  let ?s = "(binit (demo_fs demo_disk))\<lparr>inodes := \<lambda>_. demo_ino3\<rparr>" and ?f = "\<lambda>_ :: nat. demo_inode\<lparr>idev := 1, inum := 3, iref := 1\<rparr>"
  have D: "length (demo_disk 2) = BSIZE" "rd32 (demo_disk 2) 0 = 0" by (simp_all add: demo_disk_def zero_block)
  note R = demo_fs_rel [of demo_disk, OF D]
  have b: "IBLOCK (inum (inodes ?s 0)) (sb ?s) = 32" by (simp add: R(4) demo_sb_def IBLOCK_def demo_ino3_def)
  have "log_rel 1 ?s {} [] demo_disk" "in_op ?s {} [] 2" using R(1) in_op_mono [OF R(2), of 2] by (simp_all add: in_op_def)
  moreover have "32 \<notin> log_area (lg_start ?s)" by (simp add: R(3) log_area_def image_iff lessThan_nat_numeral lessThan_Suc)
  moreover have "length (demo_disk 32) = BSIZE" by (simp add: demo_disk_def zero_block)
  ultimately obtain s' where s': "iupdate 0 ?s = Ok s'" and
    f: "\<forall>f j. idev (f j) = 1 \<and> inum (f j) = inum (inodes ?s 0) \<and> iref (f j) \<ge> 1 \<and> \<not> sl_locked (ilk (f j)) \<and> \<not> ivalid (f j) \<longrightarrow>
      (if itype (inodes ?s 0) = 0 then ilock j (s'\<lparr>inodes := f\<rparr>) = Panic ''ilock: no type''
       else \<exists>s''. ilock j (s'\<lparr>inodes := f\<rparr>) = Ok s'' \<and> disk_part (inodes s'' j) = disk_part (inodes ?s 0) \<and> ivalid (inodes s'' j))"
    using iupdate_ilock_roundtrip [of 1 ?s "{}" "[]" demo_disk 0] b by (auto simp: demo_ino3_def)
  from f [THEN spec, of ?f, THEN spec, of 7]
  obtain s'' where "ilock 7 (s'\<lparr>inodes := ?f\<rparr>) = Ok s''" "disk_part (inodes s'' 7) = disk_part demo_ino3"
    by (auto simp: demo_ino3_def demo_inode_def initsleeplock_def)
  then show ?thesis using s' by (auto simp: disk_part_def demo_ino3_def)
qed

end
