(* ===== verification/File.thy ===== *)
theory File
  imports Fs Pipe
begin

text \<open>
  Open files, \<^verbatim>\<open>kernel/file.c\<close>, with \<^verbatim>\<open>pipealloc\<close> of \<^verbatim>\<open>kernel/pipe.c\<close>. A file is named by its index in \<^verbatim>\<open>ftable.file\<close>, a pipe
  by the address of its page; the contents of a live pipe are kept in \<open>pipes\<close>. The routines return the channels
  they wake. \<open>kend\<close> is the linker symbol \<^verbatim>\<open>end\<close>; the device switch \<^verbatim>\<open>devsw\<close>, an array of function pointers that the
  drivers fill, is an argument of the routines that call through it.
\<close>

abbreviation NFILE :: nat where "NFILE \<equiv> 100"
abbreviation NDEV :: int where "NDEV \<equiv> 10"

datatype ftype = FD_NONE | FD_PIPE | FD_INODE | FD_DEVICE

record kfile =
  ftyp :: ftype
  fref :: int
  freadable :: bool
  fwritable :: bool
  fpipe :: u64
  fip :: nat
  foff :: u32
  fmajor :: u16

record file_st = fs_st +
  ftable :: "nat \<Rightarrow> kfile"
  pipes :: "u64 \<Rightarrow> pipe"

definition upd_file :: "nat \<Rightarrow> (kfile \<Rightarrow> kfile) \<Rightarrow> 'a file_st_scheme \<Rightarrow> 'a file_st_scheme" where
  "upd_file f g s = s\<lparr>ftable := (ftable s)(f := g (ftable s f))\<rparr>"

definition filealloc :: "'a file_st_scheme \<Rightarrow> 'a file_st_scheme \<times> nat option" where
  "filealloc s =
     (case scan NFILE 0 (\<lambda>f. fref (ftable s f) = 0) of
        Some f \<Rightarrow> (upd_file f (\<lambda>x. x\<lparr>fref := 1\<rparr>) s, Some f)
      | None \<Rightarrow> (s, None))"

definition filedup :: "nat \<Rightarrow> 'a file_st_scheme \<Rightarrow> 'a file_st_scheme kres" where
  "filedup f s =
     (if fref (ftable s f) < 1 then Panic ''filedup''
      else Ok (upd_file f (\<lambda>x. x\<lparr>fref := fref x + 1\<rparr>) s))"

definition fileclose :: "u64 \<Rightarrow> nat \<Rightarrow> 'a file_st_scheme \<Rightarrow> ('a file_st_scheme \<times> chan list) kres" where
  "fileclose kend f s =
     (if fref (ftable s f) < 1 then Panic ''fileclose''
      else if fref (ftable s f) - 1 > 0 then Ok (upd_file f (\<lambda>x. x\<lparr>fref := fref x - 1\<rparr>) s, [])
      else let ff = ftable s f;
               s = upd_file f (\<lambda>x. x\<lparr>fref := 0, ftyp := FD_NONE\<rparr>) s
           in if ftyp ff = FD_PIPE
              then kbind (pipeclose kend (fpipe ff) (fwritable ff) (fmem s) (pipes s (fpipe ff))) (\<lambda>(k, pi, woken).
                Ok (s\<lparr>fmem := k, pipes := (case pi of Some pi \<Rightarrow> (pipes s)(fpipe ff := pi) | None \<Rightarrow> pipes s)\<rparr>, woken))
              else if ftyp ff = FD_INODE \<or> ftyp ff = FD_DEVICE
              then kbind (begin_op s) (\<lambda>s.
                   kbind (iput (fip ff) s) (\<lambda>s.
                   kbind (end_op s) (\<lambda>s. Ok (s, []))))
              else Ok (s, []))"

text \<open>The bytes of a \<^verbatim>\<open>struct stat\<close>; \<open>pad\<close> is what the four bytes of padding hold.\<close>

definition stat_bytes :: "u8 list \<Rightarrow> stat \<Rightarrow> u8 list" where
  "stat_bytes pad st =
     le_bytes 4 (st_dev st) @ le_bytes 4 (st_ino st) @ le_bytes 2 (st_type st) @ le_bytes 2 (st_nlink st) @
     take 4 pad @ le_bytes 8 (st_size st)"

definition filestat :: "u8 list \<Rightarrow> nat \<Rightarrow> u64 \<Rightarrow> 'a file_st_scheme \<Rightarrow> ('a file_st_scheme \<times> int) kres" where
  "filestat pad f addr s =
     (if ftyp (ftable s f) = FD_INODE \<or> ftyp (ftable s f) = FD_DEVICE
      then kbind (ilock (fip (ftable s f)) s) (\<lambda>s.
           let st = stati (fip (ftable s f)) s in
           kbind (iunlock (fip (ftable s f)) s) (\<lambda>s.
           kbind (copyout (ppt s) addr (stat_bytes pad st) (fmem s)) (\<lambda>(k, r).
             Ok (s\<lparr>fmem := k\<rparr>, if r < 0 then - 1 else 0))))
      else Ok (s, - 1))"

text \<open>An entry of \<^verbatim>\<open>devsw\<close>: the function for a user address and a length, or a null pointer.\<close>

type_synonym 's devio = "(u64 \<Rightarrow> int \<Rightarrow> 's \<Rightarrow> ('s \<times> progress \<times> chan list) kres) option"

definition dev_ok :: "u16 \<Rightarrow> bool" where
  "dev_ok m \<longleftrightarrow> \<not> (sint m < 0 \<or> sint m \<ge> NDEV)"

definition fileread :: "(int \<Rightarrow> 'a file_st_scheme devio) \<Rightarrow> bool \<Rightarrow> nat \<Rightarrow> u64 \<Rightarrow> int \<Rightarrow> 'a file_st_scheme \<Rightarrow>
    ('a file_st_scheme \<times> progress \<times> chan list) kres" where
  "fileread devread killed f addr n s =
     (let x = ftable s f in
      if \<not> freadable x then Ok (s, Done (- 1), [])
      else case ftyp x of
        FD_PIPE \<Rightarrow>
          kbind (piperead (fpipe x) (ppt s) addr n killed (fmem s) (pipes s (fpipe x))) (\<lambda>(k, pi, r, woken).
            Ok (s\<lparr>fmem := k, pipes := (pipes s)(fpipe x := pi)\<rparr>, r, woken))
      | FD_DEVICE \<Rightarrow>
          (case (if dev_ok (fmajor x) then devread (sint (fmajor x)) else None) of
             None \<Rightarrow> Ok (s, Done (- 1), [])
           | Some rd \<Rightarrow> rd addr n s)
      | FD_INODE \<Rightarrow>
          kbind (ilock (fip x) s) (\<lambda>s.
          kbind (readi (fip x) True addr (foff x) (of_int n) s) (\<lambda>(s, r).
            let s = (if r > 0 then upd_file f (\<lambda>x. x\<lparr>foff := foff x + of_int r\<rparr>) s else s) in
            kbind (iunlock (fip x) s) (\<lambda>s. Ok (s, Done r, []))))
      | FD_NONE \<Rightarrow> Panic ''fileread'')"

text \<open>
  \<^verbatim>\<open>filewrite\<close> to an inode writes in transactions of at most 3072 bytes; \<open>i\<close> bytes are written already.
\<close>

definition write_max :: int where
  "write_max = ((MAXOPBLOCKS - 1 - 1 - 2) div 2) * int BSIZE"

definition filewrite_chunk :: "nat \<Rightarrow> u64 \<Rightarrow> int \<Rightarrow> int \<Rightarrow> 'a file_st_scheme \<Rightarrow> ('a file_st_scheme \<times> int) kres" where
  "filewrite_chunk f addr i n1 s =
     (let ip = fip (ftable s f) in
      kbind (begin_op s) (\<lambda>s.
      kbind (ilock ip s) (\<lambda>s.
      kbind (writei ip True (addr + of_int i) (foff (ftable s f)) (of_int n1) s) (\<lambda>(s, r).
        let s = (if r > 0 then upd_file f (\<lambda>x. x\<lparr>foff := foff x + of_int r\<rparr>) s else s) in
        kbind (iunlock ip s) (\<lambda>s.
        kbind (end_op s) (\<lambda>s. Ok (s, r)))))))"

function filewrite_loop :: "nat \<Rightarrow> u64 \<Rightarrow> int \<Rightarrow> int \<Rightarrow> 'a file_st_scheme \<Rightarrow> ('a file_st_scheme \<times> int) kres" where
  "filewrite_loop f addr n i s =
     (if i < n
      then let n1 = min (n - i) write_max in
           kbind (filewrite_chunk f addr i n1 s) (\<lambda>(s, r).
             if r < 0 then Ok (s, i)
             else if r \<noteq> n1 then Panic ''short filewrite''
             else filewrite_loop f addr n (i + r) s)
      else Ok (s, i))"
  by pat_completeness auto
termination
  by (relation "measure (\<lambda>(f, addr, n, i, s). nat (n - i))") (auto simp: write_max_def)

declare filewrite_loop.simps [simp del]

definition filewrite :: "(int \<Rightarrow> 'a file_st_scheme devio) \<Rightarrow> bool \<Rightarrow> nat \<Rightarrow> u64 \<Rightarrow> int \<Rightarrow> 'a file_st_scheme \<Rightarrow>
    ('a file_st_scheme \<times> progress \<times> chan list) kres" where
  "filewrite devwrite killed f addr n s =
     (let x = ftable s f in
      if \<not> fwritable x then Ok (s, Done (- 1), [])
      else case ftyp x of
        FD_PIPE \<Rightarrow>
          kbind (pipewrite (fpipe x) (ppt s) addr n killed (fmem s) (pipes s (fpipe x))) (\<lambda>(pi, r, woken).
            Ok (s\<lparr>pipes := (pipes s)(fpipe x := pi)\<rparr>, r, woken))
      | FD_DEVICE \<Rightarrow>
          (case (if dev_ok (fmajor x) then devwrite (sint (fmajor x)) else None) of
             None \<Rightarrow> Ok (s, Done (- 1), [])
           | Some wr \<Rightarrow> wr addr n s)
      | FD_INODE \<Rightarrow>
          kbind (filewrite_loop f addr n 0 s) (\<lambda>(s, i).
            Ok (s, Done (if i = n then n else - 1), []))
      | FD_NONE \<Rightarrow> Panic ''filewrite'')"

section \<open>Pipes as open files\<close>

definition close_opt :: "u64 \<Rightarrow> nat option \<Rightarrow> 'a file_st_scheme \<Rightarrow> 'a file_st_scheme kres" where
  "close_opt kend fo s = (case fo of None \<Rightarrow> Ok s | Some f \<Rightarrow> kbind (fileclose kend f s) (\<lambda>(s, woken). Ok s))"

definition pipealloc_bad :: "u64 \<Rightarrow> nat option \<Rightarrow> nat option \<Rightarrow> 'a file_st_scheme \<Rightarrow> ('a file_st_scheme \<times> (nat \<times> nat) option) kres" where
  "pipealloc_bad kend f0 f1 s =
     kbind (close_opt kend f0 s) (\<lambda>s. kbind (close_opt kend f1 s) (\<lambda>s. Ok (s, None)))"

text \<open>The data of a new pipe is what its page holds behind the lock, 24 bytes.\<close>

definition pipealloc :: "u64 \<Rightarrow> 'a file_st_scheme \<Rightarrow> ('a file_st_scheme \<times> (nat \<times> nat) option) kres" where
  "pipealloc kend s =
     (let (s, f0) = filealloc s;
          (s, f1) = (if f0 = None then (s, None) else filealloc s)
      in if f0 = None \<or> f1 = None then pipealloc_bad kend f0 f1 s
         else let (k, pa) = kalloc (fmem s);
                  s = s\<lparr>fmem := k\<rparr>
              in if pa = 0 then pipealloc_bad kend f0 f1 s
                 else let s = s\<lparr>pipes := (pipes s)(pa := new_pipe (mread (ram k) (pa + 24) PIPESIZE))\<rparr>;
                          s = upd_file (the f0) (\<lambda>x. x\<lparr>ftyp := FD_PIPE, freadable := True, fwritable := False, fpipe := pa\<rparr>) s;
                          s = upd_file (the f1) (\<lambda>x. x\<lparr>ftyp := FD_PIPE, freadable := False, fwritable := True, fpipe := pa\<rparr>) s
                      in Ok (s, Some (the f0, the f1)))"

end
