(* ===== verification/Proc.thy ===== *)
theory Proc
  imports File Spinlock
begin

text \<open>
  Processes, \<^verbatim>\<open>kernel/proc.c\<close>. A process is named by its index in the table; a null pointer is \<open>None\<close>. The process table
  is kept apart from the rest of the kernel, \<open>world\<close>: memory, file system, open files and pipes. The routines hold
  the lock of each process they read or change, and are given as the sections those locks make atomic: a section
  that ends in \<^verbatim>\<open>sched()\<close> leaves the process in its new state. \<open>p\<close> is \<^verbatim>\<open>myproc()\<close>; \<open>kend\<close>, \<open>trampoline\<close> and \<open>forkret_addr\<close> are
  symbols of the linker.
\<close>

section \<open>State\<close>

abbreviation NPROC :: nat where "NPROC \<equiv> 64"
abbreviation NCPU :: nat where "NCPU \<equiv> 8"

datatype procstate = UNUSED | SLEEPING | RUNNABLE | RUNNING | ZOMBIE

record kcontext =
  ctx_ra :: u64
  ctx_sp :: u64
  ctx_s :: "nat \<Rightarrow> u64"

text \<open>\<open>pname\<close> is the string the array \<^verbatim>\<open>name\<close> holds.\<close>

record proc =
  pstate :: procstate
  parent :: "nat option"
  pchan :: "chan option"
  killed :: bool
  xstate :: u32
  pid :: int
  kstack :: u64
  psz :: u64
  pagetable :: u64
  trapframe :: u64
  pcontext :: kcontext
  ofile :: "nat \<Rightarrow> nat option"
  pcwd :: "nat option"
  pname :: "u8 list"

record kst =
  procs :: "nat \<Rightarrow> proc"
  initproc :: "nat option"
  nextpid :: int
  first_ret :: bool
  ticks :: u32
  world :: file_st

definition upd_proc :: "nat \<Rightarrow> (proc \<Rightarrow> proc) \<Rightarrow> kst \<Rightarrow> kst" where
  "upd_proc i f s = s\<lparr>procs := (procs s)(i := f (procs s i))\<rparr>"

definition kmem_of :: "kst \<Rightarrow> kmem" where
  "kmem_of s = fmem (world s)"

definition set_kmem :: "kmem \<Rightarrow> kst \<Rightarrow> kst" where
  "set_kmem k s = s\<lparr>world := (world s)\<lparr>fmem := k\<rparr>\<rparr>"

text \<open>The rest of the kernel as process \<open>p\<close> runs it: \<^verbatim>\<open>myproc()\<close> gives its pid, page table and directory.\<close>

definition enter :: "nat \<Rightarrow> kst \<Rightarrow> file_st" where
  "enter p s = (world s)\<lparr>curpid := pid (procs s p), ppt := pagetable (procs s p),
     cwd := (case pcwd (procs s p) of Some c \<Rightarrow> c | None \<Rightarrow> NINODE)\<rparr>"

definition s32 :: "int \<Rightarrow> int" where
  "s32 i = sint (of_int i :: u32)"

lemma s32_id: "- (2 ^ 31) \<le> i \<Longrightarrow> i < 2 ^ 31 \<Longrightarrow> s32 i = i"
  unfolding s32_def by (subst signed_of_int) (simp add: signed_take_bit_int_eq_self)

section \<open>Fields of the trap frame\<close>

text \<open>The fields of \<^verbatim>\<open>struct trapframe\<close>, eight bytes each, in their order.\<close>

definition trapframe_fields :: "string list" where
  "trapframe_fields =
    [''kernel_satp'', ''kernel_sp'', ''kernel_trap'', ''epc'', ''kernel_hartid'',
     ''ra'', ''sp'', ''gp'', ''tp'', ''t0'', ''t1'', ''t2'', ''s0'', ''s1'',
     ''a0'', ''a1'', ''a2'', ''a3'', ''a4'', ''a5'', ''a6'', ''a7'',
     ''s2'', ''s3'', ''s4'', ''s5'', ''s6'', ''s7'', ''s8'', ''s9'', ''s10'', ''s11'',
     ''t3'', ''t4'', ''t5'', ''t6'']"

abbreviation TF_EPC :: u64 where "TF_EPC \<equiv> 24"
abbreviation TF_SP :: u64 where "TF_SP \<equiv> 48"
abbreviation TF_A0 :: u64 where "TF_A0 \<equiv> 112"
abbreviation TF_SIZE :: nat where "TF_SIZE \<equiv> 288"

lemma trapframe_offsets:
  "trapframe_fields ! unat (TF_EPC div 8) = ''epc''" "trapframe_fields ! unat (TF_SP div 8) = ''sp''"
  "trapframe_fields ! unat (TF_A0 div 8) = ''a0''" "8 * length trapframe_fields = TF_SIZE"
  by (simp_all add: trapframe_fields_def)

definition tf_get :: "nat \<Rightarrow> u64 \<Rightarrow> kst \<Rightarrow> u64" where
  "tf_get p off s = read64 (ram (kmem_of s)) (trapframe (procs s p) + off)"

definition tf_set :: "nat \<Rightarrow> u64 \<Rightarrow> u64 \<Rightarrow> kst \<Rightarrow> kst" where
  "tf_set p off v s = set_kmem ((kmem_of s)\<lparr>ram := write64 (ram (kmem_of s)) (trapframe (procs s p) + off) v\<rparr>) s"

section \<open>Creating and freeing processes\<close>

fun procinit_loop :: "u64 \<Rightarrow> nat \<Rightarrow> nat \<Rightarrow> kst \<Rightarrow> kst kres" where
  "procinit_loop kernel_pagetable 0 i s = Ok s"
| "procinit_loop kernel_pagetable (Suc n) i s =
     (case kalloc (kmem_of s) of (k, pa) \<Rightarrow>
        if pa = 0 then Panic ''kalloc''
        else kbind (kvmmap kernel_pagetable (KSTACK i) pa PGSIZE (PTE_R OR PTE_W) k) (\<lambda>k.
          procinit_loop kernel_pagetable n (Suc i) (upd_proc i (\<lambda>p. p\<lparr>kstack := KSTACK i\<rparr>) (set_kmem k s))))"

definition procinit :: "u64 \<Rightarrow> kst \<Rightarrow> kst kres" where
  "procinit kernel_pagetable s = procinit_loop kernel_pagetable NPROC 0 s"

definition allocpid :: "kst \<Rightarrow> kst \<times> int" where
  "allocpid s = (s\<lparr>nextpid := s32 (nextpid s + 1)\<rparr>, nextpid s)"

definition proc_pagetable :: "u64 \<Rightarrow> u64 \<Rightarrow> u64 \<Rightarrow> kmem \<Rightarrow> (kmem \<times> u64) kres" where
  "proc_pagetable kend trampoline tf k =
     (case uvmcreate k of (k, pt) \<Rightarrow>
        if pt = 0 then Ok (k, 0)
        else kbind (mappages pt TRAMPOLINE PGSIZE trampoline (PTE_R OR PTE_X) k) (\<lambda>(k, r).
          if r < 0 then kbind (uvmfree kend pt 0 k) (\<lambda>k. Ok (k, 0))
          else kbind (mappages pt TRAPFRAME PGSIZE tf (PTE_R OR PTE_W) k) (\<lambda>(k, r).
            if r < 0
            then kbind (uvmunmap kend pt TRAMPOLINE 1 False k) (\<lambda>k.
                 kbind (uvmfree kend pt 0 k) (\<lambda>k. Ok (k, 0)))
            else Ok (k, pt))))"

definition proc_freepagetable :: "u64 \<Rightarrow> u64 \<Rightarrow> u64 \<Rightarrow> kmem \<Rightarrow> kmem kres" where
  "proc_freepagetable kend pt sz k =
     kbind (uvmunmap kend pt TRAMPOLINE 1 False k) (\<lambda>k.
     kbind (uvmunmap kend pt TRAPFRAME 1 False k) (\<lambda>k.
       uvmfree kend pt sz k))"

text \<open>The fields \<^verbatim>\<open>freeproc\<close> clears, and the memory it frees.\<close>

definition clear_proc :: "proc \<Rightarrow> proc" where
  "clear_proc p = p\<lparr>trapframe := 0, pagetable := 0, psz := 0, pid := 0, parent := None, pname := [], pchan := None,
     killed := False, xstate := 0, pstate := UNUSED\<rparr>"

definition free_memory :: "u64 \<Rightarrow> proc \<Rightarrow> kmem \<Rightarrow> kmem kres" where
  "free_memory kend p k =
     kbind (if trapframe p \<noteq> 0 then kfree kend (trapframe p) k else Ok k) (\<lambda>k.
       if pagetable p \<noteq> 0 then proc_freepagetable kend (pagetable p) (psz p) k else Ok k)"

definition freeproc :: "u64 \<Rightarrow> nat \<Rightarrow> kst \<Rightarrow> kst kres" where
  "freeproc kend i s =
     kbind (free_memory kend (procs s i) (kmem_of s)) (\<lambda>k.
       Ok (upd_proc i clear_proc (set_kmem k s)))"

definition allocproc :: "u64 \<Rightarrow> u64 \<Rightarrow> u64 \<Rightarrow> kst \<Rightarrow> (kst \<times> nat option) kres" where
  "allocproc kend trampoline forkret_addr s =
     (case scan NPROC 0 (\<lambda>i. pstate (procs s i) = UNUSED) of
        None \<Rightarrow> Ok (s, None)
      | Some i \<Rightarrow>
          (case allocpid s of (s, n) \<Rightarrow>
           case kalloc (kmem_of s) of (k, tf) \<Rightarrow>
             let s = upd_proc i (\<lambda>p. p\<lparr>pid := n, trapframe := tf\<rparr>) (set_kmem k s) in
             if tf = 0 then Ok (s, None)
             else kbind (proc_pagetable kend trampoline tf (kmem_of s)) (\<lambda>(k, pt).
               let s = upd_proc i (\<lambda>p. p\<lparr>pagetable := pt\<rparr>) (set_kmem k s) in
               if pt = 0 then kbind (freeproc kend i s) (\<lambda>s. Ok (s, None))
               else Ok (upd_proc i (\<lambda>p. p\<lparr>pcontext := \<lparr>ctx_ra = forkret_addr, ctx_sp = kstack p + PGSIZE, ctx_s = (\<lambda>_. 0)\<rparr>\<rparr>) s, Some i))))"

definition initcode :: "u8 list" where
  "initcode =
    [0x17, 0x05, 0x00, 0x00, 0x13, 0x05, 0x45, 0x02,
     0x97, 0x05, 0x00, 0x00, 0x93, 0x85, 0x35, 0x02,
     0x93, 0x08, 0x70, 0x00, 0x73, 0x00, 0x00, 0x00,
     0x93, 0x08, 0x20, 0x00, 0x73, 0x00, 0x00, 0x00,
     0xef, 0xf0, 0x9f, 0xff, 0x2f, 0x69, 0x6e, 0x69,
     0x74, 0x00, 0x00, 0x24, 0x00, 0x00, 0x00, 0x00,
     0x00, 0x00, 0x00, 0x00]"

text \<open>\<open>name0\<close> is what the uninitialised array of \<^verbatim>\<open>namei\<close> holds. A null process is a fault.\<close>

definition userinit :: "u64 \<Rightarrow> u64 \<Rightarrow> u64 \<Rightarrow> u8 list \<Rightarrow> kst \<Rightarrow> kst kres" where
  "userinit kend trampoline forkret_addr name0 s =
     kbind (allocproc kend trampoline forkret_addr s) (\<lambda>(s, r).
       case r of
         None \<Rightarrow> Panic ''kerneltrap''
       | Some p \<Rightarrow>
           let s = s\<lparr>initproc := Some p\<rparr> in
           kbind (uvminit (pagetable (procs s p)) initcode (kmem_of s)) (\<lambda>k.
             let s = upd_proc p (\<lambda>x. x\<lparr>psz := PGSIZE\<rparr>) (set_kmem k s);
                 s = tf_set p TF_SP PGSIZE (tf_set p TF_EPC 0 s);
                 s = upd_proc p (\<lambda>x. x\<lparr>pname := [105, 110, 105, 116, 99, 111, 100, 101]\<rparr>) s
             in kbind (namei name0 [slash] (enter p s)) (\<lambda>(w, ip).
                  Ok (upd_proc p (\<lambda>x. x\<lparr>pcwd := ip, pstate := RUNNABLE\<rparr>) (s\<lparr>world := w\<rparr>)))))"

text \<open>\<^verbatim>\<open>growproc\<close> computes with a 32-bit \<^verbatim>\<open>sz\<close>.\<close>

definition growproc :: "u64 \<Rightarrow> nat \<Rightarrow> int \<Rightarrow> kst \<Rightarrow> (kst \<times> int) kres" where
  "growproc kend p n s =
     (let sz = ucast (psz (procs s p)) :: u32; pt = pagetable (procs s p) in
      if n > 0
      then kbind (uvmalloc kend pt (ucast sz) (ucast (sz + of_int n)) (kmem_of s)) (\<lambda>(k, r).
        let sz = ucast r :: u32 in
        if sz = 0 then Ok (set_kmem k s, - 1)
        else Ok (upd_proc p (\<lambda>x. x\<lparr>psz := ucast sz\<rparr>) (set_kmem k s), 0))
      else if n < 0
      then kbind (uvmdealloc kend pt (ucast sz) (ucast (sz + of_int n)) (kmem_of s)) (\<lambda>(k, r).
        Ok (upd_proc p (\<lambda>x. x\<lparr>psz := ucast (ucast r :: u32)\<rparr>) (set_kmem k s), 0))
      else Ok (upd_proc p (\<lambda>x. x\<lparr>psz := ucast sz\<rparr>) s, 0))"

text \<open>The loop of \<^verbatim>\<open>fork\<close> over the open files.\<close>

fun fork_files :: "nat \<Rightarrow> nat \<Rightarrow> nat \<Rightarrow> nat \<Rightarrow> kst \<Rightarrow> kst kres" where
  "fork_files p np 0 i s = Ok s"
| "fork_files p np (Suc n) i s =
     (case ofile (procs s p) i of
        None \<Rightarrow> fork_files p np n (Suc i) s
      | Some f \<Rightarrow>
          kbind (filedup f (world s)) (\<lambda>w.
            fork_files p np n (Suc i) (upd_proc np (\<lambda>x. x\<lparr>ofile := (ofile x)(i \<mapsto> f)\<rparr>) (s\<lparr>world := w\<rparr>))))"

definition fork :: "u64 \<Rightarrow> u64 \<Rightarrow> u64 \<Rightarrow> nat \<Rightarrow> kst \<Rightarrow> (kst \<times> int) kres" where
  "fork kend trampoline forkret_addr p s =
     kbind (allocproc kend trampoline forkret_addr s) (\<lambda>(s, r).
       case r of
         None \<Rightarrow> Ok (s, - 1)
       | Some np \<Rightarrow>
           kbind (uvmcopy kend (pagetable (procs s p)) (pagetable (procs s np)) (psz (procs s p)) (kmem_of s)) (\<lambda>(k, r).
             let s = set_kmem k s in
             if r < 0 then kbind (freeproc kend np s) (\<lambda>s. Ok (s, - 1))
             else
               let s = upd_proc np (\<lambda>x. x\<lparr>psz := psz (procs s p), parent := Some p\<rparr>) s;
                   m = ram (kmem_of s);
                   s = set_kmem ((kmem_of s)\<lparr>ram := mwrite m (trapframe (procs s np)) (mread m (trapframe (procs s p)) TF_SIZE)\<rparr>) s;
                   s = tf_set np TF_A0 0 s
               in kbind (fork_files p np NOFILE 0 s) (\<lambda>s.
                    let cw = (case pcwd (procs s p) of Some c \<Rightarrow> c | None \<Rightarrow> NINODE);
                        s = s\<lparr>world := idup cw (world s)\<rparr>;
                        s = upd_proc np (\<lambda>x. x\<lparr>pcwd := pcwd (procs s p), pname := take 15 (pname (procs s p))\<rparr>) s
                    in Ok (upd_proc np (\<lambda>x. x\<lparr>pstate := RUNNABLE\<rparr>) s, pid (procs s np)))))"

section \<open>Sleep and wakeup\<close>

text \<open>\<^verbatim>\<open>sleep\<close> up to the switch to the scheduler, and what it does after it.\<close>

definition go_to_sleep :: "nat \<Rightarrow> chan \<Rightarrow> kst \<Rightarrow> kst" where
  "go_to_sleep p c s = upd_proc p (\<lambda>x. x\<lparr>pchan := Some c, pstate := SLEEPING\<rparr>) s"

definition after_sleep :: "nat \<Rightarrow> kst \<Rightarrow> kst" where
  "after_sleep p s = upd_proc p (\<lambda>x. x\<lparr>pchan := None\<rparr>) s"

definition wake :: "chan \<Rightarrow> proc \<Rightarrow> proc" where
  "wake c p = (if pstate p = SLEEPING \<and> pchan p = Some c then p\<lparr>pstate := RUNNABLE\<rparr> else p)"

primrec wakeup_loop :: "chan \<Rightarrow> nat \<Rightarrow> nat \<Rightarrow> kst \<Rightarrow> kst" where
  "wakeup_loop c 0 i s = s"
| "wakeup_loop c (Suc n) i s = wakeup_loop c n (Suc i) (upd_proc i (wake c) s)"

definition wakeup :: "chan \<Rightarrow> kst \<Rightarrow> kst" where
  "wakeup c s = wakeup_loop c NPROC 0 s"

definition wakeups :: "chan list \<Rightarrow> kst \<Rightarrow> kst" where
  "wakeups cs s = fold wakeup cs s"

definition wakeup1 :: "nat \<Rightarrow> kst \<Rightarrow> kst" where
  "wakeup1 q s = upd_proc q (\<lambda>x. if pchan x = Some (ProcChan q) \<and> pstate x = SLEEPING then x\<lparr>pstate := RUNNABLE\<rparr> else x) s"

section \<open>Exit and wait\<close>

primrec reparent_loop :: "nat \<Rightarrow> nat \<Rightarrow> nat \<Rightarrow> kst \<Rightarrow> kst" where
  "reparent_loop p 0 i s = s"
| "reparent_loop p (Suc n) i s =
     reparent_loop p n (Suc i)
       (if parent (procs s i) = Some p then upd_proc i (\<lambda>x. x\<lparr>parent := initproc s\<rparr>) s else s)"

definition reparent :: "nat \<Rightarrow> kst \<Rightarrow> kst" where
  "reparent p s = reparent_loop p NPROC 0 s"

fun exit_files :: "u64 \<Rightarrow> nat \<Rightarrow> nat \<Rightarrow> nat \<Rightarrow> kst \<Rightarrow> kst kres" where
  "exit_files kend p 0 fd s = Ok s"
| "exit_files kend p (Suc n) fd s =
     (case ofile (procs s p) fd of
        None \<Rightarrow> exit_files kend p n (Suc fd) s
      | Some f \<Rightarrow>
          kbind (fileclose kend f (enter p s)) (\<lambda>(w, woken).
            exit_files kend p n (Suc fd)
              (upd_proc p (\<lambda>x. x\<lparr>ofile := (ofile x)(fd := None)\<rparr>) (wakeups woken (s\<lparr>world := w\<rparr>)))))"

text \<open>
  \<^verbatim>\<open>exit\<close> in its three parts: up to the wakeup of \<^verbatim>\<open>initproc\<close>, the read of the parent, and the part under the locks of
  the parent and of the process.
\<close>

definition exit_release :: "u64 \<Rightarrow> nat \<Rightarrow> kst \<Rightarrow> kst kres" where
  "exit_release kend p s =
     (if initproc s = Some p then Panic ''init exiting''
      else kbind (exit_files kend p NOFILE 0 s) (\<lambda>s.
           let w = enter p s in
           kbind (begin_op w) (\<lambda>w.
           kbind (iput (cwd w) w) (\<lambda>w.
           kbind (end_op w) (\<lambda>w.
             let s = upd_proc p (\<lambda>x. x\<lparr>pcwd := None\<rparr>) (s\<lparr>world := w\<rparr>) in
             case initproc s of None \<Rightarrow> Panic ''kerneltrap'' | Some q \<Rightarrow> Ok (wakeup1 q s))))))"

definition exit_zombie :: "nat \<Rightarrow> nat \<Rightarrow> u32 \<Rightarrow> kst \<Rightarrow> kst" where
  "exit_zombie original_parent p status s =
     upd_proc p (\<lambda>x. x\<lparr>xstate := status, pstate := ZOMBIE\<rparr>) (wakeup1 original_parent (reparent p s))"

definition exit :: "u64 \<Rightarrow> nat \<Rightarrow> u32 \<Rightarrow> kst \<Rightarrow> kst kres" where
  "exit kend p status s =
     kbind (exit_release kend p s) (\<lambda>s.
       case parent (procs s p) of
         None \<Rightarrow> Panic ''kerneltrap''
       | Some original_parent \<Rightarrow> Ok (exit_zombie original_parent p status s))"

text \<open>The scan of \<^verbatim>\<open>wait\<close>: the first zombie child, or whether there are children.\<close>

primrec wait_scan :: "nat \<Rightarrow> nat \<Rightarrow> bool \<Rightarrow> nat \<Rightarrow> (nat \<Rightarrow> proc) \<Rightarrow> nat + bool" where
  "wait_scan 0 np havekids p tab = Inr havekids"
| "wait_scan (Suc n) np havekids p tab =
     (if parent (tab np) = Some p
      then if pstate (tab np) = ZOMBIE then Inl np else wait_scan n (Suc np) True p tab
      else wait_scan n (Suc np) havekids p tab)"

definition wait :: "u64 \<Rightarrow> nat \<Rightarrow> u64 \<Rightarrow> kst \<Rightarrow> (kst \<times> progress) kres" where
  "wait kend p addr s =
     (case wait_scan NPROC 0 False p (procs s) of
        Inl np \<Rightarrow>
          (let n = pid (procs s np) in
           kbind (if addr \<noteq> 0 then copyout (pagetable (procs s p)) addr (le_bytes 4 (xstate (procs s np))) (kmem_of s)
                  else Ok (kmem_of s, 0)) (\<lambda>(k, r).
             if r < 0 then Ok (set_kmem k s, Done (- 1))
             else kbind (freeproc kend np (set_kmem k s)) (\<lambda>s. Ok (s, Done n))))
      | Inr havekids \<Rightarrow>
          if \<not> havekids \<or> killed (procs s p) then Ok (s, Done (- 1))
          else Ok (go_to_sleep p (ProcChan p) s, Blocked 0 (ProcChan p)))"

section \<open>Scheduling\<close>

text \<open>What the scheduler does with process \<open>p\<close>, and the tests of \<^verbatim>\<open>sched\<close> on the way back: \<open>c\<close> is the CPU.\<close>

definition schedule :: "nat \<Rightarrow> kst \<Rightarrow> kst option" where
  "schedule p s = (if pstate (procs s p) = RUNNABLE then Some (upd_proc p (\<lambda>x. x\<lparr>pstate := RUNNING\<rparr>) s) else None)"

definition sched :: "bool \<Rightarrow> cpu \<Rightarrow> procstate \<Rightarrow> unit kres" where
  "sched holding_lock c st =
     (if \<not> holding_lock then Panic ''sched p->lock''
      else if noff c \<noteq> 1 then Panic ''sched locks''
      else if st = RUNNING then Panic ''sched running''
      else if intr c then Panic ''sched interruptible''
      else Ok ())"

definition yield :: "nat \<Rightarrow> kst \<Rightarrow> kst" where
  "yield p s = upd_proc p (\<lambda>x. x\<lparr>pstate := RUNNABLE\<rparr>) s"

definition forkret :: "nat \<Rightarrow> kst \<Rightarrow> kst kres" where
  "forkret p s =
     (if first_ret s
      then kbind (fsinit ROOTDEV (enter p s)) (\<lambda>w. Ok (s\<lparr>first_ret := False, world := w\<rparr>))
      else Ok s)"

definition kill :: "int \<Rightarrow> kst \<Rightarrow> kst \<times> int" where
  "kill n s =
     (case scan NPROC 0 (\<lambda>i. pid (procs s i) = n) of
        Some i \<Rightarrow> (upd_proc i (\<lambda>x. x\<lparr>killed := True, pstate := (if pstate x = SLEEPING then RUNNABLE else pstate x)\<rparr>) s, 0)
      | None \<Rightarrow> (s, - 1))"

text \<open>The lines \<^verbatim>\<open>procdump\<close> prints: pid, state and name of each process in use.\<close>

definition state_name :: "procstate \<Rightarrow> string" where
  "state_name st = (case st of UNUSED \<Rightarrow> ''unused'' | SLEEPING \<Rightarrow> ''sleep '' | RUNNABLE \<Rightarrow> ''runble'' | RUNNING \<Rightarrow> ''run   '' | ZOMBIE \<Rightarrow> ''zombie'')"

definition procdump :: "kst \<Rightarrow> (int \<times> string \<times> u8 list) list" where
  "procdump s = map (\<lambda>i. (pid (procs s i), state_name (pstate (procs s i)), pname (procs s i)))
     (filter (\<lambda>i. pstate (procs s i) \<noteq> UNUSED) [0..<NPROC])"

end
