(* ===== verification/Proc_Sched.thy ===== *)
theory Proc_Sched
  imports Proc
begin

text \<open>
  All processes on all CPUs: the steps are the sections of \<^verbatim>\<open>kernel/proc.c\<close> that run under the process locks, in any
  interleaving. \<^verbatim>\<open>exit\<close> takes three steps, because it holds no lock between waking init, reading its parent, and the
  part under the parent's lock. The invariant is that of the process table: who runs where, the pids, the tree of
  parents, and that no process but init sleeps in \<^verbatim>\<open>wait\<close> with a child that has exited. A call of \<^verbatim>\<open>fork\<close>, \<^verbatim>\<open>wait\<close>, \<^verbatim>\<open>wakeup\<close>
  or \<^verbatim>\<open>kill\<close> is one step, though the source takes the locks of the processes one after the other; a \<^verbatim>\<open>fork\<close> is a step as long
  as the counter of pids, an \<^verbatim>\<open>int\<close> in the source, is below its largest value.
\<close>

section \<open>Steps\<close>

datatype stage = Norm | Exiting | ParentRead nat

record cfg =
  ks :: kst
  on_cpu :: "nat \<Rightarrow> nat option"
  stages :: "nat \<Rightarrow> stage"

text \<open>
  \<open>private_step\<close> is any part of the kernel that leaves the states, parents, channels and pids alone: it may change the
  rest of the kernel and the private fields of the process that runs, and mark that process killed. A process that
  is resumed by the scheduler first clears its channel, still under its lock.
\<close>

inductive pstep :: "u64 \<Rightarrow> u64 \<Rightarrow> u64 \<Rightarrow> cfg \<Rightarrow> cfg \<Rightarrow> bool" for kend tr fr where
  run_step: "\<lbrakk>c < NCPU; on_cpu g c = None; p < NPROC; schedule p (ks g) = Some s'\<rbrakk> \<Longrightarrow>
    pstep kend tr fr g (g\<lparr>ks := after_sleep p s', on_cpu := (on_cpu g)(c \<mapsto> p)\<rparr>)"
| yield_step: "on_cpu g c = Some p \<Longrightarrow>
    pstep kend tr fr g (g\<lparr>ks := yield p (ks g), on_cpu := (on_cpu g)(c := None)\<rparr>)"
| sleep_step: "\<lbrakk>on_cpu g c = Some p; stages g p = Norm; \<forall>q. ch \<noteq> ProcChan q\<rbrakk> \<Longrightarrow>
    pstep kend tr fr g (g\<lparr>ks := go_to_sleep p ch (ks g), on_cpu := (on_cpu g)(c := None)\<rparr>)"
| wakeup_step: "pstep kend tr fr g (g\<lparr>ks := wakeup ch (ks g)\<rparr>)"
| kill_step: "\<lbrakk>on_cpu g c = Some p; kill n (ks g) = (s', r)\<rbrakk> \<Longrightarrow> pstep kend tr fr g (g\<lparr>ks := s'\<rparr>)"
| fork_step: "\<lbrakk>on_cpu g c = Some p; stages g p = Norm; nextpid (ks g) < 2 ^ 31 - 1; fork kend tr fr p (ks g) = Ok (s', r)\<rbrakk> \<Longrightarrow>
    pstep kend tr fr g (g\<lparr>ks := s'\<rparr>)"
| wait_step: "\<lbrakk>on_cpu g c = Some p; stages g p = Norm; wait kend p addr (ks g) = Ok (s', Done r)\<rbrakk> \<Longrightarrow>
    pstep kend tr fr g (g\<lparr>ks := s'\<rparr>)"
| wait_sleep_step: "\<lbrakk>on_cpu g c = Some p; stages g p = Norm; wait kend p addr (ks g) = Ok (s', Blocked i ch)\<rbrakk> \<Longrightarrow>
    pstep kend tr fr g (g\<lparr>ks := s', on_cpu := (on_cpu g)(c := None)\<rparr>)"
| exit_release_step: "\<lbrakk>on_cpu g c = Some p; stages g p = Norm; exit_release kend p (ks g) = Ok s'\<rbrakk> \<Longrightarrow>
    pstep kend tr fr g (g\<lparr>ks := s', stages := (stages g)(p := Exiting)\<rparr>)"
| exit_parent_step: "\<lbrakk>on_cpu g c = Some p; stages g p = Exiting; parent (procs (ks g) p) = Some q\<rbrakk> \<Longrightarrow>
    pstep kend tr fr g (g\<lparr>stages := (stages g)(p := ParentRead q)\<rparr>)"
| exit_zombie_step: "\<lbrakk>on_cpu g c = Some p; stages g p = ParentRead q\<rbrakk> \<Longrightarrow>
    pstep kend tr fr g (g\<lparr>ks := exit_zombie q p status (ks g), on_cpu := (on_cpu g)(c := None), stages := (stages g)(p := Norm)\<rparr>)"
| private_step: "\<lbrakk>on_cpu g c = Some p; procs s' = (procs (ks g))(p := x); pstate x = pstate (procs (ks g) p);
      parent x = parent (procs (ks g) p); pchan x = pchan (procs (ks g) p); pid x = pid (procs (ks g) p);
      initproc s' = initproc (ks g); nextpid s' = nextpid (ks g)\<rbrakk> \<Longrightarrow>
    pstep kend tr fr g (g\<lparr>ks := s'\<rparr>)"

section \<open>The invariant\<close>

definition init_ok :: "kst \<Rightarrow> bool" where
  "init_ok s \<longleftrightarrow> (\<exists>i < NPROC. initproc s = Some i \<and> pstate (procs s i) \<noteq> UNUSED \<and> pstate (procs s i) \<noteq> ZOMBIE \<and> parent (procs s i) = None)"

definition running_ok :: "(nat \<Rightarrow> nat option) \<Rightarrow> kst \<Rightarrow> bool" where
  "running_ok cpu s \<longleftrightarrow> (\<forall>c p. cpu c = Some p \<longrightarrow> p < NPROC \<and> (\<forall>d. cpu d = Some p \<longrightarrow> d = c)) \<and>
     (\<forall>p < NPROC. pstate (procs s p) = RUNNING \<longleftrightarrow> (\<exists>c. cpu c = Some p))"

definition pid_ok :: "kst \<Rightarrow> bool" where
  "pid_ok s \<longleftrightarrow> (0 < nextpid s \<and> nextpid s < 2 ^ 31) \<and> (\<forall>p < NPROC. pstate (procs s p) \<noteq> UNUSED \<longrightarrow> 0 < pid (procs s p) \<and> pid (procs s p) < nextpid s) \<and>
     (\<forall>p < NPROC. \<forall>q < NPROC. pstate (procs s p) \<noteq> UNUSED \<and> pstate (procs s q) \<noteq> UNUSED \<and> pid (procs s p) = pid (procs s q) \<longrightarrow> p = q)"

definition tree_ok :: "kst \<Rightarrow> bool" where
  "tree_ok s \<longleftrightarrow> (\<forall>p < NPROC. \<forall>q. parent (procs s p) = Some q \<longrightarrow>
       q < NPROC \<and> q \<noteq> p \<and> pstate (procs s q) \<noteq> UNUSED \<and> pstate (procs s q) \<noteq> ZOMBIE \<and> pstate (procs s p) \<noteq> UNUSED) \<and>
     (\<forall>p < NPROC. pstate (procs s p) \<noteq> UNUSED \<and> initproc s \<noteq> Some p \<longrightarrow> parent (procs s p) \<noteq> None)"

definition stage_ok :: "(nat \<Rightarrow> stage) \<Rightarrow> kst \<Rightarrow> bool" where
  "stage_ok st s \<longleftrightarrow> (\<forall>p < NPROC. st p \<noteq> Norm \<longrightarrow> initproc s \<noteq> Some p \<and> pstate (procs s p) \<in> {RUNNING, RUNNABLE}) \<and>
     (\<forall>p < NPROC. \<forall>q. st p = ParentRead q \<longrightarrow> parent (procs s p) = Some q \<or> parent (procs s p) = initproc s)"

definition in_wait :: "kst \<Rightarrow> nat \<Rightarrow> bool" where
  "in_wait s p \<longleftrightarrow> pstate (procs s p) = SLEEPING \<and> pchan (procs s p) = Some (ProcChan p)"

definition wait_ok :: "kst \<Rightarrow> bool" where
  "wait_ok s \<longleftrightarrow> (\<forall>p < NPROC. in_wait s p \<longrightarrow> \<not> killed (procs s p) \<and>
     (initproc s \<noteq> Some p \<longrightarrow> (\<forall>k < NPROC. parent (procs s k) = Some p \<longrightarrow> pstate (procs s k) \<noteq> ZOMBIE)))"

definition cfg_ok :: "cfg \<Rightarrow> bool" where
  "cfg_ok g \<longleftrightarrow> init_ok (ks g) \<and> running_ok (on_cpu g) (ks g) \<and> pid_ok (ks g) \<and> tree_ok (ks g) \<and>
     stage_ok (stages g) (ks g) \<and> wait_ok (ks g)"

lemmas ok_defs = init_ok_def running_ok_def pid_ok_def tree_ok_def stage_ok_def wait_ok_def in_wait_def

section \<open>Sections that only wake processes\<close>

definition quiet :: "kst \<Rightarrow> kst \<Rightarrow> bool" where
  "quiet s s' \<longleftrightarrow> initproc s' = initproc s \<and> nextpid s' = nextpid s \<and>
     (\<forall>i. parent (procs s' i) = parent (procs s i) \<and> pchan (procs s' i) = pchan (procs s i) \<and> pid (procs s' i) = pid (procs s i) \<and>
       (pstate (procs s' i) = pstate (procs s i) \<or> pstate (procs s i) = SLEEPING \<and> pstate (procs s' i) = RUNNABLE) \<and>
       (killed (procs s' i) = killed (procs s i) \<or> pstate (procs s' i) \<noteq> SLEEPING))"

lemma quietI:
  assumes "initproc s' = initproc s" "nextpid s' = nextpid s"
    "\<And>i. parent (procs s' i) = parent (procs s i) \<and> pchan (procs s' i) = pchan (procs s i) \<and> pid (procs s' i) = pid (procs s i) \<and>
       (pstate (procs s' i) = pstate (procs s i) \<or> pstate (procs s i) = SLEEPING \<and> pstate (procs s' i) = RUNNABLE) \<and>
       (killed (procs s' i) = killed (procs s i) \<or> pstate (procs s' i) \<noteq> SLEEPING)"
  shows "quiet s s'"
  unfolding quiet_def using assms by blast

lemma quietD:
  assumes "quiet s s'"
  shows "initproc s' = initproc s" "nextpid s' = nextpid s" "parent (procs s' i) = parent (procs s i)" "pchan (procs s' i) = pchan (procs s i)"
    "pid (procs s' i) = pid (procs s i)"
    "pstate (procs s' i) = pstate (procs s i) \<or> pstate (procs s i) = SLEEPING \<and> pstate (procs s' i) = RUNNABLE"
    "killed (procs s' i) = killed (procs s i) \<or> pstate (procs s' i) \<noteq> SLEEPING"
  using assms unfolding quiet_def by blast+

lemma quiet_refl: "quiet s s"
  by (simp add: quiet_def)

lemma quiet_trans: "quiet s t \<Longrightarrow> quiet t u \<Longrightarrow> quiet s u"
proof (rule quietI)
  fix i
  assume a: "quiet s t" and b: "quiet t u"
  show "parent (procs u i) = parent (procs s i) \<and> pchan (procs u i) = pchan (procs s i) \<and> pid (procs u i) = pid (procs s i) \<and>
       (pstate (procs u i) = pstate (procs s i) \<or> pstate (procs s i) = SLEEPING \<and> pstate (procs u i) = RUNNABLE) \<and>
       (killed (procs u i) = killed (procs s i) \<or> pstate (procs u i) \<noteq> SLEEPING)"
    using quietD(3-7) [OF a, of i] quietD(3-7) [OF b, of i] by auto
qed (simp_all add: quiet_def)

lemma quiet_upd:
  assumes "\<And>x. parent (f x) = parent x \<and> pchan (f x) = pchan x \<and> pid (f x) = pid x \<and>
    (pstate (f x) = pstate x \<or> pstate x = SLEEPING \<and> pstate (f x) = RUNNABLE) \<and> (killed (f x) = killed x \<or> pstate (f x) \<noteq> SLEEPING)"
  shows "quiet s (upd_proc p f s)"
  by (rule quietI) (use assms in \<open>auto simp: upd_proc_def\<close>)

lemma quiet_world: "quiet s t \<Longrightarrow> quiet s (t\<lparr>world := w\<rparr>)"
  by (simp add: quiet_def)

lemma quiet_wakeup: "quiet s (wakeup ch s)"
proof -
  have "quiet s (wakeup_loop ch n i s)" for n i s
  proof (induction n arbitrary: i s)
    case (Suc n)
    have "quiet s (upd_proc i (wake ch) s)" by (rule quiet_upd) (auto simp: wake_def)
    then show ?case using quiet_trans Suc.IH by fastforce
  qed (simp add: quiet_refl)
  then show ?thesis by (simp add: wakeup_def)
qed

lemma quiet_wakeups: "quiet s (wakeups cs s)"
  unfolding wakeups_def
proof (induction cs arbitrary: s)
  case (Cons c cs)
  then show ?case using quiet_trans [OF quiet_wakeup] by fastforce
qed (simp add: quiet_refl)

lemma quiet_wakeup1: "quiet s (wakeup1 q s)"
  unfolding wakeup1_def by (rule quiet_upd) auto

lemma quiet_kill: "kill n s = (s', r) \<Longrightarrow> quiet s s'"
  unfolding kill_def by (auto split: option.splits if_splits intro!: quiet_upd simp: quiet_refl)

lemma quiet_exit_files: "exit_files kend p n fd s = Ok s' \<Longrightarrow> quiet s s'"
proof (induction kend p n fd s rule: exit_files.induct)
  case (2 kend p n fd s)
  show ?case
  proof (cases "ofile (procs s p) fd")
    case None
    then show ?thesis using 2 by simp
  next
    case (Some f)
    obtain w woken where w: "fileclose kend f (enter p s) = Ok (w, woken)"
      "exit_files kend p n (Suc fd) (upd_proc p (\<lambda>x. x\<lparr>ofile := (ofile x)(fd := None)\<rparr>) (wakeups woken (s\<lparr>world := w\<rparr>))) = Ok s'"
      using 2(3) Some by (auto simp: kres_simps)
    let ?s = "upd_proc p (\<lambda>x. x\<lparr>ofile := (ofile x)(fd := None)\<rparr>) (wakeups woken (s\<lparr>world := w\<rparr>))"
    have "quiet s (wakeups woken (s\<lparr>world := w\<rparr>))"
      by (rule quiet_trans [OF quiet_world [OF quiet_refl] quiet_wakeups])
    moreover have "quiet (wakeups woken (s\<lparr>world := w\<rparr>)) ?s" by (rule quiet_upd) simp
    ultimately have "quiet s ?s" by (rule quiet_trans)
    moreover have "quiet ?s s'" using 2(2) Some w by auto
    ultimately show ?thesis by (rule quiet_trans)
  qed
qed (simp add: quiet_refl)

lemma quiet_exit_release:
  assumes "exit_release kend p s = Ok s'"
  shows "quiet s s' \<and> initproc s \<noteq> Some p"
proof -
  obtain t w q where t: "initproc s \<noteq> Some p" "exit_files kend p NOFILE 0 s = Ok t"
    "s' = wakeup1 q (upd_proc p (\<lambda>x. x\<lparr>pcwd := None\<rparr>) (t\<lparr>world := w\<rparr>))"
    using assms unfolding exit_release_def by (auto simp: kres_simps Let_def split: option.splits if_splits)
  have "quiet s (t\<lparr>world := w\<rparr>)" by (rule quiet_world [OF quiet_exit_files [OF t(2)]])
  moreover have "quiet (t\<lparr>world := w\<rparr>) (upd_proc p (\<lambda>x. x\<lparr>pcwd := None\<rparr>) (t\<lparr>world := w\<rparr>))" by (rule quiet_upd) simp
  ultimately show ?thesis using t(1,3) quiet_wakeup1 quiet_trans by blast
qed

lemma quiet_ok:
  assumes "quiet s s'"
  shows "init_ok s \<Longrightarrow> init_ok s'" "running_ok cpu s \<Longrightarrow> running_ok cpu s'" "pid_ok s \<Longrightarrow> pid_ok s'" "tree_ok s \<Longrightarrow> tree_ok s'"
    "stage_ok st s \<Longrightarrow> stage_ok st s'" "wait_ok s \<Longrightarrow> wait_ok s'"
proof -
  note q = quietD [OF assms]
  have st: "pstate (procs s' i) = UNUSED \<longleftrightarrow> pstate (procs s i) = UNUSED" "pstate (procs s' i) = ZOMBIE \<longleftrightarrow> pstate (procs s i) = ZOMBIE"
    "pstate (procs s' i) = RUNNING \<longleftrightarrow> pstate (procs s i) = RUNNING" "pstate (procs s' i) = SLEEPING \<Longrightarrow> pstate (procs s i) = SLEEPING"
    "pstate (procs s i) = RUNNABLE \<Longrightarrow> pstate (procs s' i) = RUNNABLE" for i
    using q(6) [of i] by auto
  show "init_ok s \<Longrightarrow> init_ok s'" unfolding init_ok_def q(1,3) st(1,2) .
  show "running_ok cpu s \<Longrightarrow> running_ok cpu s'" unfolding running_ok_def st(3) .
  show "pid_ok s \<Longrightarrow> pid_ok s'" unfolding pid_ok_def q(2,5) st(1) .
  show "tree_ok s \<Longrightarrow> tree_ok s'" unfolding tree_ok_def q(1,3) st(1,2) .
  show "stage_ok st s \<Longrightarrow> stage_ok st s'" 
    unfolding stage_ok_def q(1) q(3) using st(3,5) by (metis insert_iff empty_iff)
  show "wait_ok s'" if w: "wait_ok s"
    unfolding wait_ok_def q(1) q(3) st(2)
  proof (intro allI impI)
    fix p assume p: "p < NPROC" "in_wait s' p"
    then have "in_wait s p" using st(4) [of p] by (simp add: in_wait_def q(4))
    moreover have "killed (procs s' p) = killed (procs s p)" using p(2) q(7) [of p] by (simp add: in_wait_def)
    ultimately show "\<not> killed (procs s' p) \<and> (initproc s \<noteq> Some p \<longrightarrow> (\<forall>k<NPROC. parent (procs s k) = Some p \<longrightarrow> pstate (procs s k) \<noteq> ZOMBIE))"
      using w p(1) unfolding wait_ok_def by simp
  qed
qed

section \<open>Changes of one process\<close>

definition row_at :: "kst \<Rightarrow> nat \<Rightarrow> procstate \<times> nat option \<times> chan option \<times> int \<times> bool" where
  "row_at s i = (pstate (procs s i), parent (procs s i), pchan (procs s i), pid (procs s i), killed (procs s i))"

lemma row_at_eqD:
  assumes "row_at s' i = row_at s i"
  shows "pstate (procs s' i) = pstate (procs s i)" "parent (procs s' i) = parent (procs s i)" "pchan (procs s' i) = pchan (procs s i)"
    "pid (procs s' i) = pid (procs s i)" "killed (procs s' i) = killed (procs s i)"
  using assms by (simp_all add: row_at_def)

lemma row_at_set_kmem [simp]: "row_at (set_kmem k s) i = row_at s i"
  by (simp add: row_at_def set_kmem_def)

lemma row_at_world [simp]: "row_at (s\<lparr>world := w\<rparr>) i = row_at s i" "row_at (s\<lparr>nextpid := n\<rparr>) i = row_at s i"
  by (simp_all add: row_at_def)

lemma row_at_upd: "row_at (upd_proc p f s) i =
  (if i = p then (pstate (f (procs s p)), parent (f (procs s p)), pchan (f (procs s p)), pid (f (procs s p)), killed (f (procs s p))) else row_at s i)"
  by (simp add: row_at_def upd_proc_def)

lemma upd_proc_simps [simp]: "initproc (upd_proc p f s) = initproc s" "nextpid (upd_proc p f s) = nextpid s"
  "initproc (set_kmem k s) = initproc s" "nextpid (set_kmem k s) = nextpid s" "procs (set_kmem k s) = procs s"
  "procs (upd_proc p f s) p = f (procs s p)"
  by (simp_all add: upd_proc_def set_kmem_def)

definition alive :: "procstate \<Rightarrow> bool" where
  "alive st \<longleftrightarrow> st \<noteq> UNUSED \<and> st \<noteq> ZOMBIE"

lemma live_ok:
  assumes "initproc s' = initproc s" "nextpid s' = nextpid s" "\<And>i. i \<noteq> p \<Longrightarrow> row_at s' i = row_at s i"
    "parent (procs s' p) = parent (procs s p)" "pid (procs s' p) = pid (procs s p)" "alive (pstate (procs s p))" "alive (pstate (procs s' p))"
  shows "init_ok s \<Longrightarrow> init_ok s'" "pid_ok s \<Longrightarrow> pid_ok s'" "tree_ok s \<Longrightarrow> tree_ok s'"
    "stage_ok st s \<Longrightarrow> st p = Norm \<or> pstate (procs s' p) \<in> {RUNNING, RUNNABLE} \<Longrightarrow> stage_ok st s'"
    "wait_ok s \<Longrightarrow> (in_wait s' p \<Longrightarrow> \<not> killed (procs s' p) \<and>
       (initproc s \<noteq> Some p \<longrightarrow> (\<forall>k < NPROC. parent (procs s k) = Some p \<longrightarrow> pstate (procs s k) \<noteq> ZOMBIE))) \<Longrightarrow> wait_ok s'"
proof -
  have e: "parent (procs s' i) = parent (procs s i)" "pid (procs s' i) = pid (procs s i)"
    "pstate (procs s' i) = UNUSED \<longleftrightarrow> pstate (procs s i) = UNUSED" "pstate (procs s' i) = ZOMBIE \<longleftrightarrow> pstate (procs s i) = ZOMBIE" for i
    using assms(3) [of i] assms(4-7) by (cases "i = p", auto simp: alive_def row_at_def)+
  show "init_ok s \<Longrightarrow> init_ok s'" unfolding init_ok_def assms(1) e .
  show "pid_ok s \<Longrightarrow> pid_ok s'" unfolding pid_ok_def assms(2) e .
  show "tree_ok s \<Longrightarrow> tree_ok s'" unfolding tree_ok_def assms(1) e .
  show "stage_ok st s'" if "stage_ok st s" "st p = Norm \<or> pstate (procs s' p) \<in> {RUNNING, RUNNABLE}"
    unfolding stage_ok_def assms(1) e
  proof (intro conjI allI impI)
    fix i assume i: "i < NPROC" "st i \<noteq> Norm"
    then have "initproc s \<noteq> Some i \<and> pstate (procs s i) \<in> {RUNNING, RUNNABLE}" using that(1) unfolding stage_ok_def by blast
    then show "initproc s \<noteq> Some i" "pstate (procs s' i) \<in> {RUNNING, RUNNABLE}"
      using that(2) i(2) assms(3) [of i] by (cases "i = p", auto simp: row_at_def)+
  next
    fix i q assume "i < NPROC" "st i = ParentRead q"
    then show "parent (procs s i) = Some q \<or> parent (procs s i) = initproc s" using that(1) unfolding stage_ok_def by blast
  qed
  show "wait_ok s'" if w: "wait_ok s" "in_wait s' p \<Longrightarrow> \<not> killed (procs s' p) \<and>
       (initproc s \<noteq> Some p \<longrightarrow> (\<forall>k < NPROC. parent (procs s k) = Some p \<longrightarrow> pstate (procs s k) \<noteq> ZOMBIE))"
    unfolding wait_ok_def assms(1) e
  proof (intro allI impI)
    fix i assume i: "i < NPROC" "in_wait s' i"
    show "\<not> killed (procs s' i) \<and> (initproc s \<noteq> Some i \<longrightarrow> (\<forall>k < NPROC. parent (procs s k) = Some i \<longrightarrow> pstate (procs s k) \<noteq> ZOMBIE))"
    proof (cases "i = p")
      case True
      then show ?thesis using w(2) i(2) by blast
    next
      case False
      then have "in_wait s i" "killed (procs s' i) = killed (procs s i)" using i(2) row_at_eqD [OF assms(3)] by (simp_all add: in_wait_def)
      then show ?thesis using w(1) i(1) unfolding wait_ok_def by simp
    qed
  qed
qed

lemma running_ok_add:
  assumes "running_ok cpu s" "cpu c = None" "p < NPROC" "pstate (procs s p) \<noteq> RUNNING" "pstate (procs s' p) = RUNNING"
    "\<And>i. i \<noteq> p \<Longrightarrow> row_at s' i = row_at s i"
  shows "running_ok (cpu(c \<mapsto> p)) s'"
proof -
  have p: "cpu d \<noteq> Some p" for d using assms(1,3,4) unfolding running_ok_def by blast
  have o: "pstate (procs s' i) = pstate (procs s i)" if "i \<noteq> p" for i using row_at_eqD(1) [OF assms(6)] that by blast
  show ?thesis unfolding running_ok_def
  proof (intro conjI allI impI)
    fix d i assume d: "(cpu(c \<mapsto> p)) d = Some i"
    then show "i < NPROC" using assms(1,3) unfolding running_ok_def by (auto split: if_splits)
    fix d' assume "(cpu(c \<mapsto> p)) d' = Some i"
    then show "d' = d" using d assms(1) p unfolding running_ok_def by (auto split: if_splits)
  next
    fix i assume i: "i < NPROC"
    show "pstate (procs s' i) = RUNNING \<longleftrightarrow> (\<exists>d. (cpu(c \<mapsto> p)) d = Some i)"
    proof (cases "i = p")
      case True
      then show ?thesis using assms(5) by auto
    next
      case False
      have "(cpu(c \<mapsto> p)) d = Some i \<longleftrightarrow> cpu d = Some i" for d using False assms(2) by auto
      then show ?thesis using False o assms(1) i unfolding running_ok_def by simp
    qed
  qed
qed

lemma running_ok_remove:
  assumes "running_ok cpu s" "cpu c = Some p" "pstate (procs s' p) \<noteq> RUNNING" "\<And>i. i \<noteq> p \<Longrightarrow> pstate (procs s' i) = RUNNING \<longleftrightarrow> pstate (procs s i) = RUNNING"
  shows "running_ok (cpu(c := None)) s'"
proof -
  have u: "cpu d = Some p \<Longrightarrow> d = c" for d using assms(1,2) unfolding running_ok_def by blast
  show ?thesis unfolding running_ok_def
  proof (intro conjI allI impI)
    fix d i assume d: "(cpu(c := None)) d = Some i"
    then show "i < NPROC" using assms(1) unfolding running_ok_def by (auto split: if_splits)
    fix d' assume "(cpu(c := None)) d' = Some i"
    then show "d' = d" using d assms(1) unfolding running_ok_def by (auto split: if_splits)
  next
    fix i assume i: "i < NPROC"
    show "pstate (procs s' i) = RUNNING \<longleftrightarrow> (\<exists>d. (cpu(c := None)) d = Some i)"
    proof (cases "i = p")
      case True
      then show ?thesis using assms(3) u by auto
    next
      case False
      have "(cpu(c := None)) d = Some i \<longleftrightarrow> cpu d = Some i" for d using False assms(2) by auto
      then show ?thesis using False assms(4) assms(1) i unfolding running_ok_def by simp
    qed
  qed
qed

lemma running_ok_same: "running_ok cpu s \<Longrightarrow> (\<And>i. i < NPROC \<Longrightarrow> pstate (procs s' i) = RUNNING \<longleftrightarrow> pstate (procs s i) = RUNNING) \<Longrightarrow> running_ok cpu s'"
  unfolding running_ok_def by simp

lemma cpu_runs: "running_ok cpu s \<Longrightarrow> cpu c = Some p \<Longrightarrow> p < NPROC \<and> pstate (procs s p) = RUNNING"
  unfolding running_ok_def by blast

section \<open>Fork\<close>

lemma freeprocD: "freeproc kend i s = Ok s' \<Longrightarrow> \<exists>k. s' = upd_proc i clear_proc (set_kmem k s)"
  unfolding freeproc_def by (auto simp: kres_simps)

lemma row_at_clear: "row_at (upd_proc i clear_proc s) j = (if j = i then (UNUSED, None, None, 0, False) else row_at s j)"
  by (simp add: row_at_upd clear_proc_def)

lemma fork_files_effect:
  "fork_files p np n i s = Ok s' \<Longrightarrow> initproc s' = initproc s \<and> nextpid s' = nextpid s \<and> (\<forall>j. row_at s' j = row_at s j)"
proof (induction p np n i s rule: fork_files.induct)
  case (2 p np n i s)
  show ?case
  proof (cases "ofile (procs s p) i")
    case None
    then show ?thesis using 2(1,3) by simp
  next
    case (Some f)
    then obtain w where w: "filedup f (world s) = Ok w"
      "fork_files p np n (Suc i) (upd_proc np (\<lambda>x. x\<lparr>ofile := (ofile x)(i \<mapsto> f)\<rparr>) (s\<lparr>world := w\<rparr>)) = Ok s'"
      using 2(3) by (auto simp: kres_simps)
    show ?thesis using 2(2) [OF Some w] by (auto simp: row_at_upd) (simp_all add: row_at_def)
  qed
qed simp

text \<open>What \<^verbatim>\<open>allocproc\<close> and \<^verbatim>\<open>fork\<close> do to the table: at most one unused entry changes.\<close>

definition claims :: "kst \<Rightarrow> kst \<Rightarrow> nat \<Rightarrow> bool" where
  "claims s s' np \<longleftrightarrow> scan NPROC 0 (\<lambda>i. pstate (procs s i) = UNUSED) = Some np \<and> np < NPROC \<and> pstate (procs s np) = UNUSED \<and> initproc s' = initproc s \<and> nextpid s' = s32 (nextpid s + 1) \<and>
     (\<forall>i. i \<noteq> np \<longrightarrow> row_at s' i = row_at s i)"

lemma allocproc_effect:
  assumes "allocproc kend tr fr s = Ok (s', r)"
  shows "s' = s \<and> r = None \<or>
    (\<exists>np. claims s s' np \<and> (r = None \<and> pstate (procs s' np) = UNUSED \<and> parent (procs s' np) \<in> {None, parent (procs s np)} \<or>
      r = Some np \<and> row_at s' np = (UNUSED, parent (procs s np), pchan (procs s np), nextpid s, killed (procs s np))))"
proof (cases "scan NPROC 0 (\<lambda>i. pstate (procs s i) = UNUSED)")
  case None
  then show ?thesis using assms by (simp add: allocproc_def)
next
  case (Some np)
  note np = scan_SomeD [OF Some]
  obtain k tf where k: "kalloc (kmem_of (s\<lparr>nextpid := s32 (nextpid s + 1)\<rparr>)) = (k, tf)" by (meson surj_pair)
  let ?s1 = "upd_proc np (\<lambda>p. p\<lparr>pid := nextpid s, trapframe := tf\<rparr>) (set_kmem k (s\<lparr>nextpid := s32 (nextpid s + 1)\<rparr>))"
  have c1: "claims s ?s1 np" using np Some by (simp add: claims_def row_at_upd)
  have t1: "row_at ?s1 np = (UNUSED, parent (procs s np), pchan (procs s np), nextpid s, killed (procs s np))"
    using np by (simp add: row_at_upd)
  show ?thesis
  proof (cases "tf = 0")
    case True
    then have "s' = ?s1" "r = None" using assms Some k by (simp_all add: allocproc_def allocpid_def Let_def)
    then show ?thesis using c1 t1 by (auto simp: row_at_def)
  next
    case False
    obtain k2 pt where pt: "proc_pagetable kend tr tf (kmem_of ?s1) = Ok (k2, pt)"
      using assms Some k False by (auto simp: allocproc_def allocpid_def Let_def kres_simps)
    let ?s2 = "upd_proc np (\<lambda>p. p\<lparr>pagetable := pt\<rparr>) (set_kmem k2 ?s1)"
    have c2: "claims s ?s2 np" using c1 by (simp add: claims_def row_at_upd)
    have t2: "row_at ?s2 np = row_at ?s1 np" by (simp add: row_at_upd)
    show ?thesis
    proof (cases "pt = 0")
      case True
      then have f: "freeproc kend np ?s2 = Ok s'" "r = None"
        using assms Some k False pt by (auto simp: allocproc_def allocpid_def Let_def kres_simps)
      then obtain k3 where "s' = upd_proc np clear_proc (set_kmem k3 ?s2)" using freeprocD by blast
      then show ?thesis using f(2) c2 by (intro disjI2 exI [of _ np]) (auto simp: claims_def row_at_clear clear_proc_def)
    next
      case pt0: False
      then have "r = Some np" "s' = upd_proc np (\<lambda>p. p\<lparr>pcontext := \<lparr>ctx_ra = fr, ctx_sp = kstack p + PGSIZE, ctx_s = (\<lambda>_. 0)\<rparr>\<rparr>) ?s2"
        using assms Some k False pt by (auto simp: allocproc_def allocpid_def Let_def kres_simps)
      then show ?thesis using c2 t1 t2 by (auto simp: claims_def row_at_upd)
    qed
  qed
qed

lemma fork_effect:
  assumes "fork kend tr fr p s = Ok (s', r)"
  shows "s' = s \<and> r = - 1 \<or> (\<exists>np. claims s s' np \<and>
      (r = - 1 \<and> pstate (procs s' np) = UNUSED \<and> parent (procs s' np) \<in> {None, parent (procs s np)} \<or>
       r = nextpid s \<and> pstate (procs s' np) = RUNNABLE \<and> parent (procs s' np) = Some p \<and> pid (procs s' np) = nextpid s \<and>
         killed (procs s' np) = killed (procs s np)))"
proof -
  obtain s1 ro where a: "allocproc kend tr fr s = Ok (s1, ro)" using assms by (auto simp: fork_def kres_simps)
  show ?thesis
  proof (cases ro)
    case None
    then have "s' = s1" "r = - 1" using assms a by (simp_all add: fork_def)
    then show ?thesis using allocproc_effect [OF a] None by auto
  next
    case (Some np)
    then have c: "claims s s1 np" and t: "row_at s1 np = (UNUSED, parent (procs s np), pchan (procs s np), nextpid s, killed (procs s np))"
      using allocproc_effect [OF a] by auto
    obtain k q where u: "uvmcopy kend (pagetable (procs s1 p)) (pagetable (procs s1 np)) (psz (procs s1 p)) (kmem_of s1) = Ok (k, q)"
      using assms a Some by (auto simp: fork_def kres_simps)
    show ?thesis
    proof (cases "q < 0")
      case True
      then have r: "freeproc kend np (set_kmem k s1) = Ok s'" "r = - 1" using assms a Some u by (auto simp: fork_def kres_simps)
      then obtain k2 where "s' = upd_proc np clear_proc (set_kmem k2 (set_kmem k s1))" using freeprocD by blast
      then show ?thesis using c r(2) by (intro disjI2 exI [of _ np]) (auto simp: claims_def row_at_clear clear_proc_def)
    next
      case False
      obtain t2 t3 x where f: "fork_files p np NOFILE 0 t2 = Ok t3"
        "initproc t2 = initproc s1" "nextpid t2 = nextpid s1" "\<forall>i. i \<noteq> np \<longrightarrow> row_at t2 i = row_at s1 i"
        "parent (procs t2 np) = Some p" "pid (procs t2 np) = pid (procs s1 np)" "killed (procs t2 np) = killed (procs s1 np)" "r = pid (procs t3 np)"
        and s': "s' = upd_proc np (\<lambda>x. x\<lparr>pstate := RUNNABLE\<rparr>) (upd_proc np (\<lambda>y. y\<lparr>pcwd := pcwd (procs t3 p), pname := take 15 (pname (procs t3 p))\<rparr>) (t3\<lparr>world := x\<rparr>))"
      proof -
        show thesis using assms a Some u False that
          unfolding fork_def by (auto simp: kres_simps Let_def tf_set_def row_at_upd)
      qed
      note e = fork_files_effect [OF f(1)]
      have "pid (procs s1 np) = nextpid s" "killed (procs s1 np) = killed (procs s np)" using t by (simp_all add: row_at_def)
      moreover have "parent (procs t3 np) = Some p" "pid (procs t3 np) = pid (procs s1 np)" "killed (procs t3 np) = killed (procs s1 np)"
        using e f(5-7) by (auto simp: row_at_def)
      moreover have "claims s s' np" unfolding s' using c e f(2-4) by (auto simp: claims_def row_at_upd)
      ultimately show ?thesis unfolding s' using f(8) by (intro disjI2 exI [of _ np] conjI disjI2) simp_all
    qed
  qed
qed

lemma tree_okD:
  assumes "tree_ok s" "i < NPROC" "parent (procs s i) = Some q"
  shows "q < NPROC \<and> q \<noteq> i \<and> pstate (procs s q) \<noteq> UNUSED \<and> pstate (procs s q) \<noteq> ZOMBIE \<and> pstate (procs s i) \<noteq> UNUSED"
  using assms unfolding tree_ok_def by blast

lemma tree_ok_parent: "tree_ok s \<Longrightarrow> i < NPROC \<Longrightarrow> pstate (procs s i) \<noteq> UNUSED \<Longrightarrow> initproc s \<noteq> Some i \<Longrightarrow> parent (procs s i) \<noteq> None"
  unfolding tree_ok_def by blast

lemma stage_ok_other:
  assumes "stage_ok st s" "st np = Norm" "\<And>i. i \<noteq> np \<Longrightarrow> row_at s' i = row_at s i" "initproc s' = initproc s"
  shows "stage_ok st s'"
  unfolding stage_ok_def assms(4)
proof (intro conjI allI impI)
  fix i assume i: "i < NPROC" "st i \<noteq> Norm"
  then have "i \<noteq> np" using assms(2) by auto
  then have "pstate (procs s' i) = pstate (procs s i)" using row_at_eqD(1) [OF assms(3)] by blast
  then show "initproc s \<noteq> Some i" "pstate (procs s' i) \<in> {RUNNING, RUNNABLE}" using assms(1) i unfolding stage_ok_def by auto
next
  fix i q assume i: "i < NPROC" "st i = ParentRead q"
  then have "i \<noteq> np" using assms(2) by auto
  then have "parent (procs s' i) = parent (procs s i)" using row_at_eqD(2) [OF assms(3)] by blast
  then show "parent (procs s' i) = Some q \<or> parent (procs s' i) = initproc s" using assms(1) i unfolding stage_ok_def by auto
qed

lemma unused_norm: "stage_ok st s \<Longrightarrow> np < NPROC \<Longrightarrow> pstate (procs s np) = UNUSED \<or> pstate (procs s np) = ZOMBIE \<Longrightarrow> st np = Norm"
  unfolding stage_ok_def by fastforce

lemma claims_ok:
  assumes "claims s s' np" "nextpid s < 2 ^ 31 - 1" "p < NPROC" "alive (pstate (procs s p))"
    and new: "pstate (procs s' np) = UNUSED \<and> parent (procs s' np) \<in> {None, parent (procs s np)} \<or>
       pstate (procs s' np) = RUNNABLE \<and> parent (procs s' np) = Some p \<and> pid (procs s' np) = nextpid s"
    and ok: "init_ok s" "running_ok cpu s" "pid_ok s" "tree_ok s" "stage_ok st s" "wait_ok s"
  shows "init_ok s' \<and> running_ok cpu s' \<and> pid_ok s' \<and> tree_ok s' \<and> stage_ok st s' \<and> wait_ok s'"
proof -
  note c = assms(1) [unfolded claims_def]
  have o: "i \<noteq> np \<Longrightarrow> row_at s' i = row_at s i" for i using c by blast
  note e = row_at_eqD [OF o]
  have un: "pstate (procs s np) = UNUSED" "np < NPROC" "initproc s' = initproc s" using c by (simp_all del: One_nat_def)
  have par: "parent (procs s np) = None" using ok(4) un(1,2) unfolding tree_ok_def by (metis option.exhaust)
  have pnp: "p \<noteq> np" using assms(4) un(1) by (auto simp: alive_def)
  have next': "nextpid s' = nextpid s + 1" "0 < nextpid s"
    using c assms(2) ok(3) s32_id [of "nextpid s + 1"] by (simp_all add: pid_ok_def)
  have new': "pstate (procs s' np) = UNUSED \<and> parent (procs s' np) = None \<or>
       pstate (procs s' np) = RUNNABLE \<and> parent (procs s' np) = Some p \<and> pid (procs s' np) = nextpid s" using new par by auto
  have init: "initproc s \<noteq> Some np" using ok(1) un(1) by (auto simp: init_ok_def)
  have "init_ok s'"
  proof -
    obtain i where i: "i < NPROC" "initproc s = Some i" "pstate (procs s i) \<noteq> UNUSED" "pstate (procs s i) \<noteq> ZOMBIE" "parent (procs s i) = None"
      using ok(1) unfolding init_ok_def by blast
    then have "i \<noteq> np" using init by blast
    then show ?thesis using i e(1,2) un(3) unfolding init_ok_def by auto
  qed
  moreover have "running_ok cpu s'"
  proof (rule running_ok_same [OF ok(2)])
    fix i
    show "pstate (procs s' i) = RUNNING \<longleftrightarrow> pstate (procs s i) = RUNNING" using e(1) [of i] new' un(1) by (cases "i = np") auto
  qed
  moreover have "pid_ok s'"
    unfolding pid_ok_def next'(1)
  proof (intro conjI allI impI)
    fix i assume i: "i < NPROC" "pstate (procs s' i) \<noteq> UNUSED"
    have "0 < pid (procs s' i) \<and> pid (procs s' i) \<le> nextpid s"
    proof (cases "i = np")
      case False
      then show ?thesis using i ok(3) e(1,4) [of i] unfolding pid_ok_def by (auto simp: less_imp_le)
    qed (use new' i next'(2) in auto)
    then show "0 < pid (procs s' i)" "pid (procs s' i) < nextpid s + 1" by simp_all
  next
    fix i j assume ij: "i < NPROC" "j < NPROC" "pstate (procs s' i) \<noteq> UNUSED \<and> pstate (procs s' j) \<noteq> UNUSED \<and> pid (procs s' i) = pid (procs s' j)"
    have fresh: "pid (procs s k) < nextpid s" if "k < NPROC" "k \<noteq> np" "pstate (procs s' k) \<noteq> UNUSED" for k
      using that ok(3) e(1) [of k] unfolding pid_ok_def by simp
    have clash: "k = np" if "k < NPROC" "pstate (procs s' k) \<noteq> UNUSED" "pid (procs s' k) = pid (procs s' np)" "pstate (procs s' np) \<noteq> UNUSED" for k
    proof (rule ccontr)
      assume "k \<noteq> np"
      then show False using fresh [of k] that e(4) [of k] new' by simp
    qed
    show "i = j"
    proof (cases "i = np \<or> j = np")
      case True
      then show ?thesis using ij clash [of i] clash [of j] by auto
    next
      case False
      then have "pstate (procs s i) \<noteq> UNUSED \<and> pstate (procs s j) \<noteq> UNUSED \<and> pid (procs s i) = pid (procs s j)"
        using ij(3) e(1,4) [of i] e(1,4) [of j] by simp
      then show ?thesis using ij(1,2) ok(3) unfolding pid_ok_def by blast
    qed
  qed (use assms(2) next'(2) in simp_all)
  moreover have "tree_ok s'"
    unfolding tree_ok_def un(3)
  proof (intro conjI allI impI)
    fix i q assume i: "i < NPROC" "parent (procs s' i) = Some q"
    have "q < NPROC \<and> q \<noteq> i \<and> q \<noteq> np \<and> pstate (procs s q) \<noteq> UNUSED \<and> pstate (procs s q) \<noteq> ZOMBIE \<and> pstate (procs s' i) \<noteq> UNUSED"
    proof (cases "i = np")
      case True
      then show ?thesis using new' i pnp assms(3,4) by (auto simp: alive_def)
    next
      case False
      then have "parent (procs s i) = Some q" "pstate (procs s' i) = pstate (procs s i)" using i(2) e(1,2) [of i] by simp_all
      then show ?thesis using tree_okD [OF ok(4) i(1)] un(1) by auto
    qed
    then show "q < NPROC" "q \<noteq> i" "pstate (procs s' q) \<noteq> UNUSED" "pstate (procs s' q) \<noteq> ZOMBIE" "pstate (procs s' i) \<noteq> UNUSED"
      using e(1) [of q] by auto
  next
    fix i assume i: "i < NPROC" "pstate (procs s' i) \<noteq> UNUSED \<and> initproc s \<noteq> Some i"
    show "parent (procs s' i) \<noteq> None"
    proof (cases "i = np")
      case False
      then show ?thesis using i e(1,2) [of i] tree_ok_parent [OF ok(4) i(1)] by simp
    qed (use new' i in auto)
  qed
  moreover have "stage_ok st s'"
    by (rule stage_ok_other [OF ok(5) unused_norm [OF ok(5) un(2)] o un(3)]) (use un(1) in auto)
  moreover have "wait_ok s'"
    unfolding wait_ok_def un(3)
  proof (intro allI impI conjI)
    fix i assume i: "i < NPROC" "in_wait s' i"
    then have np: "i \<noteq> np" using new' by (auto simp: in_wait_def)
    then have w: "in_wait s i" using i(2) e(1,3) [of i] by (simp add: in_wait_def)
    then show "\<not> killed (procs s' i)" using e(5) [OF np] i(1) ok(6) unfolding wait_ok_def by simp
    fix k assume k: "initproc s \<noteq> Some i" "k < NPROC" "parent (procs s' k) = Some i"
    show "pstate (procs s' k) \<noteq> ZOMBIE"
    proof (cases "k = np")
      case False
      then show ?thesis using k e(1,2) [of k] w i(1) ok(6) unfolding wait_ok_def by simp
    qed (use new' in auto)
  qed
  ultimately show ?thesis by blast
qed

section \<open>Wait and exit\<close>

lemma wait_scan_Inl: "wait_scan n np h p tab = Inl k \<Longrightarrow> np \<le> k \<and> k < np + n \<and> parent (tab k) = Some p \<and> pstate (tab k) = ZOMBIE"
proof (induction n arbitrary: np h)
  case (Suc n)
  then show ?case by (fastforce split: if_splits)
qed simp

lemma wait_scan_Inr: "wait_scan n np h p tab = Inr h' \<Longrightarrow> np \<le> k \<Longrightarrow> k < np + n \<Longrightarrow> parent (tab k) = Some p \<Longrightarrow> pstate (tab k) \<noteq> ZOMBIE"
proof (induction n arbitrary: np h)
  case (Suc n)
  then show ?case by (cases "k = np") (fastforce split: if_splits)+
qed simp

lemma wait_done_effect:
  assumes "wait kend p addr s = Ok (s', Done r)"
  shows "(\<exists>k. s' = set_kmem k s) \<or> s' = s \<or>
    (\<exists>np k. np < NPROC \<and> parent (procs s np) = Some p \<and> pstate (procs s np) = ZOMBIE \<and> s' = upd_proc np clear_proc (set_kmem k s))"
proof (cases "wait_scan NPROC 0 False p (procs s)")
  case (Inl np)
  have np: "np < NPROC" "parent (procs s np) = Some p" "pstate (procs s np) = ZOMBIE" using wait_scan_Inl [OF Inl] by auto
  obtain k q where k: "(if addr \<noteq> 0 then copyout (pagetable (procs s p)) addr (le_bytes 4 (xstate (procs s np))) (kmem_of s)
      else Ok (kmem_of s, 0)) = Ok (k, q)"
    "(if q < 0 then Ok (set_kmem k s, Done (- 1)) else kbind (freeproc kend np (set_kmem k s)) (\<lambda>s'. Ok (s', Done (pid (procs s np))))) = Ok (s', Done r)"
    using assms Inl unfolding wait_def by (auto simp: kres_simps Let_def)
  show ?thesis
  proof (cases "q < 0")
    case True
    then show ?thesis using k(2) by auto
  next
    case False
    then have "freeproc kend np (set_kmem k s) = Ok s'" using k(2) by (auto simp: kres_simps)
    then obtain k2 where "s' = upd_proc np clear_proc (set_kmem k2 (set_kmem k s))" using freeprocD by blast
    moreover have "set_kmem k2 (set_kmem k s) = set_kmem k2 s" by (simp add: set_kmem_def)
    ultimately show ?thesis using np by auto
  qed
next
  case (Inr h)
  then show ?thesis using assms by (simp add: wait_def split: if_splits)
qed

lemma wait_blocked_effect:
  assumes "wait kend p addr s = Ok (s', Blocked i ch)"
  shows "s' = go_to_sleep p (ProcChan p) s \<and> \<not> killed (procs s p) \<and> (\<forall>k < NPROC. parent (procs s k) = Some p \<longrightarrow> pstate (procs s k) \<noteq> ZOMBIE)"
proof (cases "wait_scan NPROC 0 False p (procs s)")
  case (Inl np)
  then show ?thesis using assms by (auto simp: wait_def kres_simps Let_def split: if_splits)
next
  case (Inr h)
  then show ?thesis using assms wait_scan_Inr [OF Inr] by (auto simp: wait_def split: if_splits)
qed

lemma free_ok:
  assumes "np < NPROC" "pstate (procs s np) = ZOMBIE" "s' = upd_proc np clear_proc (set_kmem k s)"
    and ok: "init_ok s" "running_ok cpu s" "pid_ok s" "tree_ok s" "stage_ok st s" "wait_ok s"
  shows "init_ok s' \<and> running_ok cpu s' \<and> pid_ok s' \<and> tree_ok s' \<and> stage_ok st s' \<and> wait_ok s'"
proof -
  have o: "i \<noteq> np \<Longrightarrow> row_at s' i = row_at s i" for i using assms(3) by (simp add: row_at_clear)
  note e = row_at_eqD [OF o]
  have n: "pstate (procs s' np) = UNUSED" "parent (procs s' np) = None" "initproc s' = initproc s" "nextpid s' = nextpid s"
    using assms(3) by (simp_all add: clear_proc_def)
  have np: "initproc s \<noteq> Some np" using ok(1) assms(2) by (auto simp: init_ok_def)
  have par: "parent (procs s i) \<noteq> Some np" if "i < NPROC" for i using ok(4) assms(2) that unfolding tree_ok_def by blast
  have "init_ok s'"
    using ok(1) e(1,2) np n(3) unfolding init_ok_def by (metis)
  moreover have "running_ok cpu s'"
  proof (rule running_ok_same [OF ok(2)])
    fix i
    show "pstate (procs s' i) = RUNNING \<longleftrightarrow> pstate (procs s i) = RUNNING" using e(1) [of i] n(1) assms(2) by (cases "i = np") auto
  qed
  moreover have "pid_ok s'"
    unfolding pid_ok_def n(4)
  proof (intro conjI allI impI)
    fix i assume i: "i < NPROC" "pstate (procs s' i) \<noteq> UNUSED"
    then have "i \<noteq> np" using n(1) by auto
    then show "0 < pid (procs s' i)" "pid (procs s' i) < nextpid s" using i ok(3) e(1,4) [of i] unfolding pid_ok_def by simp_all
  next
    fix i j assume ij: "i < NPROC" "j < NPROC" "pstate (procs s' i) \<noteq> UNUSED \<and> pstate (procs s' j) \<noteq> UNUSED \<and> pid (procs s' i) = pid (procs s' j)"
    then have "i \<noteq> np" "j \<noteq> np" using n(1) by auto
    then have "pstate (procs s i) \<noteq> UNUSED \<and> pstate (procs s j) \<noteq> UNUSED \<and> pid (procs s i) = pid (procs s j)"
      using ij(3) e(1,4) [of i] e(1,4) [of j] by simp
    then show "i = j" using ij(1,2) ok(3) unfolding pid_ok_def by blast
  qed (use ok(3) in \<open>simp_all add: pid_ok_def\<close>)
  moreover have "tree_ok s'"
    unfolding tree_ok_def n(3)
  proof (intro conjI allI impI)
    fix i q assume i: "i < NPROC" "parent (procs s' i) = Some q"
    then have inp: "i \<noteq> np" using n(2) by auto
    then have "parent (procs s i) = Some q" using i(2) e(2) by simp
    then have "q < NPROC \<and> q \<noteq> i \<and> pstate (procs s q) \<noteq> UNUSED \<and> pstate (procs s q) \<noteq> ZOMBIE \<and> pstate (procs s i) \<noteq> UNUSED" "q \<noteq> np"
      using tree_okD [OF ok(4) i(1)] par [OF i(1)] by auto
    then show "q < NPROC" "q \<noteq> i" "pstate (procs s' q) \<noteq> UNUSED" "pstate (procs s' q) \<noteq> ZOMBIE" "pstate (procs s' i) \<noteq> UNUSED"
      using e(1) [of q] e(1) [OF inp] by auto
  next
    fix i assume i: "i < NPROC" "pstate (procs s' i) \<noteq> UNUSED \<and> initproc s \<noteq> Some i"
    then have "i \<noteq> np" using n(1) by auto
    then show "parent (procs s' i) \<noteq> None" using i e(1,2) [of i] tree_ok_parent [OF ok(4) i(1)] by simp
  qed
  moreover have "stage_ok st s'"
    by (rule stage_ok_other [OF ok(5) unused_norm [OF ok(5) assms(1)] o n(3)]) (use assms(2) in auto)
  moreover have "wait_ok s'"
    unfolding wait_ok_def n(3)
  proof (intro allI impI conjI)
    fix i assume i: "i < NPROC" "in_wait s' i"
    then have inp: "i \<noteq> np" using n(1) by (auto simp: in_wait_def)
    then have w: "in_wait s i" using i(2) e(1,3) [of i] by (simp add: in_wait_def)
    then show "\<not> killed (procs s' i)" using e(5) [OF inp] i(1) ok(6) unfolding wait_ok_def by simp
    fix k assume k: "initproc s \<noteq> Some i" "k < NPROC" "parent (procs s' k) = Some i"
    then have "k \<noteq> np" using n(2) by auto
    then show "pstate (procs s' k) \<noteq> ZOMBIE" using k e(1,2) [of k] w i(1) ok(6) unfolding wait_ok_def by simp
  qed
  ultimately show ?thesis by blast
qed

lemma reparent_loop_effect:
  "initproc (reparent_loop p n i s) = initproc s \<and> nextpid (reparent_loop p n i s) = nextpid s \<and>
   row_at (reparent_loop p n i s) j =
     (pstate (procs s j), if i \<le> j \<and> j < i + n \<and> parent (procs s j) = Some p then initproc s else parent (procs s j),
      pchan (procs s j), pid (procs s j), killed (procs s j))"
proof (induction n arbitrary: i s)
  case (Suc n)
  let ?s = "if parent (procs s i) = Some p then upd_proc i (\<lambda>x. x\<lparr>parent := initproc s\<rparr>) s else s"
  have "initproc ?s = initproc s" "nextpid ?s = nextpid s" by simp_all
  moreover have "pstate (procs ?s j) = pstate (procs s j)" "pchan (procs ?s j) = pchan (procs s j)" "pid (procs ?s j) = pid (procs s j)"
    "killed (procs ?s j) = killed (procs s j)"
    "parent (procs ?s j) = (if j = i \<and> parent (procs s j) = Some p then initproc s else parent (procs s j))"
    by (auto simp: upd_proc_def)
  moreover have "i \<le> j \<and> j < i + Suc n \<longleftrightarrow> j = i \<or> Suc i \<le> j \<and> j < Suc i + n" by auto
  ultimately show ?case using Suc [of "Suc i" ?s] by (cases "j = i") auto
qed (auto simp: row_at_def)

lemma exit_zombie_effect:
  fixes q p :: nat
  fixes status s
  defines "s' \<equiv> exit_zombie q p status s"
  shows "initproc s' = initproc s" "nextpid s' = nextpid s" "pstate (procs s' p) = ZOMBIE"
    "parent (procs s' i) = (if i < NPROC \<and> parent (procs s i) = Some p then initproc s else parent (procs s i))"
    "pid (procs s' i) = pid (procs s i)" "pchan (procs s' i) = pchan (procs s i)" "killed (procs s' i) = killed (procs s i)"
    "i \<noteq> p \<Longrightarrow> pstate (procs s' i) = (if i = q \<and> in_wait s i then RUNNABLE else pstate (procs s i))"
proof -
  let ?r = "reparent p s"
  have r: "initproc ?r = initproc s" "nextpid ?r = nextpid s" "pstate (procs ?r i) = pstate (procs s i)" "pchan (procs ?r i) = pchan (procs s i)"
    "pid (procs ?r i) = pid (procs s i)" "killed (procs ?r i) = killed (procs s i)"
    "parent (procs ?r i) = (if i < NPROC \<and> parent (procs s i) = Some p then initproc s else parent (procs s i))" for i
    using reparent_loop_effect [of p NPROC 0 s i] by (simp_all add: reparent_def row_at_def)
  have w: "initproc (wakeup1 q t) = initproc t" "nextpid (wakeup1 q t) = nextpid t" "parent (procs (wakeup1 q t) i) = parent (procs t i)"
    "pchan (procs (wakeup1 q t) i) = pchan (procs t i)" "pid (procs (wakeup1 q t) i) = pid (procs t i)" "killed (procs (wakeup1 q t) i) = killed (procs t i)"
    "pstate (procs (wakeup1 q t) i) = (if i = q \<and> in_wait t i then RUNNABLE else pstate (procs t i))" for t i
    by (auto simp: wakeup1_def upd_proc_def in_wait_def)
  show "initproc s' = initproc s" "nextpid s' = nextpid s" "pstate (procs s' p) = ZOMBIE"
    by (simp_all add: s'_def exit_zombie_def r w)
  show "parent (procs s' i) = (if i < NPROC \<and> parent (procs s i) = Some p then initproc s else parent (procs s i))"
    "pid (procs s' i) = pid (procs s i)" "pchan (procs s' i) = pchan (procs s i)" "killed (procs s' i) = killed (procs s i)"
    by (cases "i = p", simp_all add: s'_def exit_zombie_def upd_proc_def r w)+
  show "i \<noteq> p \<Longrightarrow> pstate (procs s' i) = (if i = q \<and> in_wait s i then RUNNABLE else pstate (procs s i))"
    by (auto simp: s'_def exit_zombie_def upd_proc_def r w in_wait_def)
qed

lemma zombie_ok:
  assumes "cpu c = Some p" "st p = ParentRead q" "s' = exit_zombie q p status s"
    and ok: "init_ok s" "running_ok cpu s" "pid_ok s" "tree_ok s" "stage_ok st s" "wait_ok s"
  shows "init_ok s' \<and> running_ok (cpu(c := None)) s' \<and> pid_ok s' \<and> tree_ok s' \<and> stage_ok (st(p := Norm)) s' \<and> wait_ok s'"
proof -
  note e = exit_zombie_effect [where q = q and p = p and status = status and s = s, folded assms(3)]
  have p: "p < NPROC" "pstate (procs s p) = RUNNING" using cpu_runs [OF ok(2) assms(1)] by auto
  have stp: "initproc s \<noteq> Some p" "parent (procs s p) = Some q \<or> parent (procs s p) = initproc s"
    using ok(5) assms(2) p(1) unfolding stage_ok_def by auto
  obtain i0 where i0: "i0 < NPROC" "initproc s = Some i0" "alive (pstate (procs s i0))" "parent (procs s i0) = None" using ok(1) by (auto simp: init_ok_def alive_def)
  have i0p: "i0 \<noteq> p" using i0(2) stp(1) by auto
  have st: "pstate (procs s' i) = UNUSED \<longleftrightarrow> pstate (procs s i) = UNUSED" "i \<noteq> p \<Longrightarrow> pstate (procs s' i) = ZOMBIE \<longleftrightarrow> pstate (procs s i) = ZOMBIE"
    "i \<noteq> p \<Longrightarrow> pstate (procs s' i) = RUNNING \<longleftrightarrow> pstate (procs s i) = RUNNING"
    "i \<noteq> p \<Longrightarrow> pstate (procs s i) \<in> {RUNNING, RUNNABLE} \<Longrightarrow> pstate (procs s' i) \<in> {RUNNING, RUNNABLE}" for i
    using e(3) e(8) [of i] p(2) by (cases "i = p"; auto simp: in_wait_def)+
  have "init_ok s'" unfolding init_ok_def e(1) using i0 i0p st(1,2) [of i0] e(4) [of i0] by (auto simp: alive_def)
  moreover have "running_ok (cpu(c := None)) s'" by (rule running_ok_remove [OF ok(2) assms(1)]) (use e(3) st(3) in auto)
  moreover have "pid_ok s'" using ok(3) unfolding pid_ok_def e(2) e(5) st(1) .
  moreover have "tree_ok s'"
    unfolding tree_ok_def e(1)
  proof (intro conjI allI impI)
    fix i r assume i: "i < NPROC" "parent (procs s' i) = Some r"
    have "r < NPROC \<and> r \<noteq> i \<and> r \<noteq> p \<and> alive (pstate (procs s r)) \<and> pstate (procs s i) \<noteq> UNUSED"
    proof (cases "parent (procs s i) = Some p")
      case True
      then have "r = i0" using i i0(2) e(4) [of i] by simp
      moreover have "i \<noteq> i0"
        using True i0(4) by auto
      ultimately show ?thesis using tree_okD [OF ok(4) i(1) True] i0 i0p by auto
    next
      case False
      then have "parent (procs s i) = Some r" "r \<noteq> p" using i(2) e(4) [of i] by auto
      then show ?thesis using tree_okD [OF ok(4) i(1)] by (auto simp: alive_def)
    qed
    then show "r < NPROC" "r \<noteq> i" "pstate (procs s' r) \<noteq> UNUSED" "pstate (procs s' r) \<noteq> ZOMBIE" "pstate (procs s' i) \<noteq> UNUSED"
      using st(1,2) [of r] st(1) [of i] by (auto simp: alive_def)
  next
    fix i assume i: "i < NPROC" "pstate (procs s' i) \<noteq> UNUSED \<and> initproc s \<noteq> Some i"
    then have "parent (procs s i) \<noteq> None" using tree_ok_parent [OF ok(4) i(1)] st(1) by simp
    then show "parent (procs s' i) \<noteq> None" using e(4) [of i] i0(2) by simp
  qed
  moreover have "stage_ok (st(p := Norm)) s'"
    unfolding stage_ok_def e(1)
  proof (intro conjI allI impI)
    fix i assume i: "i < NPROC" "(st(p := Norm)) i \<noteq> Norm"
    then have ip: "i \<noteq> p" "st i \<noteq> Norm" by (auto split: if_splits)
    then have "initproc s \<noteq> Some i \<and> pstate (procs s i) \<in> {RUNNING, RUNNABLE}" using ok(5) i(1) unfolding stage_ok_def by blast
    then show "initproc s \<noteq> Some i" "pstate (procs s' i) \<in> {RUNNING, RUNNABLE}" using st(4) [OF ip(1)] by auto
  next
    fix i r assume i: "i < NPROC" "(st(p := Norm)) i = ParentRead r"
    then have "st i = ParentRead r" by (auto split: if_splits)
    then have "parent (procs s i) = Some r \<or> parent (procs s i) = initproc s" using ok(5) i(1) unfolding stage_ok_def by blast
    then show "parent (procs s' i) = Some r \<or> parent (procs s' i) = initproc s" using e(4) [of i] by simp
  qed
  moreover have "wait_ok s'"
    unfolding wait_ok_def e(1) e(7)
  proof (intro allI impI conjI)
    fix i assume i: "i < NPROC" "in_wait s' i"
    then have ip: "i \<noteq> p" using e(3) by (auto simp: in_wait_def)
    have w: "in_wait s i" "i \<noteq> q" using i(2) e(6) [of i] e(8) [OF ip] by (auto simp: in_wait_def split: if_splits)
    show "\<not> killed (procs s i)" using ok(6) i(1) w(1) unfolding wait_ok_def by simp
    fix k assume k: "initproc s \<noteq> Some i" "k < NPROC" "parent (procs s' k) = Some i"
    have par: "parent (procs s k) = Some i" using k e(4) [of k] by (simp split: if_splits)
    have "k \<noteq> p" using par stp(2) w(2) k(1) by auto
    then show "pstate (procs s' k) \<noteq> ZOMBIE" using st(2) ok(6) i(1) w(1) k(1,2) par unfolding wait_ok_def by blast
  qed
  ultimately show ?thesis by blast
qed

section \<open>Every reachable table\<close>

lemma quiet_cfg: "cfg_ok g \<Longrightarrow> quiet (ks g) s' \<Longrightarrow> cfg_ok (g\<lparr>ks := s'\<rparr>)"
  unfolding cfg_ok_def using quiet_ok [of "ks g" s'] by simp

lemma live_cfg:
  assumes "cfg_ok g" "s' = upd_proc p f (ks g)" "parent (f x) = parent x" "pid (f x) = pid x" "x = procs (ks g) p" "alive (pstate x)" "alive (pstate (f x))"
    "running_ok cpu s'" "stages g p = Norm \<or> pstate (f x) \<in> {RUNNING, RUNNABLE}"
    "in_wait s' p \<Longrightarrow> \<not> killed (f x) \<and>
       (initproc (ks g) \<noteq> Some p \<longrightarrow> (\<forall>k < NPROC. parent (procs (ks g) k) = Some p \<longrightarrow> pstate (procs (ks g) k) \<noteq> ZOMBIE))"
  shows "cfg_ok (g\<lparr>ks := s', on_cpu := cpu\<rparr>)"
proof -
  have e: "procs s' p = f x" "initproc s' = initproc (ks g)" "nextpid s' = nextpid (ks g)" "\<And>i. i \<noteq> p \<Longrightarrow> row_at s' i = row_at (ks g) i"
    using assms(2,5) by (simp_all add: row_at_upd)
  note l = live_ok [of s' "ks g" p, OF e(2,3,4), unfolded e(1), folded assms(5)]
  have o: "init_ok (ks g)" "pid_ok (ks g)" "tree_ok (ks g)" "stage_ok (stages g) (ks g)" "wait_ok (ks g)" using assms(1) by (simp_all add: cfg_ok_def)
  show ?thesis unfolding cfg_ok_def using l o assms by simp
qed

lemma kernel_cfg: "cfg_ok g \<Longrightarrow> cfg_ok (g\<lparr>ks := set_kmem k (ks g)\<rparr>)"
  by (rule quiet_cfg) (simp_all add: quiet_def)

lemma pstep_cfg_ok:
  assumes "pstep kend tr fr g g'" "cfg_ok g"
  shows "cfg_ok g'"
  using assms(1)
proof cases
  case (run_step c p s')
  let ?f = "\<lambda>x. x\<lparr>pstate := RUNNING, pchan := None\<rparr>"
  have r: "pstate (procs (ks g) p) = RUNNABLE" "after_sleep p s' = upd_proc p ?f (ks g)"
    using run_step(5) by (auto simp: schedule_def after_sleep_def upd_proc_def split: if_splits)
  have "running_ok ((on_cpu g)(c \<mapsto> p)) (upd_proc p ?f (ks g))"
    by (rule running_ok_add [of "on_cpu g" "ks g"]) (use assms(2) run_step r in \<open>auto simp: cfg_ok_def row_at_upd\<close>)
  then show ?thesis unfolding run_step(1) r(2)
    by (intro live_cfg [OF assms(2) refl, where x = "procs (ks g) p"]) (use r in \<open>auto simp: alive_def in_wait_def\<close>)
next
  case (yield_step c p)
  have ok: "running_ok (on_cpu g) (ks g)" using assms(2) by (simp add: cfg_ok_def)
  note p = cpu_runs [OF ok yield_step(2)]
  have "running_ok ((on_cpu g)(c := None)) (upd_proc p (\<lambda>x. x\<lparr>pstate := RUNNABLE\<rparr>) (ks g))"
    by (rule running_ok_remove [OF ok yield_step(2)]) (simp_all add: upd_proc_def)
  then show ?thesis unfolding yield_step(1) yield_def
    by (intro live_cfg [OF assms(2) refl, where x = "procs (ks g) p"]) (use p in \<open>auto simp: alive_def in_wait_def\<close>)
next
  case (sleep_step c p ch)
  have ok: "running_ok (on_cpu g) (ks g)" using assms(2) by (simp add: cfg_ok_def)
  note p = cpu_runs [OF ok sleep_step(2)]
  have "running_ok ((on_cpu g)(c := None)) (upd_proc p (\<lambda>x. x\<lparr>pchan := Some ch, pstate := SLEEPING\<rparr>) (ks g))"
    by (rule running_ok_remove [OF ok sleep_step(2)]) (simp_all add: upd_proc_def)
  then show ?thesis unfolding sleep_step(1) go_to_sleep_def
    by (intro live_cfg [OF assms(2) refl, where x = "procs (ks g) p"]) (use p sleep_step(3,4) in \<open>auto simp: alive_def in_wait_def\<close>)
next
  case (wakeup_step ch)
  then show ?thesis using quiet_cfg [OF assms(2) quiet_wakeup] by simp
next
  case (kill_step c p n s' r)
  then show ?thesis using quiet_cfg [OF assms(2) quiet_kill] by simp
next
  case (fork_step c p s' r)
  have o: "init_ok (ks g)" "running_ok (on_cpu g) (ks g)" "pid_ok (ks g)" "tree_ok (ks g)" "stage_ok (stages g) (ks g)" "wait_ok (ks g)"
    using assms(2) by (simp_all add: cfg_ok_def)
  have p: "p < NPROC" "alive (pstate (procs (ks g) p))" using cpu_runs [OF o(2) fork_step(2)] by (simp_all add: alive_def)
  show ?thesis
  proof (cases "s' = ks g")
    case True
    then show ?thesis using fork_step(1) assms(2) by simp
  next
    case False
    then obtain np where "claims (ks g) s' np"
      "pstate (procs s' np) = UNUSED \<and> parent (procs s' np) \<in> {None, parent (procs (ks g) np)} \<or>
       pstate (procs s' np) = RUNNABLE \<and> parent (procs s' np) = Some p \<and> pid (procs s' np) = nextpid (ks g)"
      using fork_effect [OF fork_step(5)] by blast
    from claims_ok [OF this(1) fork_step(4) p this(2) o] show ?thesis unfolding fork_step(1) by (simp add: cfg_ok_def)
  qed
next
  case (wait_step c p addr s' r)
  have o: "init_ok (ks g)" "running_ok (on_cpu g) (ks g)" "pid_ok (ks g)" "tree_ok (ks g)" "stage_ok (stages g) (ks g)" "wait_ok (ks g)"
    using assms(2) by (simp_all add: cfg_ok_def)
  consider (a) k where "s' = set_kmem k (ks g)" | (b) "s' = ks g"
    | (c) np k where "np < NPROC" "pstate (procs (ks g) np) = ZOMBIE" "s' = upd_proc np clear_proc (set_kmem k (ks g))"
    using wait_done_effect [OF wait_step(4)] by blast
  then show ?thesis
  proof cases
    case a
    then show ?thesis using wait_step(1) kernel_cfg [OF assms(2)] by simp
  next
    case b
    then show ?thesis using wait_step(1) assms(2) by simp
  next
    case c
    from free_ok [OF this o] show ?thesis unfolding wait_step(1) by (simp add: cfg_ok_def)
  qed
next
  case (wait_sleep_step c p addr s' i ch)
  have ok: "running_ok (on_cpu g) (ks g)" using assms(2) by (simp add: cfg_ok_def)
  note p = cpu_runs [OF ok wait_sleep_step(2)]
  note w = wait_blocked_effect [OF wait_sleep_step(4)]
  have "running_ok ((on_cpu g)(c := None)) (upd_proc p (\<lambda>x. x\<lparr>pchan := Some (ProcChan p), pstate := SLEEPING\<rparr>) (ks g))"
    by (rule running_ok_remove [OF ok wait_sleep_step(2)]) (simp_all add: upd_proc_def)
  then have "cfg_ok (g\<lparr>ks := go_to_sleep p (ProcChan p) (ks g), on_cpu := (on_cpu g)(c := None)\<rparr>)" unfolding go_to_sleep_def
    by (intro live_cfg [OF assms(2) refl, where x = "procs (ks g) p"]) (use p w wait_sleep_step(3) in \<open>auto simp: alive_def\<close>)
  then show ?thesis unfolding wait_sleep_step(1) using w by simp
next
  case (exit_release_step c p s')
  note q = quiet_exit_release [OF exit_release_step(4)]
  have ok: "running_ok (on_cpu g) (ks g)" "stage_ok (stages g) (ks g)" using assms(2) by (simp_all add: cfg_ok_def)
  note p = cpu_runs [OF ok(1) exit_release_step(2)]
  have "pstate (procs s' p) = RUNNING" using quietD(6) [OF conjunct1 [OF q], of p] p by auto
  moreover have "stage_ok (stages g) s'" using quiet_ok(5) [OF conjunct1 [OF q] ok(2)] .
  moreover have "initproc s' \<noteq> Some p" using q quietD(1) by metis
  ultimately have "stage_ok ((stages g)(p := Exiting)) s'" unfolding stage_ok_def by simp
  then show ?thesis unfolding exit_release_step(1) using quiet_cfg [OF assms(2) conjunct1 [OF q]] by (simp add: cfg_ok_def)
next
  case (exit_parent_step c p q)
  have "stage_ok (stages g) (ks g)" using assms(2) by (simp add: cfg_ok_def)
  then have "stage_ok ((stages g)(p := ParentRead q)) (ks g)" using exit_parent_step(3,4) unfolding stage_ok_def by simp
  then show ?thesis unfolding exit_parent_step(1) using assms(2) by (simp add: cfg_ok_def)
next
  case (exit_zombie_step c p q status)
  have o: "init_ok (ks g)" "running_ok (on_cpu g) (ks g)" "pid_ok (ks g)" "tree_ok (ks g)" "stage_ok (stages g) (ks g)" "wait_ok (ks g)"
    using assms(2) by (simp_all add: cfg_ok_def)
  from zombie_ok [OF exit_zombie_step(2,3) refl o] show ?thesis unfolding exit_zombie_step(1) by (simp add: cfg_ok_def)
next
  case (private_step c p s' x)
  have ok: "running_ok (on_cpu g) (ks g)" using assms(2) by (simp add: cfg_ok_def)
  note p = cpu_runs [OF ok private_step(2)]
  have "quiet (ks g) s'" by (rule quietI) (use private_step p in auto)
  then show ?thesis unfolding private_step(1) by (rule quiet_cfg [OF assms(2)])
qed

text \<open>
  The table at boot: \<^verbatim>\<open>userinit\<close> has made one process, init, with pid 1; no CPU has chosen a process yet.
\<close>

definition boot_cfg :: "cfg \<Rightarrow> bool" where
  "boot_cfg g \<longleftrightarrow> (\<exists>i < NPROC. initproc (ks g) = Some i \<and> pstate (procs (ks g) i) = RUNNABLE \<and> pid (procs (ks g) i) = 1 \<and>
       (\<forall>j < NPROC. parent (procs (ks g) j) = None \<and> (j \<noteq> i \<longrightarrow> pstate (procs (ks g) j) = UNUSED))) \<and>
     nextpid (ks g) = 2 \<and> on_cpu g = (\<lambda>_. None) \<and> stages g = (\<lambda>_. Norm)"

lemma boot_cfg_ok:
  assumes "boot_cfg g"
  shows "cfg_ok g"
proof -
  obtain i where i: "i < NPROC" "initproc (ks g) = Some i" "pstate (procs (ks g) i) = RUNNABLE" "pid (procs (ks g) i) = 1"
    and o: "\<And>j. j < NPROC \<Longrightarrow> parent (procs (ks g) j) = None" "\<And>j. j < NPROC \<Longrightarrow> j \<noteq> i \<Longrightarrow> pstate (procs (ks g) j) = UNUSED"
    and n: "nextpid (ks g) = 2" "on_cpu g = (\<lambda>_. None)" "stages g = (\<lambda>_. Norm)"
    using assms unfolding boot_cfg_def by blast
  have st: "j < NPROC \<Longrightarrow> pstate (procs (ks g) j) = (if j = i then RUNNABLE else UNUSED)" for j using i(3) o(2) by simp
  show ?thesis unfolding cfg_ok_def
    by (intro conjI; simp add: ok_defs n st i o)
qed

lemma userinit_boots:
  assumes "userinit kend tr fr name0 s0 = Ok s" "nextpid s0 = 1"
    "\<forall>i < NPROC. pstate (procs s0 i) = UNUSED \<and> parent (procs s0 i) = None"
  shows "boot_cfg \<lparr>ks = s, on_cpu = (\<lambda>_. None), stages = (\<lambda>_. Norm)\<rparr>"
proof -
  obtain s1 r where a: "allocproc kend tr fr s0 = Ok (s1, r)" using assms(1) by (auto simp: userinit_def kres_simps)
  obtain p where p: "r = Some p" using assms(1) a by (cases r) (auto simp: userinit_def)
  have c: "claims s0 s1 p" and t: "row_at s1 p = (UNUSED, parent (procs s0 p), pchan (procs s0 p), nextpid s0, killed (procs s0 p))"
    using allocproc_effect [OF a] p by auto
  obtain k w ip where u: "s = upd_proc p (\<lambda>x. x\<lparr>pcwd := ip, pstate := RUNNABLE\<rparr>)
      ((upd_proc p (\<lambda>x. x\<lparr>pname := [105, 110, 105, 116, 99, 111, 100, 101]\<rparr>)
        (tf_set p TF_SP PGSIZE (tf_set p TF_EPC 0 (upd_proc p (\<lambda>x. x\<lparr>psz := PGSIZE\<rparr>) (set_kmem k (s1\<lparr>initproc := Some p\<rparr>))))))\<lparr>world := w\<rparr>)"
    using assms(1) a p unfolding userinit_def by (auto simp: kres_simps Let_def)
  define s2 where "s2 = upd_proc p (\<lambda>x. x\<lparr>pname := [105, 110, 105, 116, 99, 111, 100, 101]\<rparr>)
        (tf_set p TF_SP PGSIZE (tf_set p TF_EPC 0 (upd_proc p (\<lambda>x. x\<lparr>psz := PGSIZE\<rparr>) (set_kmem k (s1\<lparr>initproc := Some p\<rparr>)))))"
  have s: "s = upd_proc p (\<lambda>x. x\<lparr>pcwd := ip, pstate := RUNNABLE\<rparr>) (s2\<lparr>world := w\<rparr>)" "initproc s2 = Some p" "nextpid s2 = nextpid s1"
    using u by (simp_all add: s2_def tf_set_def)
  have s4: "row_at s2 i = row_at s1 i" for i
    unfolding s2_def by (cases "i = p") (simp_all add: row_at_def tf_set_def upd_proc_def set_kmem_def)
  have n: "nextpid s1 = 2" using c assms(2) s32_id [of 2] by (simp add: claims_def)
  have o: "i \<noteq> p \<Longrightarrow> row_at s2 i = row_at s0 i" for i using s4 c by (simp add: claims_def)
  have pp: "p < NPROC" using c by (simp add: claims_def)
  have sp: "row_at s p = (RUNNABLE, None, pchan (procs s0 p), 1, killed (procs s0 p))"
    using s(1) s4 [of p] t assms(2,3) pp by (simp add: row_at_upd) (simp add: row_at_def)
  have so: "i \<noteq> p \<Longrightarrow> row_at s i = row_at s0 i" for i using s(1) o by (simp add: row_at_upd)
  have "\<forall>j < NPROC. parent (procs s j) = None \<and> (j \<noteq> p \<longrightarrow> pstate (procs s j) = UNUSED)"
  proof (intro allI impI)
    fix j assume "j < NPROC"
    then show "parent (procs s j) = None \<and> (j \<noteq> p \<longrightarrow> pstate (procs s j) = UNUSED)"
      using sp so [of j] assms(3) by (cases "j = p") (simp_all add: row_at_def)
  qed
  moreover have "pstate (procs s p) = RUNNABLE" "pid (procs s p) = 1" using sp by (simp_all add: row_at_def)
  moreover have "initproc s = Some p" "nextpid s = 2" using s n by simp_all
  ultimately show ?thesis unfolding boot_cfg_def using pp by (intro conjI exI [of _ p]) simp_all
qed

lemma reachable_cfg_ok:
  assumes "(pstep kend tr fr)\<^sup>*\<^sup>* g0 g" "boot_cfg g0"
  shows "cfg_ok g"
  using assms(1)
proof (induction rule: rtranclp_induct)
  case base
  then show ?case by (rule boot_cfg_ok [OF assms(2)])
next
  case (step g g')
  then show ?case using pstep_cfg_ok by blast
qed

text \<open>
  C2. The process table is consistent in every interleaving of the scheduler, \<^verbatim>\<open>fork\<close>, \<^verbatim>\<open>exit\<close>, \<^verbatim>\<open>wait\<close>, \<^verbatim>\<open>sleep\<close>, \<^verbatim>\<open>wakeup\<close>, \<^verbatim>\<open>kill\<close> and
  \<^verbatim>\<open>yield\<close> on any CPUs, from boot and as long as the counter of pids has not reached its largest value: the processes in state \<^verbatim>\<open>RUNNING\<close> are those some CPU runs, and
  no two CPUs run the same one; no two processes have the same pid; every process but init has a parent that is
  neither free nor a zombie; and no wakeup from an exiting child is lost: no process but init sleeps in \<^verbatim>\<open>wait\<close> while it
  has a zombie child or is killed.
\<close>

theorem process_table_safe:
  assumes "boot_cfg g0" "(pstep kend tr fr)\<^sup>*\<^sup>* g0 g"
  shows "(\<forall>p < NPROC. pstate (procs (ks g) p) = RUNNING \<longleftrightarrow> (\<exists>c. on_cpu g c = Some p)) \<and>
    (\<forall>c d p. on_cpu g c = Some p \<and> on_cpu g d = Some p \<longrightarrow> c = d) \<and>
    (\<forall>p < NPROC. \<forall>q < NPROC. pstate (procs (ks g) p) \<noteq> UNUSED \<and> pstate (procs (ks g) q) \<noteq> UNUSED \<and>
       pid (procs (ks g) p) = pid (procs (ks g) q) \<longrightarrow> p = q) \<and>
    (\<forall>p < NPROC. pstate (procs (ks g) p) \<noteq> UNUSED \<and> initproc (ks g) \<noteq> Some p \<longrightarrow>
       (\<exists>q < NPROC. parent (procs (ks g) p) = Some q \<and> pstate (procs (ks g) q) \<notin> {UNUSED, ZOMBIE})) \<and>
    (\<forall>p < NPROC. in_wait (ks g) p \<and> initproc (ks g) \<noteq> Some p \<longrightarrow> \<not> killed (procs (ks g) p) \<and>
       (\<forall>k < NPROC. parent (procs (ks g) k) = Some p \<longrightarrow> pstate (procs (ks g) k) \<noteq> ZOMBIE))"
proof -
  have ok: "cfg_ok g" by (rule reachable_cfg_ok [OF assms(2,1)])
  have "\<exists>q < NPROC. parent (procs (ks g) p) = Some q \<and> pstate (procs (ks g) q) \<notin> {UNUSED, ZOMBIE}"
    if "p < NPROC" "pstate (procs (ks g) p) \<noteq> UNUSED" "initproc (ks g) \<noteq> Some p" for p
  proof -
    have t: "tree_ok (ks g)" using ok by (simp add: cfg_ok_def)
    have "parent (procs (ks g) p) \<noteq> None" by (rule tree_ok_parent [OF t that])
    then obtain q where "parent (procs (ks g) p) = Some q" by blast
    then show ?thesis using tree_okD [OF t that(1)] by auto
  qed
  moreover have "\<forall>c d p. on_cpu g c = Some p \<and> on_cpu g d = Some p \<longrightarrow> c = d"
    using ok unfolding cfg_ok_def running_ok_def by blast
  moreover have "\<forall>p < NPROC. pstate (procs (ks g) p) = RUNNING \<longleftrightarrow> (\<exists>c. on_cpu g c = Some p)"
    using ok by (simp add: cfg_ok_def running_ok_def)
  moreover have "\<forall>p < NPROC. \<forall>q < NPROC. pstate (procs (ks g) p) \<noteq> UNUSED \<and> pstate (procs (ks g) q) \<noteq> UNUSED \<and>
       pid (procs (ks g) p) = pid (procs (ks g) q) \<longrightarrow> p = q"
    using ok unfolding cfg_ok_def pid_ok_def by blast
  moreover have "\<forall>p < NPROC. in_wait (ks g) p \<and> initproc (ks g) \<noteq> Some p \<longrightarrow> \<not> killed (procs (ks g) p) \<and>
       (\<forall>k < NPROC. parent (procs (ks g) k) = Some p \<longrightarrow> pstate (procs (ks g) k) \<noteq> ZOMBIE)"
    using ok unfolding cfg_ok_def wait_ok_def by blast
  ultimately show ?thesis by blast
qed

text \<open>A table at boot: entry 0 is init.\<close>

definition demo_proc :: proc where
  "demo_proc = \<lparr>pstate = UNUSED, parent = None, pchan = None, killed = False, xstate = 0, pid = 0, kstack = 0, psz = 0, pagetable = 0,
     trapframe = 0, pcontext = \<lparr>ctx_ra = 0, ctx_sp = 0, ctx_s = (\<lambda>_. 0)\<rparr>, ofile = (\<lambda>_. None), pcwd = None, pname = []\<rparr>"

definition demo_kst :: "file_st \<Rightarrow> kst" where
  "demo_kst w = \<lparr>procs = (\<lambda>_. demo_proc)(0 := demo_proc\<lparr>pstate := RUNNABLE, pid := 1, pcwd := Some 0\<rparr>), initproc = Some 0,
     nextpid = 2, first_ret = True, ticks = 0, world = w\<rparr>"

theorem process_table_safe_witness:
  "\<forall>w. \<exists>g. (pstep 0 0 0)\<^sup>*\<^sup>* \<lparr>ks = demo_kst w, on_cpu = (\<lambda>_. None), stages = (\<lambda>_. Norm)\<rparr> g \<and> on_cpu g 3 = Some 0 \<and>
    pstate (procs (ks g) 0) = RUNNING \<and> (\<forall>d. on_cpu g d = Some 0 \<longrightarrow> d = 3)"
proof
  fix w
  let ?g = "\<lparr>ks = demo_kst w, on_cpu = (\<lambda>_. None), stages = (\<lambda>_. Norm)\<rparr>"
  let ?h = "?g\<lparr>ks := after_sleep 0 (upd_proc 0 (\<lambda>x. x\<lparr>pstate := RUNNING\<rparr>) (demo_kst w)), on_cpu := (on_cpu ?g)(3 \<mapsto> 0)\<rparr>"
  have b: "boot_cfg ?g" by (auto simp: boot_cfg_def demo_kst_def demo_proc_def)
  have "pstep 0 0 0 ?g ?h" by (rule pstep.run_step) (simp_all add: schedule_def demo_kst_def demo_proc_def)
  then have s: "(pstep 0 0 0)\<^sup>*\<^sup>* ?g ?h" by blast
  note t = process_table_safe [OF b s]
  have c: "on_cpu ?h 3 = Some 0" by simp
  have "pstate (procs (ks ?h) 0) = RUNNING" using conjunct1 [OF t, rule_format, of 0] c by simp
  moreover have "\<forall>d. on_cpu ?h d = Some 0 \<longrightarrow> d = 3" using conjunct1 [OF conjunct2 [OF t], rule_format, of _ 0 3] c by blast
  ultimately show "\<exists>g. (pstep 0 0 0)\<^sup>*\<^sup>* ?g g \<and> on_cpu g 3 = Some 0 \<and> pstate (procs (ks g) 0) = RUNNING \<and> (\<forall>d. on_cpu g d = Some 0 \<longrightarrow> d = 3)"
    using s c by (intro exI [of _ ?h] conjI)
qed

section \<open>Kill\<close>

text \<open>
  C35. \<^verbatim>\<open>kill(0)\<close> kills a process that does not exist yet: free entries of the table have pid 0, so \<^verbatim>\<open>kill\<close> reports success
  and marks the first of them, which is the one the next \<^verbatim>\<open>fork\<close> takes, and neither \<^verbatim>\<open>allocproc\<close> nor \<^verbatim>\<open>fork\<close> clears the
  mark. The next child, if it can be made at all, is born killed.
\<close>

theorem kill_zero_marks_next_child:
  assumes "\<forall>i < NPROC. pid (procs s i) = 0 \<longleftrightarrow> pstate (procs s i) = UNUSED"
    and np: "scan NPROC 0 (\<lambda>i. pstate (procs s i) = UNUSED) = Some np"
  shows "\<exists>s'. kill 0 s = (s', 0) \<and> pstate (procs s' np) = UNUSED \<and> killed (procs s' np) \<and>
    \<not> (\<exists>s'' r. fork kend tr fr p s' = Ok (s'', r) \<and> r \<noteq> - 1 \<and>
        \<not> (pid (procs s'' np) = r \<and> pstate (procs s'' np) = RUNNABLE \<and> killed (procs s'' np)))"
proof -
  have n: "np < NPROC" "pstate (procs s np) = UNUSED" "\<forall>j < np. pstate (procs s j) \<noteq> UNUSED" using np [unfolded scan_Some] by blast+
  have k: "scan NPROC 0 (\<lambda>i. pid (procs s i) = 0) = Some np" unfolding scan_Some using n assms(1) by auto
  let ?s = "upd_proc np (\<lambda>x. x\<lparr>killed := True, pstate := (if pstate x = SLEEPING then RUNNABLE else pstate x)\<rparr>) s"
  have u: "pstate (procs ?s i) = UNUSED \<longleftrightarrow> pstate (procs s i) = UNUSED" for i using n(2) by (simp add: upd_proc_def)
  have c: "np' = np" if "claims ?s s'' np'" for s'' np' using that np unfolding claims_def u by simp
  have "pid (procs s'' np) = r \<and> pstate (procs s'' np) = RUNNABLE \<and> killed (procs s'' np)"
    if f: "fork kend tr fr p ?s = Ok (s'', r)" "r \<noteq> - 1" for s'' r
  proof -
    obtain np' where w: "claims ?s s'' np'" "r = nextpid ?s" "pstate (procs s'' np') = RUNNABLE" "pid (procs s'' np') = nextpid ?s"
      "killed (procs s'' np') = killed (procs ?s np')" using fork_effect [OF f(1)] f(2) by blast
    then show ?thesis using c [OF w(1)] by simp
  qed
  moreover have "kill 0 s = (?s, 0)" using k by (simp add: kill_def)
  ultimately show ?thesis using n(2) by (intro exI [of _ ?s]) auto
qed

theorem kill_zero_marks_next_child_witness:
  "\<forall>w. \<exists>s'. kill 0 (demo_kst w) = (s', 0) \<and> pstate (procs s' 1) = UNUSED \<and> killed (procs s' 1) \<and>
    \<not> (\<exists>s'' r. fork 0 0 0 0 s' = Ok (s'', r) \<and> r \<noteq> - 1 \<and>
        \<not> (pid (procs s'' 1) = r \<and> pstate (procs s'' 1) = RUNNABLE \<and> killed (procs s'' 1)))"
proof
  fix w
  have "\<forall>i < NPROC. pid (procs (demo_kst w) i) = 0 \<longleftrightarrow> pstate (procs (demo_kst w) i) = UNUSED" by (simp add: demo_kst_def demo_proc_def)
  moreover have "scan NPROC 0 (\<lambda>i. pstate (procs (demo_kst w) i) = UNUSED) = Some 1"
    unfolding scan_Some by (simp add: demo_kst_def demo_proc_def)
  ultimately show "\<exists>s'. kill 0 (demo_kst w) = (s', 0) \<and> pstate (procs s' 1) = UNUSED \<and> killed (procs s' 1) \<and>
    \<not> (\<exists>s'' r. fork 0 0 0 0 s' = Ok (s'', r) \<and> r \<noteq> - 1 \<and>
        \<not> (pid (procs s'' 1) = r \<and> pstate (procs s'' 1) = RUNNABLE \<and> killed (procs s'' 1)))"
    by (rule kill_zero_marks_next_child)
qed

end
