(* ===== verification/Ulib.thy ===== *)
theory Ulib
  imports Kstring
begin

text \<open>
  The C library of the user programs, \<^verbatim>\<open>user/ulib.c\<close> and \<^verbatim>\<open>user/printf.c\<close>. Names that \<^verbatim>\<open>kernel/string.c\<close>
  also has get the prefix \<open>u\<close>. A string that is only read is the function giving its characters, or the list of
  its characters before the NUL. System calls are arguments; what is written is the list of bytes
  in the order of the \<^verbatim>\<open>write\<close> calls. \<^verbatim>\<open>char\<close> is unsigned on RISC-V.
\<close>

section \<open>Strings and memory\<close>

partial_function (option) strcpy :: "mem \<Rightarrow> u64 \<Rightarrow> u64 \<Rightarrow> mem option" where
  "strcpy m s t = (if m t \<noteq> 0 then strcpy (m(s := m t)) (s + 1) (t + 1) else Some (m(s := m t)))"

partial_function (option) strcmp :: "(nat \<Rightarrow> u8) \<Rightarrow> (nat \<Rightarrow> u8) \<Rightarrow> int option" where
  "strcmp p q =
     (if p 0 \<noteq> 0 \<and> p 0 = q 0 then strcmp (\<lambda>i. p (Suc i)) (\<lambda>i. q (Suc i))
      else Some (uint (p 0) - uint (q 0)))"

definition ustrlen :: "(nat \<Rightarrow> u8) \<Rightarrow> nat option" where
  "ustrlen s = strlen_from s 0"

definition umemset :: "mem \<Rightarrow> u64 \<Rightarrow> u8 \<Rightarrow> nat \<Rightarrow> mem" where
  "umemset m dst c n = memset_loop m dst c 0 n"

text \<open>\<open>strchr\<close> returns the rest of the string from the character found.\<close>

primrec strchr :: "u8 list \<Rightarrow> u8 \<Rightarrow> u8 list option" where
  "strchr [] c = None"
| "strchr (x # xs) c = (if x = c then Some (x # xs) else strchr xs c)"

text \<open>\<open>gets\<close> reads the bytes \<open>inp\<close> of standard input one at a time: the line and the input left.\<close>

fun gets_loop :: "nat \<Rightarrow> nat \<Rightarrow> u8 list \<Rightarrow> u8 list \<times> u8 list" where
  "gets_loop i mx [] = ([], [])"
| "gets_loop i mx (c # inp) =
     (if i + 1 < mx
      then if c = 10 \<or> c = 13 then ([c], inp)
           else case gets_loop (Suc i) mx inp of (l, r) \<Rightarrow> (c # l, r)
      else ([], c # inp))"

definition gets :: "int \<Rightarrow> u8 list \<Rightarrow> u8 list \<times> u8 list" where
  "gets mx inp = gets_loop 0 (nat mx) inp"

definition ustat :: "('p \<Rightarrow> int \<Rightarrow> 's \<Rightarrow> 's \<times> int) \<Rightarrow> (int \<Rightarrow> 's \<Rightarrow> 's \<times> 'st \<times> int) \<Rightarrow> (int \<Rightarrow> 's \<Rightarrow> 's) \<Rightarrow>
    'p \<Rightarrow> 'st \<Rightarrow> 's \<Rightarrow> 's \<times> 'st \<times> int" where
  "ustat open fstat close n st s =
     (case open n 0 s of (s, fd) \<Rightarrow>
        if fd < 0 then (s, st, - 1)
        else case fstat fd s of (s, st, r) \<Rightarrow> (close fd s, st, r))"

fun atoi_loop :: "u32 \<Rightarrow> u8 list \<Rightarrow> u32" where
  "atoi_loop n [] = n"
| "atoi_loop n (c # s) = (if 48 \<le> c \<and> c \<le> 57 then atoi_loop (n * 10 + ucast c - 48) s else n)"

definition atoi :: "u8 list \<Rightarrow> int" where
  "atoi s = sint (atoi_loop 0 s)"

definition umemmove :: "mem \<Rightarrow> u64 \<Rightarrow> u64 \<Rightarrow> int \<Rightarrow> mem" where
  "umemmove m dst src n =
     (if src > dst then memmove_up m dst src (nat n)
      else memmove_down m (dst + of_int n) (src + of_int n) (nat n))"

primrec umemcmp :: "mem \<Rightarrow> u64 \<Rightarrow> u64 \<Rightarrow> nat \<Rightarrow> int" where
  "umemcmp m p1 p2 0 = 0"
| "umemcmp m p1 p2 (Suc n) =
     (if m p1 \<noteq> m p2 then uint (m p1) - uint (m p2) else umemcmp m (p1 + 1) (p2 + 1) n)"

definition umemcpy :: "mem \<Rightarrow> u64 \<Rightarrow> u64 \<Rightarrow> nat \<Rightarrow> mem" where
  "umemcpy m dst src n = umemmove m dst src (int n)"

section \<open>Formatted output\<close>

definition digits :: "u8 list" where
  "digits = [48, 49, 50, 51, 52, 53, 54, 55, 56, 57, 65, 66, 67, 68, 69, 70]"

text \<open>The characters \<^verbatim>\<open>printint\<close> puts into \<^verbatim>\<open>buf\<close>, lowest digit first.\<close>

partial_function (option) printint_loop :: "u8 list \<Rightarrow> u32 \<Rightarrow> u32 \<Rightarrow> u8 list option" where
  "printint_loop digs x base =
     (if x div base \<noteq> 0
      then Option.bind (printint_loop digs (x div base) base) (\<lambda>cs. Some (digs ! unat (x mod base) # cs))
      else Some [digs ! unat (x mod base)])"

definition printint :: "u32 \<Rightarrow> u32 \<Rightarrow> bool \<Rightarrow> u8 list option" where
  "printint xx base sg =
     (let neg = (sg \<and> sint xx < 0);
          x = (if neg then - xx else xx)
      in Option.bind (printint_loop digits x base) (\<lambda>buf.
           Some (rev (if neg then buf @ [45] else buf))))"

primrec printptr_loop :: "nat \<Rightarrow> u64 \<Rightarrow> u8 list" where
  "printptr_loop 0 x = []"
| "printptr_loop (Suc n) x = digits ! unat (drop_bit 60 x) # printptr_loop n (push_bit 4 x)"

definition printptr :: "u64 \<Rightarrow> u8 list" where
  "printptr x = [48, 120] @ printptr_loop 16 x"

text \<open>The next variadic argument: a number or a string (\<open>None\<close> is a null pointer).\<close>

datatype varg = Num u64 | Str "u8 list option"

text \<open>
  One conversion \<^verbatim>\<open>%c\<close>: what it prints and the arguments left. A missing argument or one of the wrong
  kind is undefined behaviour of the C code, \<open>None\<close> here.
\<close>

definition conversion :: "u8 \<Rightarrow> varg list \<Rightarrow> (u8 list \<times> varg list) option" where
  "conversion c ap =
     (if c = 100 then
        (case ap of Num v # ap \<Rightarrow> map_option (\<lambda>o1. (o1, ap)) (printint (ucast v) 10 True) | _ \<Rightarrow> None)
      else if c = 108 then
        (case ap of Num v # ap \<Rightarrow> map_option (\<lambda>o1. (o1, ap)) (printint (ucast v) 10 False) | _ \<Rightarrow> None)
      else if c = 120 then
        (case ap of Num v # ap \<Rightarrow> map_option (\<lambda>o1. (o1, ap)) (printint (ucast v) 16 False) | _ \<Rightarrow> None)
      else if c = 112 then (case ap of Num v # ap \<Rightarrow> Some (printptr v, ap) | _ \<Rightarrow> None)
      else if c = 115 then
        (case ap of Str (Some s) # ap \<Rightarrow> Some (s, ap)
         | Str None # ap \<Rightarrow> Some ([40, 110, 117, 108, 108, 41], ap) | _ \<Rightarrow> None)
      else if c = 99 then (case ap of Num v # ap \<Rightarrow> Some ([ucast v], ap) | _ \<Rightarrow> None)
      else if c = 37 then Some ([c], ap)
      else Some ([37, c], ap))"

fun vprintf_loop :: "bool \<Rightarrow> u8 list \<Rightarrow> varg list \<Rightarrow> u8 list option" where
  "vprintf_loop st [] ap = Some []"
| "vprintf_loop False (c # fmt) ap =
     (if c = 37 then vprintf_loop True fmt ap
      else map_option (\<lambda>rest. c # rest) (vprintf_loop False fmt ap))"
| "vprintf_loop True (c # fmt) ap =
     (case conversion c ap of
        None \<Rightarrow> None
      | Some (o1, ap) \<Rightarrow> map_option (\<lambda>rest. o1 @ rest) (vprintf_loop False fmt ap))"

definition vprintf :: "u8 list \<Rightarrow> varg list \<Rightarrow> u8 list option" where
  "vprintf fmt ap = vprintf_loop False fmt ap"

text \<open>What \<^verbatim>\<open>fprintf\<close> writes to which file descriptor; \<^verbatim>\<open>printf\<close> is \<^verbatim>\<open>fprintf\<close> to 1.\<close>

definition fprintf :: "int \<Rightarrow> u8 list \<Rightarrow> varg list \<Rightarrow> (int \<times> u8 list) option" where
  "fprintf fd fmt ap = map_option (\<lambda>out. (fd, out)) (vprintf fmt ap)"

definition printf :: "u8 list \<Rightarrow> varg list \<Rightarrow> (int \<times> u8 list) option" where
  "printf fmt ap = map_option (\<lambda>out. (1, out)) (vprintf fmt ap)"

section \<open>Block moves\<close>

lemma wrap_free_ne:
  fixes d s :: u64
  assumes "i < j" "unat s + j < 2 ^ 64" "unat d + j < 2 ^ 64" "d \<le> s" 
  shows "d + of_nat i \<noteq> s + of_nat j"
proof
  assume e: "d + of_nat i = s + of_nat j"
  have "unat (d + of_nat i) = unat d + i" using assms by (intro unat_plus_nat) simp
  moreover have "unat (s + of_nat j) = unat s + j" using assms by (intro unat_plus_nat) simp
  moreover have "unat d \<le> unat s" using assms(4) by (simp add: word_le_nat_alt)
  ultimately show False using e assms(1) by simp
qed

text \<open>
  C30. The library's \<^verbatim>\<open>memmove\<close>, which chooses the direction by comparing the addresses only, computes the same
  memory as the kernel's, which tests for an overlap, and as an unordered copy of the bytes.
\<close>

theorem umemmove_equiv_memmove:
  assumes "unat dst + n < 2 ^ 64" and "unat src + n < 2 ^ 64"
  shows "umemmove m dst src (int n) = memmove m dst src n \<and> umemmove m dst src (int n) = mwrite m dst (mread m src n)"
proof -
  have "umemmove m dst src (int n) = mwrite m dst (mread m src n)"
  proof (cases "src > dst")
    case True
    have "dst + of_nat j \<noteq> src + of_nat i" if "j < i" "i < n" for i j
      using that assms True by (intro wrap_free_ne) simp_all
    then have "memmove_up m dst src n = mwrite m dst (mread m src n)"
      using assms by (intro memmove_up_eq) auto
    then show ?thesis using True by (simp add: umemmove_def)
  next
    case False
    have ne: "dst + of_nat j \<noteq> src + of_nat i" if "i < j" "j < n" for i j
      using that assms False by (intro wrap_free_ne [symmetric]) simp_all
    then have "memmove_down m (dst + of_nat n) (src + of_nat n) n = mwrite m dst (mread m src n)"
      using assms by (intro memmove_down_eq) auto
    then show ?thesis using False by (simp add: umemmove_def)
  qed
  moreover have "memmove m dst src n = mwrite m dst (mread m src n)"
    using assms by (intro memmove_eq) (simp_all add: no_wrap_def)
  ultimately show ?thesis by simp
qed

theorem umemmove_equiv_memmove_witness:
  "umemmove (\<lambda>x. ucast x) 102 100 4 = memmove (\<lambda>x. ucast x) 102 100 4 \<and>
    mread (umemmove (\<lambda>x. ucast x) 102 100 4) 102 4 = [100, 101, 102, 103]"
proof -
  have e: "umemmove (\<lambda>x. ucast x) 102 100 (int 4) = memmove (\<lambda>x. ucast x) 102 100 4 \<and>
      umemmove (\<lambda>x. ucast x) 102 100 (int 4) = mwrite (\<lambda>x. ucast x) 102 (mread (\<lambda>x. ucast x) 100 4)"
    by (rule umemmove_equiv_memmove) simp_all
  have r: "mread (mwrite (\<lambda>x. ucast x) 102 (mread (\<lambda>x. ucast x) 100 4)) 102 4 = mread (\<lambda>x. ucast x) (100 :: u64) 4"
    by (rule mread_mwrite_same) simp_all
  have "mread (\<lambda>x. ucast x) (100 :: u64) 4 = [100, 101, 102, 103]" by (simp add: mread_def upt_rec)
  then show ?thesis using e r by (metis of_nat_numeral)
qed

section \<open>Printing and reading numbers\<close>

text \<open>The digits of a number, lowest first.\<close>

function ndigits :: "nat \<Rightarrow> nat \<Rightarrow> nat list" where
  "ndigits b n = (if 1 < b \<and> n div b \<noteq> 0 then n mod b # ndigits b (n div b) else [n mod b])"
  by pat_completeness auto
termination
  by (relation "measure snd") (auto simp: div_less_dividend div_greater_zero_iff)

declare ndigits.simps [simp del]

lemma printint_loop_eq:
  "1 < unat base \<Longrightarrow> printint_loop digs x base = Some (map (\<lambda>d. digs ! d) (ndigits (unat base) (unat x)))"
proof (induction "unat base" "unat x" arbitrary: x rule: ndigits.induct)
  case 1
  have nz: "x div base = 0 \<longleftrightarrow> unat x div unat base = 0" by (simp add: unat_eq_0 [symmetric] unat_div)
  show ?case
  proof (cases "x div base = 0")
    case True
    then show ?thesis using nz by (subst printint_loop.simps, subst ndigits.simps) (simp add: unat_mod)
  next
    case False
    have "printint_loop digs (x div base) base = Some (map (\<lambda>d. digs ! d) (ndigits (unat base) (unat (x div base))))"
      using 1 False nz by (intro 1(1)) (simp_all add: unat_div)
    then show ?thesis
      using False nz 1(2) by (subst printint_loop.simps, subst ndigits.simps) (simp add: unat_mod unat_div)
  qed
qed

lemma ndigits_bound: "1 < b \<Longrightarrow> set (ndigits b n) \<subseteq> {..<b}"
  by (induction b n rule: ndigits.induct) (subst ndigits.simps, auto)

lemma length_ndigits: "1 < b \<Longrightarrow> n < b ^ Suc k \<Longrightarrow> length (ndigits b n) \<le> Suc k"
proof (induction k arbitrary: n)
  case 0
  then show ?case by (subst ndigits.simps) simp
next
  case (Suc k)
  then have "n div b < b ^ Suc k" by (simp add: less_mult_imp_div_less mult.commute)
  then show ?case using Suc by (subst ndigits.simps) simp
qed

lemma digits_nth: "d < 10 \<Longrightarrow> digits ! d = of_nat (48 + d)"
proof -
  assume "d < 10"
  then have "d \<in> {0, 1, 2, 3, 4, 5, 6, 7, 8, 9}" by auto
  then show ?thesis by (auto simp: digits_def)
qed

lemma atoi_loop_snoc:
  "(\<And>c. c \<in> set cs \<Longrightarrow> 48 \<le> c \<and> c \<le> 57) \<Longrightarrow> atoi_loop a (cs @ s) = atoi_loop (atoi_loop a cs) s"
  by (induction cs arbitrary: a) auto

lemma digit_char:
  assumes "d < 10"
  shows "48 \<le> (of_nat (48 + d) :: u8)" "(of_nat (48 + d) :: u8) \<le> 57" "ucast (of_nat (48 + d) :: u8) = (of_nat (48 + d) :: u32)"
proof -
  have u: "unat (of_nat (48 + d) :: u8) = 48 + d" using assms by (simp only: unat_of_nat) (simp add: take_bit_nat_eq_self)
  show "48 \<le> (of_nat (48 + d) :: u8)" "(of_nat (48 + d) :: u8) \<le> 57" unfolding word_le_nat_alt u using assms by simp_all
  show "ucast (of_nat (48 + d) :: u8) = (of_nat (48 + d) :: u32)"
    by (rule word_unat_eq_iff [THEN iffD2]) (use u assms in \<open>simp add: unsigned_ucast_eq unat_of_nat take_bit_nat_eq_self del: of_nat_add\<close>)
qed

lemma atoi_digits:
  "atoi_loop 0 (map (\<lambda>d. of_nat (48 + d)) (rev (ndigits 10 n))) = of_nat n"
proof (induction "10 :: nat" n rule: ndigits.induct)
  case (1 n)
  let ?c = "\<lambda>d. of_nat (48 + d) :: u8"
  have step: "atoi_loop a [?c (n mod 10)] = a * 10 + of_nat (n mod 10)" for a
    using digit_char [of "n mod 10"] by (simp del: of_nat_add) simp
  show ?case
  proof (cases "n div 10 = 0")
    case True
    then show ?thesis using step [of 0] by (subst ndigits.simps) simp
  next
    case False
    have dig: "48 \<le> c \<and> c \<le> 57" if "c \<in> set (map ?c (rev (ndigits 10 (n div 10))))" for c
      using that ndigits_bound [of 10 "n div 10"] digit_char by auto
    have "atoi_loop 0 (map ?c (rev (ndigits 10 n))) =
        atoi_loop 0 (map ?c (rev (ndigits 10 (n div 10))) @ [?c (n mod 10)])"
      using False by (subst ndigits.simps) simp
    also have "\<dots> = atoi_loop (of_nat (n div 10)) [?c (n mod 10)]"
      using 1 False by (subst atoi_loop_snoc [OF dig]) simp_all
    also have "\<dots> = of_nat (n div 10) * 10 + of_nat (n mod 10)" by (rule step)
    also have "\<dots> = of_nat (n div 10 * 10 + n mod 10)" by (simp only: of_nat_add of_nat_mult of_nat_numeral)
    finally show ?thesis by simp
  qed
qed

text \<open>
  C24. \<^verbatim>\<open>printf("%d")\<close> and \<^verbatim>\<open>atoi\<close> are inverse: for every 32-bit value the conversion terminates and prints the sign
  and at most ten digits, within the 16 bytes of its buffer, and \<^verbatim>\<open>atoi\<close> of the digits is the absolute value,
  for the least integer too, whose negation wraps.
\<close>

theorem printf_d_atoi:
  "\<exists>ds. vprintf [37, 100] [Num v] = Some ((if sint (ucast v :: u32) < 0 then [45] else []) @ ds) \<and>
    length ds \<le> 10 \<and> ds \<noteq> [] \<and>
    atoi ds = (if sint (ucast v :: u32) < 0 then sint (- ucast v :: u32) else sint (ucast v :: u32))"
proof -
  let ?x = "ucast v :: u32"
  define y where "y = (if sint ?x < 0 then - ?x else ?x)"
  define ds where "ds = map (\<lambda>d. of_nat (48 + d) :: u8) (rev (ndigits 10 (unat y)))"
  have "map (\<lambda>d. digits ! d) (ndigits 10 (unat y)) = map (\<lambda>d. of_nat (48 + d)) (ndigits 10 (unat y))"
    using ndigits_bound [of 10 "unat y"] digits_nth by (intro map_cong) auto
  then have "printint_loop digits y 10 = Some (rev ds)"
    using printint_loop_eq [of 10 digits y] by (simp add: ds_def rev_map)
  then have "vprintf [37, 100] [Num v] = Some ((if sint ?x < 0 then [45] else []) @ ds)"
    by (simp add: vprintf_def conversion_def printint_def Let_def y_def split: if_splits)
  moreover have "length ds \<le> 10"
    using length_ndigits [of 10 "unat y" 9] unat_lt2p32 [of y] by (simp add: ds_def)
  moreover have "ds \<noteq> []" unfolding ds_def by (subst ndigits.simps) simp
  moreover have "atoi ds = sint y" using atoi_digits [of "unat y"] by (simp add: atoi_def ds_def)
  ultimately show ?thesis by (auto simp: y_def)
qed

end
