(* ===== verification/Grep.thy ===== *)
theory Grep
  imports Ulib
begin

text \<open>
  \<^verbatim>\<open>user/grep.c\<close>: the regular-expression matcher and the loop that finds the matching lines of a file. Pattern and
  text are lists of characters without the terminating NUL. \<open>rd i\<close> is the number of bytes the \<open>i\<close>-th \<^verbatim>\<open>read\<close> is
  willing to return beyond the first; a \<^verbatim>\<open>read\<close> returns nothing only at the end of the file or when it is asked
  for nothing.
\<close>

section \<open>The matcher\<close>

function matchhere :: "u8 list \<Rightarrow> u8 list \<Rightarrow> bool" and matchstar :: "u8 \<Rightarrow> u8 list \<Rightarrow> u8 list \<Rightarrow> bool" where
  "matchhere re text =
     (if re = [] then True
      else if tl re \<noteq> [] \<and> hd (tl re) = 42 then matchstar (hd re) (tl (tl re)) text
      else if hd re = 36 \<and> tl re = [] then text = []
      else if text \<noteq> [] \<and> (hd re = 46 \<or> hd re = hd text) then matchhere (tl re) (tl text)
      else False)"
| "matchstar c re text =
     (if matchhere re text then True
      else if text \<noteq> [] \<and> (hd text = c \<or> c = 46) then matchstar c re (tl text)
      else False)"
  by pat_completeness auto
termination
  by (relation "measures [\<lambda>x. case x of Inl (re, text) \<Rightarrow> length re | Inr (c, re, text) \<Rightarrow> length re,
      \<lambda>x. case x of Inl (re, text) \<Rightarrow> length text | Inr (c, re, text) \<Rightarrow> length text,
      \<lambda>x. case x of Inl _ \<Rightarrow> 0 | Inr _ \<Rightarrow> 1]") (auto simp: less_diff_conv2)

declare matchhere.simps [simp del] matchstar.simps [simp del]

text \<open>The loop of \<^verbatim>\<open>match\<close> looks at every suffix of the text, the empty one included.\<close>

primrec match_loop :: "u8 list \<Rightarrow> u8 list \<Rightarrow> bool" where
  "match_loop re [] \<longleftrightarrow> matchhere re []"
| "match_loop re (c # text) \<longleftrightarrow> matchhere re (c # text) \<or> match_loop re text"

definition match :: "u8 list \<Rightarrow> u8 list \<Rightarrow> bool" where
  "match re text = (if re \<noteq> [] \<and> hd re = 94 then matchhere (tl re) text else match_loop re text)"

section \<open>The lines of a file\<close>

text \<open>
  The inner loop of \<^verbatim>\<open>grep\<close> on the buffer from \<open>p\<close> on: what it writes and what is left after the last newline.
  \<^verbatim>\<open>strchr\<close> stops at a NUL in the data.
\<close>

function grep_lines :: "u8 list \<Rightarrow> u8 list \<Rightarrow> u8 list \<times> u8 list" where
  "grep_lines pattern p =
     (let s = takeWhile (\<lambda>c. c \<noteq> 0) p in
      case strchr s 10 of
        None \<Rightarrow> ([], p)
      | Some q \<Rightarrow>
          let line = take (length s - length q) p;
              rest = drop (length line + 1) p
          in case grep_lines pattern rest of (out, r) \<Rightarrow>
               ((if match pattern line then line @ [10] else []) @ out, r))"
  by pat_completeness auto
termination
proof (relation "measure (\<lambda>(pattern, p). length p)", goal_cases)
  case (2 pattern p s q line rest)
  then have "p \<noteq> []" by auto
  then show ?case using 2 by simp
qed simp

declare grep_lines.simps [simp del]

abbreviation grep_bufsize :: nat where "grep_bufsize \<equiv> 1024"

function grep_loop :: "(nat \<Rightarrow> nat) \<Rightarrow> nat \<Rightarrow> u8 list \<Rightarrow> u8 list \<Rightarrow> u8 list \<Rightarrow> u8 list" where
  "grep_loop rd i pattern buf inp =
     (let n = min (Suc (rd i)) (min (grep_bufsize - length buf - 1) (length inp)) in
      if n > 0
      then case grep_lines pattern (buf @ take n inp) of (out, buf) \<Rightarrow>
             out @ grep_loop rd (Suc i) pattern buf (drop n inp)
      else [])"
  by pat_completeness auto
termination
  by (relation "measure (\<lambda>(rd, i, pattern, buf, inp). length inp)") auto

declare grep_loop.simps [simp del]

definition grep :: "(nat \<Rightarrow> nat) \<Rightarrow> u8 list \<Rightarrow> u8 list \<Rightarrow> u8 list" where
  "grep rd pattern inp = grep_loop rd 0 pattern [] inp"

text \<open>
  \<^verbatim>\<open>main\<close> on the files \<open>fs\<close> (\<open>None\<close>: \<^verbatim>\<open>open\<close> fails): what is written to which descriptor, and the exit status.
\<close>

fun grep_files :: "('n \<Rightarrow> u8 list option) \<Rightarrow> (nat \<Rightarrow> nat) \<Rightarrow> u8 list \<Rightarrow> 'n list \<Rightarrow> ('n \<Rightarrow> u8 list) \<Rightarrow> (int \<times> u8 list) list \<times> int" where
  "grep_files fs rd pattern [] nm = ([], 0)"
| "grep_files fs rd pattern (f # files) nm =
     (case fs f of
        None \<Rightarrow> ([(1, [103, 114, 101, 112, 58, 32, 99, 97, 110, 110, 111, 116, 32, 111, 112, 101, 110, 32] @ nm f @ [10])], 1)
      | Some inp \<Rightarrow> (case grep_files fs rd pattern files nm of (out, st) \<Rightarrow> ((1, grep rd pattern inp) # out, st)))"

definition grep_usage :: "u8 list" where
  "grep_usage = [117, 115, 97, 103, 101, 58, 32, 103, 114, 101, 112, 32, 112, 97, 116, 116, 101, 114, 110, 32, 91, 102, 105, 108, 101, 32, 46, 46, 46, 93, 10]"

text \<open>\<open>argv\<close> are the arguments after the program name; the first is the pattern.\<close>

definition grep_main :: "(u8 list \<Rightarrow> u8 list option) \<Rightarrow> u8 list \<Rightarrow> (nat \<Rightarrow> nat) \<Rightarrow> u8 list list \<Rightarrow> (int \<times> u8 list) list \<times> int" where
  "grep_main fs stdin rd argv =
     (case argv of
        [] \<Rightarrow> ([(2, grep_usage)], 1)
      | pattern # files \<Rightarrow>
          if files = [] then ([(1, grep rd pattern stdin)], 0)
          else grep_files fs rd pattern files (\<lambda>f. f))"

section \<open>What a pattern means\<close>

text \<open>A pattern is a sequence of items: one character, any number of a character, or the end of the text.\<close>

datatype item = One u8 | Star u8 | EndOfText

fun parse_re :: "u8 list \<Rightarrow> item list" where
  "parse_re [] = []"
| "parse_re [c] = (if c = 36 then [EndOfText] else [One c])"
| "parse_re (c # d # re) = (if d = 42 then Star c # parse_re re else One c # parse_re (d # re))"

definition accepts :: "u8 \<Rightarrow> u8 \<Rightarrow> bool" where
  "accepts c x \<longleftrightarrow> c = 46 \<or> c = x"

text \<open>\<open>denotes is u v\<close>: the items match \<open>u\<close> when \<open>v\<close> follows it.\<close>

primrec denotes :: "item list \<Rightarrow> u8 list \<Rightarrow> u8 list \<Rightarrow> bool" where
  "denotes [] u v \<longleftrightarrow> u = []"
| "denotes (i # is) u v \<longleftrightarrow>
     (case i of
        One c \<Rightarrow> \<exists>x u'. u = x # u' \<and> accepts c x \<and> denotes is u' v
      | Star c \<Rightarrow> \<exists>u1 u2. u = u1 @ u2 \<and> (\<forall>x \<in> set u1. accepts c x) \<and> denotes is u2 v
      | EndOfText \<Rightarrow> v = [] \<and> denotes is u v \<and> u = [])"

lemma star_suffixes:
  assumes "\<And>t. matchhere re t \<longleftrightarrow> (\<exists>u v. t = u @ v \<and> denotes is u v)"
  shows "matchstar c re text \<longleftrightarrow> (\<exists>u v. text = u @ v \<and> denotes (Star c # is) u v)"
proof (induction "text")
  case Nil
  then show ?case using assms [of "[]"] by (subst matchstar.simps) auto
next
  case (Cons x xs)
  have "matchstar c re (x # xs) \<longleftrightarrow> matchhere re (x # xs) \<or> (accepts c x \<and> matchstar c re xs)"
    by (subst matchstar.simps) (auto simp: accepts_def)
  also have "\<dots> \<longleftrightarrow> (\<exists>u v. x # xs = u @ v \<and> denotes (Star c # is) u v)"
  proof
    assume "matchhere re (x # xs) \<or> (accepts c x \<and> matchstar c re xs)"
    then show "\<exists>u v. x # xs = u @ v \<and> denotes (Star c # is) u v"
    proof
      assume "matchhere re (x # xs)"
      then obtain u v where "x # xs = u @ v" "denotes is u v" using assms by blast
      then show ?thesis by (intro exI [of _ u] exI [of _ v]) (auto intro: exI [of _ "[]"])
    next
      assume "accepts c x \<and> matchstar c re xs"
      then obtain u1 u2 v where "xs = (u1 @ u2) @ v" "\<forall>y \<in> set u1. accepts c y" "denotes is u2 v" "accepts c x"
        using Cons.IH by auto
      then have "x # xs = ((x # u1) @ u2) @ v" "\<forall>y \<in> set (x # u1). accepts c y" "denotes is u2 v" by auto
      moreover from this have "denotes (Star c # is) ((x # u1) @ u2) v" unfolding denotes.simps item.simps by blast
      ultimately show ?thesis by blast
    qed
  next
    assume "\<exists>u v. x # xs = u @ v \<and> denotes (Star c # is) u v"
    then obtain u1 u2 v where e: "x # xs = u1 @ u2 @ v" "\<forall>y \<in> set u1. accepts c y" "denotes is u2 v" by auto
    show "matchhere re (x # xs) \<or> (accepts c x \<and> matchstar c re xs)"
    proof (cases u1)
      case Nil
      then show ?thesis using e assms by auto
    next
      case (Cons y u)
      then have "xs = (u @ u2) @ v" "accepts c x" "\<forall>y \<in> set u. accepts c y" using e by auto
      moreover have "denotes (Star c # is) (u @ u2) v" using e(3) calculation(3) by auto
      ultimately show ?thesis using Cons.IH by blast
    qed
  qed
  finally show ?case .
qed

lemma denotes_One:
  "(\<exists>u v. t = u @ v \<and> denotes (One c # is) u v) \<longleftrightarrow>
    (\<exists>x t'. t = x # t' \<and> accepts c x \<and> (\<exists>u v. t' = u @ v \<and> denotes is u v))"
proof
  assume "\<exists>x t'. t = x # t' \<and> accepts c x \<and> (\<exists>u v. t' = u @ v \<and> denotes is u v)"
  then obtain x u v where "t = (x # u) @ v" "accepts c x" "denotes is u v" by auto
  moreover from this have "denotes (One c # is) (x # u) v" by simp
  ultimately show "\<exists>u v. t = u @ v \<and> denotes (One c # is) u v" by blast
qed (auto, blast)

lemma matchhere_iff: "matchhere re text \<longleftrightarrow> (\<exists>u v. text = u @ v \<and> denotes (parse_re re) u v)"
proof (induction re arbitrary: "text" rule: parse_re.induct)
  case 1
  then show ?case by (subst matchhere.simps) auto
next
  case (2 c)
  show ?case
  proof (cases "c = 36")
    case True
    then show ?thesis by (subst matchhere.simps) auto
  next
    case False
    then show ?thesis
      using denotes_One [of "text" c "[]"] matchhere.simps [of "[]"]
      by (subst matchhere.simps, cases "text") (auto simp: accepts_def)
  qed
next
  case (3 c d re)
  show ?case
  proof (cases "d = 42")
    case True
    then show ?thesis using star_suffixes [OF 3(1)] by (subst matchhere.simps) simp
  next
    case False
    have "matchhere (c # d # re) text \<longleftrightarrow> (\<exists>x t. text = x # t \<and> accepts c x \<and> matchhere (d # re) t)"
      using False by (subst matchhere.simps, cases "text") (auto simp: accepts_def)
    also have "\<dots> \<longleftrightarrow> (\<exists>u v. text = u @ v \<and> denotes (parse_re (c # d # re)) u v)"
      using False 3(2) denotes_One [of "text" c "parse_re (d # re)"] by simp
    finally show ?thesis .
  qed
qed

lemma match_loop_iff: "match_loop re text \<longleftrightarrow> (\<exists>w t. text = w @ t \<and> matchhere re t)"
proof (induction "text")
  case (Cons c xs)
  show ?case
  proof
    assume "match_loop re (c # xs)"
    then show "\<exists>w t. c # xs = w @ t \<and> matchhere re t"
      using Cons.IH by (auto intro: exI [of _ "[]"]) (metis append_Cons)
  next
    assume "\<exists>w t. c # xs = w @ t \<and> matchhere re t"
    then obtain w t where "c # xs = w @ t" "matchhere re t" by blast
    then show "match_loop re (c # xs)" using Cons.IH by (cases w) auto
  qed
qed auto

text \<open>
  C13. The matcher is correct: it terminates on every pattern and text, and \<^verbatim>\<open>match\<close> accepts exactly the texts that contain (with \<^verbatim>\<open>^\<close>:
  start with) a string in the language of the pattern.
\<close>

theorem match_correct:
  "match re text \<longleftrightarrow>
    (if re \<noteq> [] \<and> hd re = 94 then \<exists>u v. text = u @ v \<and> denotes (parse_re (tl re)) u v
     else \<exists>w u v. text = w @ u @ v \<and> denotes (parse_re re) u v)"
  by (auto simp: match_def matchhere_iff match_loop_iff)

section \<open>What \<open>grep\<close> prints\<close>

text \<open>The lines of a text that end with a newline, and what follows the last newline.\<close>

fun split_lines :: "u8 list \<Rightarrow> u8 list list \<times> u8 list" where
  "split_lines [] = ([], [])"
| "split_lines (c # s) =
     (case split_lines s of (ls, r) \<Rightarrow>
        if c = 10 then ([] # ls, r)
        else case ls of [] \<Rightarrow> ([], c # r) | l # ls' \<Rightarrow> ((c # l) # ls', r))"

definition matching :: "u8 list \<Rightarrow> u8 list list \<Rightarrow> u8 list" where
  "matching pattern ls = concat (map (\<lambda>l. l @ [10]) (filter (match pattern) ls))"

lemma strchr_eq: "strchr s c = (if c \<in> set s then Some (dropWhile (\<lambda>x. x \<noteq> c) s) else None)"
  by (induction s) auto

lemma split_lines_none: "10 \<notin> set u \<Longrightarrow> split_lines u = ([], u)"
  by (induction u) auto

lemma split_lines_line: "10 \<notin> set u \<Longrightarrow> split_lines (u @ 10 # w) = (u # fst (split_lines w), snd (split_lines w))"
  by (induction u) (auto split: prod.splits)

lemma split_lines_rest: "10 \<notin> set (snd (split_lines p))"
  by (induction p) (auto split: prod.splits list.splits)

lemma split_lines_subset: "set (snd (split_lines p)) \<subseteq> set p"
  by (induction p) (auto split: prod.splits list.splits)

lemma split_lines_append:
  "split_lines (p @ w) =
    (fst (split_lines p) @ fst (split_lines (snd (split_lines p) @ w)), snd (split_lines (snd (split_lines p) @ w)))"
proof (induction "length p" arbitrary: p rule: less_induct)
  case less
  show ?case
  proof (cases "10 \<in> set p")
    case False
    then show ?thesis by (simp add: split_lines_none)
  next
    case True
    then obtain u v where p: "p = u @ 10 # v" "10 \<notin> set u" using split_list_first by fastforce
    show ?thesis using less [of v] p by (simp add: split_lines_line)
  qed
qed

lemma grep_lines_eq:
  "0 \<notin> set p \<Longrightarrow> grep_lines pattern p = (matching pattern (fst (split_lines p)), snd (split_lines p))"
proof (induction "length p" arbitrary: p rule: less_induct)
  case less
  have tw: "takeWhile (\<lambda>c. c \<noteq> 0) p = p" using less.prems by (auto simp: takeWhile_eq_all_conv)
  show ?case
  proof (cases "10 \<in> set p")
    case False
    then show ?thesis by (subst grep_lines.simps) (simp add: tw strchr_eq split_lines_none matching_def)
  next
    case True
    then obtain u v where p: "p = u @ 10 # v" "10 \<notin> set u" using split_list_first by fastforce
    have dw: "dropWhile (\<lambda>x. x \<noteq> 10) p = 10 # v" using p by (auto simp: dropWhile_append)
    have td: "take (length p - Suc (length v)) p = u" "drop (Suc (length u)) p = v" using p(1) by simp_all
    have g: "grep_lines pattern p =
        (case grep_lines pattern v of (out, r) \<Rightarrow> ((if match pattern u then u @ [10] else []) @ out, r))"
      using True by (subst grep_lines.simps) (simp add: tw strchr_eq dw td Let_def)
    have "grep_lines pattern v = (matching pattern (fst (split_lines v)), snd (split_lines v))"
      using less.prems p by (intro less.hyps) auto
    then show ?thesis unfolding g using p by (simp add: split_lines_line matching_def)
  qed
qed

text \<open>Every line, the unterminated last one included, leaves room in the buffer.\<close>

definition short_lines :: "u8 list \<Rightarrow> bool" where
  "short_lines s \<longleftrightarrow> (\<forall>l \<in> set (fst (split_lines s)). length l < grep_bufsize - 1) \<and> length (snd (split_lines s)) < grep_bufsize - 1"

lemma short_lines_prefix:
  assumes "short_lines (b @ w)" "10 \<notin> set b"
  shows "length b < grep_bufsize - 1"
proof (cases "10 \<in> set w")
  case True
  then obtain u v where "w = u @ 10 # v" "10 \<notin> set u" using split_list_first by fastforce
  then have "split_lines (b @ w) = ((b @ u) # fst (split_lines v), snd (split_lines v))"
    using split_lines_line [of "b @ u" v] assms(2) by simp
  then have "length (b @ u) < grep_bufsize - 1" using assms(1) by (simp add: short_lines_def)
  then show ?thesis by simp
next
  case False
  then show ?thesis using assms split_lines_none [of "b @ w"] by (simp add: short_lines_def)
qed

lemma grep_loop_eq:
  "0 \<notin> set (b @ inp) \<Longrightarrow> 10 \<notin> set b \<Longrightarrow> short_lines (b @ inp) \<Longrightarrow>
    grep_loop rd i pattern b inp = matching pattern (fst (split_lines (b @ inp)))"
proof (induction "length inp" arbitrary: i b inp rule: less_induct)
  case less
  let ?n = "min (Suc (rd i)) (min (grep_bufsize - length b - 1) (length inp))"
  show ?case
  proof (cases "inp = []")
    case True
    then show ?thesis using less.prems(2) by (subst grep_loop.simps) (simp add: split_lines_none matching_def)
  next
    case False
    have "length b < grep_bufsize - 1" using short_lines_prefix [OF less.prems(3,2)] .
    then have n: "?n > 0" using False by simp
    let ?p = "b @ take ?n inp" and ?w = "drop ?n inp"
    have sp: "split_lines (b @ inp) =
        (fst (split_lines ?p) @ fst (split_lines (snd (split_lines ?p) @ ?w)), snd (split_lines (snd (split_lines ?p) @ ?w)))"
      using split_lines_append [of ?p ?w] by simp
    let ?r = "snd (split_lines ?p)"
    have nz: "0 \<notin> set ?p" "0 \<notin> set (?r @ ?w)"
      using less.prems(1) split_lines_subset [of ?p] set_take_subset [of ?n inp] set_drop_subset [of ?n inp] by auto
    have short: "short_lines (?r @ ?w)" using less.prems(3) sp by (auto simp: short_lines_def)
    have "grep_loop rd i pattern b inp =
        matching pattern (fst (split_lines ?p)) @ grep_loop rd (Suc i) pattern ?r ?w"
      using n grep_lines_eq [OF nz(1)] by (subst grep_loop.simps) (simp add: Let_def)
    also have "grep_loop rd (Suc i) pattern ?r ?w = matching pattern (fst (split_lines (?r @ ?w)))"
      using n False nz(2) short split_lines_rest by (intro less.hyps) auto
    also have "matching pattern (fst (split_lines ?p)) @ matching pattern (fst (split_lines (?r @ ?w))) =
        matching pattern (fst (split_lines (b @ inp)))" unfolding sp by (simp add: matching_def)
    finally show ?thesis .
  qed
qed

text \<open>
  C21. \<^verbatim>\<open>grep\<close> prints the matching lines: on a text without NUL bytes whose lines are shorter than its
  buffer, and however the \<^verbatim>\<open>read\<close> calls cut the text, it terminates and writes exactly the newline-terminated lines that
  match, in order. A last line without a newline is not looked at.
\<close>

theorem grep_correct:
  assumes "0 \<notin> set inp" "short_lines inp"
  shows "grep rd pattern inp = concat (map (\<lambda>l. l @ [10]) (filter (match pattern) (fst (split_lines inp))))"
  using grep_loop_eq [of "[]" inp rd 0 pattern] assms by (simp add: grep_def matching_def)

theorem grep_correct_witness:
  "grep (\<lambda>i. i) [98] [97, 98, 10, 99, 10, 98] =
    concat (map (\<lambda>l. l @ [10]) (filter (match [98]) [[97, 98], [99]]))"
proof -
  have "fst (split_lines [97, 98, 10, 99, 10, 98]) = [[97, 98], [99]]" by simp
  then show ?thesis using grep_correct [of "[97, 98, 10, 99, 10, 98]" "\<lambda>i. i" "[98]"] by (simp add: short_lines_def)
qed

end
