(* ===== verification/Uprogs.thy ===== *)
theory Uprogs
  imports Ulib
begin

text \<open>
  The small user programs: \<^verbatim>\<open>wc\<close>, \<^verbatim>\<open>cat\<close>, \<^verbatim>\<open>echo\<close>, \<^verbatim>\<open>kill\<close>, \<^verbatim>\<open>ln\<close>, \<^verbatim>\<open>mkdir\<close>, \<^verbatim>\<open>rm\<close>, \<^verbatim>\<open>sleep\<close>, and the programs written for this
  repository, \<^verbatim>\<open>primes\<close>, \<^verbatim>\<open>find\<close> and \<^verbatim>\<open>xargs\<close>. What a program writes is a list of pairs of a file descriptor and bytes;
  arguments are those after the program name; system calls and the contents of files are parameters.
\<close>

type_synonym outs = "(int \<times> u8 list) list"

definition cs :: "string \<Rightarrow> u8 list" where
  "cs s = map of_char s"

section \<open>\<open>wc\<close>\<close>

record wc_st =
  wl :: u32
  ww :: u32
  wch :: u32
  inword :: bool

definition wc_seps :: "u8 list" where
  "wc_seps = [32, 13, 9, 10, 11]"

definition wc_byte :: "u8 \<Rightarrow> wc_st \<Rightarrow> wc_st" where
  "wc_byte b s =
     (let s = s\<lparr>wch := wch s + 1\<rparr>;
          s = (if b = 10 then s\<lparr>wl := wl s + 1\<rparr> else s)
      in if strchr wc_seps b \<noteq> None then s\<lparr>inword := False\<rparr>
         else if \<not> inword s then s\<lparr>ww := ww s + 1, inword := True\<rparr>
         else s)"

text \<open>
  The reading loop: the \<open>i\<close>-th \<^verbatim>\<open>read\<close> returns at most 512 bytes, at least one and at most \<open>rd i + 1\<close> of what is left;
  \<open>err\<close> tells whether the last one fails.
\<close>

function wc_loop :: "(nat \<Rightarrow> nat) \<Rightarrow> nat \<Rightarrow> u8 list \<Rightarrow> wc_st \<Rightarrow> wc_st" where
  "wc_loop rd i inp s =
     (let n = min (Suc (rd i)) (min 512 (length inp)) in
      if n > 0 then wc_loop rd (Suc i) (drop n inp) (fold wc_byte (take n inp) s) else s)"
  by pat_completeness auto
termination
  by (relation "measure (\<lambda>(rd, i, inp, s). length inp)") auto

declare wc_loop.simps [simp del]

definition wc :: "(nat \<Rightarrow> nat) \<Rightarrow> bool \<Rightarrow> u8 list \<Rightarrow> u8 list \<Rightarrow> outs \<times> int option" where
  "wc rd err inp name =
     (let s = wc_loop rd 0 inp \<lparr>wl = 0, ww = 0, wch = 0, inword = False\<rparr> in
      if err then ([(1, cs ''wc: read error'' @ [10])], Some 1)
      else case vprintf (cs ''%d %d %d %s'' @ [10]) [Num (ucast (wl s)), Num (ucast (ww s)), Num (ucast (wch s)), Str (Some name)] of
             Some out \<Rightarrow> ([(1, out)], None) | None \<Rightarrow> ([], None))"

text \<open>The loops of \<^verbatim>\<open>main\<close> over the files named on the command line, for \<^verbatim>\<open>wc\<close> and \<^verbatim>\<open>cat\<close>: \<open>f\<close> processes one open file.\<close>

fun main_files :: "u8 list \<Rightarrow> int \<Rightarrow> (u8 list \<Rightarrow> u8 list option) \<Rightarrow> (u8 list \<Rightarrow> u8 list \<Rightarrow> outs \<times> int option) \<Rightarrow> u8 list list \<Rightarrow> outs \<times> int" where
  "main_files prog fd fs f [] = ([], 0)"
| "main_files prog fd fs f (a # argv) =
     (case fs a of
        None \<Rightarrow> ([(fd, prog @ cs '': cannot open '' @ a @ [10])], 1)
      | Some inp \<Rightarrow>
          (case f inp a of
             (out, Some st) \<Rightarrow> (out, st)
           | (out, None) \<Rightarrow> (case main_files prog fd fs f argv of (out', st) \<Rightarrow> (out @ out', st))))"

definition wc_main :: "(nat \<Rightarrow> nat) \<Rightarrow> bool \<Rightarrow> (u8 list \<Rightarrow> u8 list option) \<Rightarrow> u8 list \<Rightarrow> u8 list list \<Rightarrow> outs \<times> int" where
  "wc_main rd err fs stdin argv =
     (if argv = [] then (case wc rd err stdin [] of (out, Some st) \<Rightarrow> (out, st) | (out, None) \<Rightarrow> (out, 0))
      else main_files (cs ''wc'') 1 fs (wc rd err) argv)"

section \<open>\<open>cat\<close>\<close>

text \<open>\<open>ok i\<close>: the \<open>i\<close>-th \<^verbatim>\<open>write\<close> writes all it is given.\<close>

function cat_loop :: "(nat \<Rightarrow> nat) \<Rightarrow> (nat \<Rightarrow> bool) \<Rightarrow> bool \<Rightarrow> nat \<Rightarrow> u8 list \<Rightarrow> outs \<times> int option" where
  "cat_loop rd ok err i inp =
     (let n = min (Suc (rd i)) (min 512 (length inp)) in
      if n > 0
      then if \<not> ok i then ([(2, cs ''cat: write error'' @ [10])], Some 1)
           else (case cat_loop rd ok err (Suc i) (drop n inp) of (out, st) \<Rightarrow> ((1, take n inp) # out, st))
      else if err then ([(2, cs ''cat: read error'' @ [10])], Some 1)
      else ([], None))"
  by pat_completeness auto
termination
  by (relation "measure (\<lambda>(rd, ok, err, i, inp). length inp)") auto

declare cat_loop.simps [simp del]

definition cat :: "(nat \<Rightarrow> nat) \<Rightarrow> (nat \<Rightarrow> bool) \<Rightarrow> bool \<Rightarrow> u8 list \<Rightarrow> u8 list \<Rightarrow> outs \<times> int option" where
  "cat rd ok err inp name = cat_loop rd ok err 0 inp"

definition cat_main :: "(nat \<Rightarrow> nat) \<Rightarrow> (nat \<Rightarrow> bool) \<Rightarrow> bool \<Rightarrow> (u8 list \<Rightarrow> u8 list option) \<Rightarrow> u8 list \<Rightarrow> u8 list list \<Rightarrow> outs \<times> int" where
  "cat_main rd ok err fs stdin argv =
     (if argv = [] then (case cat rd ok err stdin [] of (out, Some st) \<Rightarrow> (out, st) | (out, None) \<Rightarrow> (out, 0))
      else main_files (cs ''cat'') 2 fs (cat rd ok err) argv)"

section \<open>Programs over one system call\<close>

fun echo_main :: "u8 list list \<Rightarrow> outs" where
  "echo_main [] = []"
| "echo_main (a # argv) = (1, a) # (1, if argv \<noteq> [] then [32] else [10]) # echo_main argv"

primrec kill_loop :: "(int \<Rightarrow> 's \<Rightarrow> 's) \<Rightarrow> u8 list list \<Rightarrow> 's \<Rightarrow> 's" where
  "kill_loop kill [] s = s"
| "kill_loop kill (a # argv) s = kill_loop kill argv (kill (atoi a) s)"

definition kill_main :: "(int \<Rightarrow> 's \<Rightarrow> 's) \<Rightarrow> u8 list list \<Rightarrow> 's \<Rightarrow> 's \<times> outs \<times> int" where
  "kill_main kill argv s =
     (if argv = [] then (s, [(2, cs ''usage: kill pid...'' @ [10])], 1)
      else (kill_loop kill argv s, [], 0))"

definition ln_main :: "(u8 list \<Rightarrow> u8 list \<Rightarrow> 's \<Rightarrow> 's \<times> int) \<Rightarrow> u8 list list \<Rightarrow> 's \<Rightarrow> 's \<times> outs \<times> int" where
  "ln_main link argv s =
     (case argv of
        [old, new] \<Rightarrow>
          (case link old new s of (s, r) \<Rightarrow>
             (s, if r < 0 then [(2, cs ''link '' @ old @ [32] @ new @ cs '': failed'' @ [10])] else [], 0))
      | _ \<Rightarrow> (s, [(2, cs ''Usage: ln old new'' @ [10])], 1))"

text \<open>The loop of \<^verbatim>\<open>mkdir\<close> and \<^verbatim>\<open>rm\<close>, which stops at the first failure.\<close>

primrec each_arg :: "(u8 list \<Rightarrow> 's \<Rightarrow> 's \<times> int) \<Rightarrow> (u8 list \<Rightarrow> u8 list) \<Rightarrow> u8 list list \<Rightarrow> 's \<Rightarrow> 's \<times> outs" where
  "each_arg call msg [] s = (s, [])"
| "each_arg call msg (a # argv) s =
     (case call a s of (s, r) \<Rightarrow> if r < 0 then (s, [(2, msg a)]) else each_arg call msg argv s)"

definition mkdir_main :: "(u8 list \<Rightarrow> 's \<Rightarrow> 's \<times> int) \<Rightarrow> u8 list list \<Rightarrow> 's \<Rightarrow> 's \<times> outs \<times> int" where
  "mkdir_main mkdir argv s =
     (if argv = [] then (s, [(2, cs ''Usage: mkdir files...'' @ [10])], 1)
      else case each_arg mkdir (\<lambda>a. cs ''mkdir: '' @ a @ cs '' failed to create'' @ [10]) argv s of (s, out) \<Rightarrow> (s, out, 0))"

definition rm_main :: "(u8 list \<Rightarrow> 's \<Rightarrow> 's \<times> int) \<Rightarrow> u8 list list \<Rightarrow> 's \<Rightarrow> 's \<times> outs \<times> int" where
  "rm_main unlink argv s =
     (if argv = [] then (s, [(2, cs ''Usage: rm files...'' @ [10])], 1)
      else case each_arg unlink (\<lambda>a. cs ''rm: '' @ a @ cs '' failed to delete'' @ [10]) argv s of (s, out) \<Rightarrow> (s, out, 0))"

definition sleep_main :: "(int \<Rightarrow> 's \<Rightarrow> 's) \<Rightarrow> u8 list list \<Rightarrow> 's \<Rightarrow> 's \<times> outs \<times> int" where
  "sleep_main sleep argv s =
     (case argv of
        [a] \<Rightarrow> (sleep (atoi a) s, [(1, cs ''(nothing happens for a little while)'' @ [10])], 0)
      | _ \<Rightarrow> (s, [(1, cs ''Sleep needs one argument!'' @ [10])], - 1))"

section \<open>\<open>primes\<close>\<close>

text \<open>
  \<open>find_prime read_num num\<close> is the chain of processes from one stage on: \<open>num\<close> is the array of the stage after its
  \<^verbatim>\<open>read\<close>. Each later stage finds all its numbers in the pipe, because its parent has written them and
  closed the pipe before it forks. The result is the sequence of the numbers printed.
\<close>

function find_prime :: "nat \<Rightarrow> (nat \<Rightarrow> int) \<Rightarrow> int list" where
  "find_prime read_num num =
     (if read_num = 0 then []
      else let p = num 0;
               rest = filter (\<lambda>x. x mod p \<noteq> 0) (map num [1..<read_num])
           in p # find_prime (length rest) (\<lambda>i. rest ! i))"
  by pat_completeness auto
termination
proof (relation "measure fst", goal_cases)
  case (2 read_num num p rest)
  then have "length rest \<le> read_num - 1" using length_filter_le [of "\<lambda>x. x mod p \<noteq> 0" "map num [1..<read_num]"] by simp
  then show ?case using 2 by simp
qed simp

declare find_prime.simps [simp del]

text \<open>
  \<^verbatim>\<open>main\<close> writes 2 to 35, one number at a time, while the first stage reads: its \<^verbatim>\<open>read\<close> returns the \<open>avail\<close> numbers that
  are in the pipe when it runs, and the rest of its array keeps the contents \<open>junk\<close> of the stack.
\<close>

definition primes_main :: "nat \<Rightarrow> (nat \<Rightarrow> int) \<Rightarrow> int list" where
  "primes_main avail junk = find_prime 34 (\<lambda>i. if i < avail then int i + 2 else junk i)"

definition is_prime :: "int \<Rightarrow> bool" where
  "is_prime n \<longleftrightarrow> 1 < n \<and> (\<forall>d > 1. d dvd n \<longrightarrow> d = n)"

text \<open>The numbers from \<open>a\<close> below \<open>n\<close> that no number from 2 up to, but without, \<open>a\<close> divides.\<close>

definition unsieved :: "int \<Rightarrow> int \<Rightarrow> int list" where
  "unsieved a n = filter (\<lambda>x. \<forall>d. 1 < d \<and> d < a \<longrightarrow> \<not> d dvd x) [a..n - 1]"

lemma find_prime_list: "find_prime (length xs) (\<lambda>i. xs ! i) =
  (case xs of [] \<Rightarrow> [] | p # ys \<Rightarrow> (let rest = filter (\<lambda>x. x mod p \<noteq> 0) ys in p # find_prime (length rest) (\<lambda>i. rest ! i)))"
proof (cases xs)
  case (Cons p ys)
  have "map ((!) (p # ys)) [1..<Suc (length ys)] = ys" by (rule nth_equalityI) (simp_all del: upt_Suc)
  then show ?thesis using Cons by (subst find_prime.simps) (simp del: upt_Suc)
qed (subst find_prime.simps, simp)

lemma find_prime_cong: "(\<And>i. i < n \<Longrightarrow> f i = g i) \<Longrightarrow> find_prime n f = find_prime n g"
proof (cases "n = 0")
  case False
  assume e: "\<And>i. i < n \<Longrightarrow> f i = g i"
  then have "map f [1..<n] = map g [1..<n]" "f 0 = g 0" using False by auto
  then show ?thesis by (subst (1 2) find_prime.simps) (simp only:)
qed (simp add: find_prime.simps)

lemma upto_rec: "a < n \<Longrightarrow> [a..n - 1] = a # [a + 1..n - 1]"
  by (subst upto.simps) simp

lemma unsieved_step:
  assumes "1 < a" "a < n"
  shows "is_prime a \<Longrightarrow> \<exists>ys. unsieved a n = a # ys \<and> filter (\<lambda>x. x mod a \<noteq> 0) ys = unsieved (a + 1) n"
    "\<not> is_prime a \<Longrightarrow> unsieved a n = unsieved (a + 1) n"
proof -
  let ?P = "\<lambda>b x :: int. \<forall>d. 1 < d \<and> d < b \<longrightarrow> \<not> d dvd x"
  have more: "?P (a + 1) x \<longleftrightarrow> ?P a x \<and> x mod a \<noteq> 0" for x
  proof -
    have "1 < d \<and> d < a + 1 \<longleftrightarrow> (1 < d \<and> d < a) \<or> d = a" for d using assms by auto
    then have "?P (a + 1) x \<longleftrightarrow> ?P a x \<and> \<not> a dvd x" by blast
    then show ?thesis by (simp only: dvd_eq_mod_eq_0)
  qed
  have prime: "is_prime a \<longleftrightarrow> ?P a a"
  proof
    assume "is_prime a"
    then show "?P a a" unfolding is_prime_def by auto
  next
    assume p: "?P a a"
    have "d = a" if "1 < d" "d dvd a" for d
    proof -
      have "d \<le> a" using zdvd_imp_le [OF that(2)] assms(1) by simp
      then show ?thesis using p that by (cases "d < a") auto
    qed
    then show "is_prime a" using assms unfolding is_prime_def by auto
  qed
  show "\<exists>ys. unsieved a n = a # ys \<and> filter (\<lambda>x. x mod a \<noteq> 0) ys = unsieved (a + 1) n" if "is_prime a"
    using that prime assms more by (simp add: unsieved_def upto_rec conj_commute)
  assume np: "\<not> is_prime a"
  then obtain d where d: "1 < d" "d < a" "d dvd a" using prime by blast
  have "?P a x \<longleftrightarrow> ?P (a + 1) x" for x
    unfolding more using d by (auto simp: dvd_eq_mod_eq_0 [symmetric] intro: dvd_trans)
  then show "unsieved a n = unsieved (a + 1) n"
    using np prime assms by (simp add: unsieved_def upto_rec)
qed

lemma find_prime_unsieved:
  "1 < a \<Longrightarrow> find_prime (length (unsieved a n)) (\<lambda>i. unsieved a n ! i) = filter is_prime [a..n - 1]"
proof (induction "nat (n - a)" arbitrary: a rule: less_induct)
  case less
  show ?case
  proof (cases "a < n")
    case False
    then show ?thesis by (subst find_prime.simps) (simp add: unsieved_def)
  next
    case True
    have IH: "find_prime (length (unsieved (a + 1) n)) (\<lambda>i. unsieved (a + 1) n ! i) = filter is_prime [a + 1..n - 1]"
      using less True by (intro less.hyps) auto
    show ?thesis
    proof (cases "is_prime a")
      case p: True
      obtain ys where ys: "unsieved a n = a # ys" "filter (\<lambda>x. x mod a \<noteq> 0) ys = unsieved (a + 1) n"
        using unsieved_step(1) [OF less.prems True p] by blast
      show ?thesis using find_prime_list [of "unsieved a n"] IH ys p True by (simp add: upto_rec Let_def)
    next
      case False
      then show ?thesis using unsieved_step(2) [OF less.prems True] IH True by (simp add: upto_rec)
    qed
  qed
qed

text \<open>Numbers behind the first \<open>m\<close> that the first number divides make no difference.\<close>

lemma find_prime_cut:
  assumes "0 < m" "m \<le> n" "\<And>i. m \<le> i \<Longrightarrow> i < n \<Longrightarrow> f i mod f 0 = 0"
  shows "find_prime n f = find_prime m f"
proof -
  have "[1..<n] = [1..<m] @ [m..<n]" using assms(1,2) by (metis One_nat_def Suc_leI le_add_diff_inverse upt_add_eq_append)
  moreover have "filter (\<lambda>x. x mod f 0 \<noteq> 0) (map f [m..<n]) = []" using assms(3) by (auto simp: filter_empty_conv)
  ultimately have "filter (\<lambda>x. x mod f 0 \<noteq> 0) (map f [1..<n]) = filter (\<lambda>x. x mod f 0 \<noteq> 0) (map f [1..<m])" by simp
  then show ?thesis using assms(1,2) by (subst (1 2) find_prime.simps) (simp only: Let_def, simp)
qed

lemma find_prime_numbers: "find_prime m (\<lambda>i. int i + 2) = filter is_prime [2..int m + 1]"
proof -
  have "(\<forall>d :: int. 1 < d \<and> d < 2 \<longrightarrow> \<not> d dvd x)" for x by auto
  then have u: "unsieved 2 (int m + 2) = [2..int m + 1]" by (simp only: unsieved_def) (simp add: add.commute)
  have "find_prime m (\<lambda>i. int i + 2) = find_prime m (\<lambda>i. [2..int m + 1] ! i)"
  proof (rule find_prime_cong)
    fix i :: nat assume "i < m"
    then show "int i + 2 = [2..int m + 1] ! i" by (subst nth_upto) simp_all
  qed
  then show ?thesis using find_prime_unsieved [of 2 "int m + 2"] u by (simp add: add.commute)
qed

text \<open>
  C29. The sieve prints the primes among the numbers its first stage got. The chain of \<^verbatim>\<open>primes\<close> terminates for any array of
  numbers; when the first \<^verbatim>\<open>read\<close> returns all numbers from 2 to 35, whatever else is on the stack, the primes up to 35
  are printed, in order. The result of that \<^verbatim>\<open>read\<close> is not looked at: when it is short, and it returns what is in the
  pipe at the time, only the primes up to the last number it got are printed, if the rest of the array is zero.
\<close>

theorem primes_correct:
  "primes_main 34 junk = filter is_prime [2..35] \<and>
   (1 \<le> avail \<and> avail \<le> 34 \<longrightarrow> primes_main avail (\<lambda>_. 0) = filter is_prime [2..int avail + 1])"
proof (intro conjI impI)
  have "primes_main 34 junk = find_prime 34 (\<lambda>i. int i + 2)" unfolding primes_main_def by (rule find_prime_cong) simp
  then show "primes_main 34 junk = filter is_prime [2..35]" using find_prime_numbers [of 34] by simp
next
  assume a: "1 \<le> avail \<and> avail \<le> 34"
  let ?f = "\<lambda>i. if i < avail then int i + 2 else 0"
  have "primes_main avail (\<lambda>_. 0) = find_prime avail ?f" unfolding primes_main_def by (rule find_prime_cut) (use a in auto)
  also have "\<dots> = find_prime avail (\<lambda>i. int i + 2)" by (rule find_prime_cong) simp
  finally show "primes_main avail (\<lambda>_. 0) = filter is_prime [2..int avail + 1]" using find_prime_numbers [of avail] by simp
qed

theorem primes_correct_witness:
  "primes_main 34 (\<lambda>_. 7) = filter is_prime [2..35] \<and> primes_main 6 (\<lambda>_. 0) = filter is_prime [2..7]"
  using primes_correct [of "\<lambda>_. 7" 6] by simp

section \<open>What \<open>wc\<close> counts\<close>

definition is_sep :: "u8 \<Rightarrow> bool" where
  "is_sep b \<longleftrightarrow> b \<in> {32, 13, 9, 10, 11}"

text \<open>The positions at which a word starts.\<close>

definition word_starts :: "u8 list \<Rightarrow> nat set" where
  "word_starts s = {i. i < length s \<and> \<not> is_sep (s ! i) \<and> (i = 0 \<or> is_sep (s ! (i - 1)))}"

definition wc_spec :: "u8 list \<Rightarrow> wc_st" where
  "wc_spec s = \<lparr>wl = of_nat (count_list s 10), ww = of_nat (card (word_starts s)), wch = of_nat (length s),
     inword = (s \<noteq> [] \<and> \<not> is_sep (last s))\<rparr>"

lemma strchr_seps: "strchr wc_seps b \<noteq> None \<longleftrightarrow> is_sep b"
  by (simp add: wc_seps_def is_sep_def)

lemma word_starts_snoc:
  "word_starts (s @ [b]) = word_starts s \<union> (if \<not> is_sep b \<and> (s = [] \<or> is_sep (last s)) then {length s} else {})"
proof -
  have "i \<in> word_starts (s @ [b]) \<longleftrightarrow>
      i \<in> word_starts s \<or> (i = length s \<and> \<not> is_sep b \<and> (s = [] \<or> is_sep (last s)))" for i
    by (cases "s = []"; cases "i = length s") (auto simp: word_starts_def nth_append last_conv_nth less_Suc_eq)
  then show ?thesis by auto
qed

lemma finite_word_starts: "finite (word_starts s)" "length s \<notin> word_starts s"
  by (simp_all add: word_starts_def)

lemma fold_wc_byte: "fold wc_byte s (wc_spec []) = wc_spec s"
proof (induction s rule: rev_induct)
  case (snoc b s)
  have w: "card (word_starts (s @ [b])) =
      card (word_starts s) + (if \<not> is_sep b \<and> (s = [] \<or> is_sep (last s)) then 1 else 0)"
    using finite_word_starts [of s] by (simp add: word_starts_snoc)
  have "wc_byte b (wc_spec s) = wc_spec (s @ [b])"
    unfolding wc_byte_def Let_def strchr_seps wc_spec_def w by auto
  then show ?case using snoc.IH by simp
qed (simp add: wc_spec_def)

lemma wc_loop_eq: "wc_loop rd i inp s = fold wc_byte inp s"
proof (induction rd i inp s rule: wc_loop.induct)
  case (1 rd i inp s)
  let ?n = "min (Suc (rd i)) (min 512 (length inp))"
  show ?case
  proof (cases "inp = []")
    case False
    then have "?n > 0" by simp
    then have "wc_loop rd i inp s = fold wc_byte (drop ?n inp) (fold wc_byte (take ?n inp) s)"
      using 1 by (subst wc_loop.simps) (simp add: Let_def)
    also have "\<dots> = fold wc_byte (take ?n inp @ drop ?n inp) s" by (simp only: fold_append comp_apply)
    finally show ?thesis by simp
  qed (subst wc_loop.simps, simp)
qed

text \<open>
  C25. \<^verbatim>\<open>wc\<close> counts newlines, words and bytes, modulo the width of its counters, independently of how the \<^verbatim>\<open>read\<close>
  calls cut the text: a word starts at a character that is not a separator and is the first or follows one.
\<close>

theorem wc_correct:
  "wc_loop rd 0 inp \<lparr>wl = 0, ww = 0, wch = 0, inword = False\<rparr> =
    \<lparr>wl = of_nat (count_list inp 10), ww = of_nat (card (word_starts inp)), wch = of_nat (length inp),
     inword = (inp \<noteq> [] \<and> \<not> is_sep (last inp))\<rparr>"
proof -
  have "\<lparr>wl = 0, ww = 0, wch = 0, inword = False\<rparr> = wc_spec []" by (simp add: wc_spec_def word_starts_def)
  then show ?thesis using wc_loop_eq [of rd 0 inp "wc_spec []"] fold_wc_byte [of inp] by (simp add: wc_spec_def)
qed

lemma cat_loop_ok:
  assumes "\<forall>i. ok i"
  shows "\<exists>out. cat_loop rd ok False i inp = (out, None) \<and> concat (map snd out) = inp \<and> fst ` set out \<subseteq> {1}"
proof (induction "length inp" arbitrary: i inp rule: less_induct)
  case less
  let ?n = "min (Suc (rd i)) (min 512 (length inp))"
  show ?case
  proof (cases "inp = []")
    case True
    then show ?thesis by (subst cat_loop.simps) simp
  next
    case False
    then have l: "length (drop ?n inp) < length inp" by simp
    obtain out where o: "cat_loop rd ok False (Suc i) (drop ?n inp) = (out, None)"
      "concat (map snd out) = drop ?n inp" "fst ` set out \<subseteq> {1}" using less [OF l, of "Suc i"] by blast
    have "cat_loop rd ok False i inp = ((1, take ?n inp) # out, None)"
      using False assms o(1) by (subst cat_loop.simps) (simp add: Let_def)
    moreover have "concat (map snd ((1, take ?n inp) # out)) = inp" using o(2) by (simp only: list.map concat.simps snd_conv append_take_drop_id)
    moreover have "fst ` set ((1, take ?n inp) # out) \<subseteq> {1}" using o(3) by simp
    ultimately show ?thesis by (intro exI [of _ "(1, take ?n inp) # out"]) simp
  qed
qed

text \<open>
  C28. \<^verbatim>\<open>cat\<close> copies: when every \<^verbatim>\<open>read\<close> and \<^verbatim>\<open>write\<close> succeeds it writes exactly its input to standard output, however
  the input was cut, and returns.
\<close>

theorem cat_correct:
  assumes "\<forall>i. ok i"
  shows "\<exists>out. cat rd ok False inp nm = (out, None) \<and> concat (map snd out) = inp \<and> fst ` set out \<subseteq> {1}"
  using cat_loop_ok [OF assms] by (simp add: cat_def)

theorem cat_correct_witness:
  "\<exists>out. cat (\<lambda>_. 1) (\<lambda>_. True) False [104, 105, 10] [] = (out, None) \<and> concat (map snd out) = [104, 105, 10] \<and> fst ` set out \<subseteq> {1}"
  by (rule cat_correct) simp

end
