(* ===== verification/Lab_Progs.thy ===== *)
theory Lab_Progs
  imports Uprogs
begin

text \<open>
  The programs \<^verbatim>\<open>find\<close> and \<^verbatim>\<open>xargs\<close> written for this repository. For \<^verbatim>\<open>find\<close> the state that matters is the number of
  file descriptors the process has open; for \<^verbatim>\<open>xargs\<close> it is the array of pointers to argument buffers.
\<close>

section \<open>\<open>find\<close>\<close>

text \<open>
  What a path leads to. A directory is its sequence of entries, each an inode number and the bytes of its name; \<open>fs\<close>
  is the result of the kernel's path lookup.
\<close>

datatype fnode = FFile | FDevice | FDir "(u16 \<times> u8 list) list"

definition to_file_name :: "u8 list \<Rightarrow> u8 list" where
  "to_file_name path = rev (takeWhile (\<lambda>c. c \<noteq> 47) (rev path))"

text \<open>The path put into \<^verbatim>\<open>buf\<close> for an entry, a C string: it ends at the first NUL of the name.\<close>

definition entry_path :: "u8 list \<Rightarrow> u8 list \<Rightarrow> u8 list" where
  "entry_path path name = path @ [47] @ takeWhile (\<lambda>c. c \<noteq> 0) (take 14 name)"

definition skip_entry :: "u16 \<times> u8 list \<Rightarrow> bool" where
  "skip_entry e \<longleftrightarrow> fst e = 0 \<or> takeWhile (\<lambda>c. c \<noteq> 0) (take 14 (snd e)) \<in> {[46], [46, 46]}"

text \<open>
  \<open>n\<close> is the number of open descriptors. \<^verbatim>\<open>stat\<close> opens and closes one; the descriptor of a directory is not closed on
  any path through the code. The name of a file is copied to an array of 128 bytes; the model is that of names that
  fit, as all names of directory entries do. The test of the length in \<open>find_entries\<close> repeats the one its caller made.
\<close>

function find_file :: "(u8 list \<Rightarrow> fnode option) \<Rightarrow> u8 list \<Rightarrow> u8 list \<Rightarrow> nat \<Rightarrow> outs \<times> nat"
  and find_entries :: "(u8 list \<Rightarrow> fnode option) \<Rightarrow> u8 list \<Rightarrow> u8 list \<Rightarrow> (u16 \<times> u8 list) list \<Rightarrow> nat \<Rightarrow> outs \<times> nat" where
  "find_file fs path target n =
     (case (if n < NOFILE then fs path else None) of
        None \<Rightarrow> ([(2, cs ''find: cannot stat '' @ path @ [10])], n)
      | Some (FDir es) \<Rightarrow>
          if length path + 1 + 14 + 1 > 512 then ([(1, cs ''find: path too long'' @ [10])], Suc n)
          else find_entries fs path target es (Suc n)
      | Some _ \<Rightarrow> (if to_file_name path = target then [(1, path @ [10])] else [], n))"
| "find_entries fs path target [] n = ([], n)"
| "find_entries fs path target (e # es) n =
     (if skip_entry e \<or> length path + 1 + 14 + 1 > 512 then find_entries fs path target es n
      else case find_file fs (entry_path path (snd e)) target n of (out, n) \<Rightarrow>
           case find_entries fs path target es n of (out', n) \<Rightarrow> (out @ out', n))"
  by pat_completeness auto
termination
  by (relation "measures [\<lambda>x. case x of Inl (fs, path, target, n) \<Rightarrow> 2 * (512 - length path) + 1 | Inr (fs, path, target, es, n) \<Rightarrow> 2 * (512 - length path),
      \<lambda>x. case x of Inl _ \<Rightarrow> 0 | Inr (fs, path, target, es, n) \<Rightarrow> length es]")
    (auto simp: entry_path_def)

declare find_file.simps [simp del]

definition find_main :: "(u8 list \<Rightarrow> fnode option) \<Rightarrow> u8 list list \<Rightarrow> outs option" where
  "find_main fs argv =
     (case argv of
        [] \<Rightarrow> Some [(1, cs ''Need a path and a filename!'' @ [10])]
      | [path] \<Rightarrow> None
      | path # target # _ \<Rightarrow> Some (fst (find_file fs path target 3)))"

text \<open>The paths below a path, in the order of the directories.\<close>

function walk :: "(u8 list \<Rightarrow> fnode option) \<Rightarrow> u8 list \<Rightarrow> u8 list list" where
  "walk fs path = path #
     (case fs path of
        Some (FDir es) \<Rightarrow>
          if length path + 16 > 512 then []
          else concat (map (\<lambda>e. if skip_entry e then [] else walk fs (entry_path path (snd e))) es)
      | _ \<Rightarrow> [])"
  by pat_completeness auto
termination
  by (relation "measure (\<lambda>(fs, path). 512 - length path)") (auto simp: entry_path_def)

declare walk.simps [simp del]

definition is_dir :: "(u8 list \<Rightarrow> fnode option) \<Rightarrow> u8 list \<Rightarrow> bool" where
  "is_dir fs p \<longleftrightarrow> (case fs p of Some (FDir _) \<Rightarrow> True | _ \<Rightarrow> False)"

definition ndirs :: "(u8 list \<Rightarrow> fnode option) \<Rightarrow> u8 list list \<Rightarrow> nat" where
  "ndirs fs ps = length (filter (is_dir fs) ps)"

definition hits :: "(u8 list \<Rightarrow> fnode option) \<Rightarrow> u8 list \<Rightarrow> u8 list list \<Rightarrow> outs" where
  "hits fs target ps = map (\<lambda>p. (1, p @ [10])) (filter (\<lambda>p. \<not> is_dir fs p \<and> to_file_name p = target) ps)"

definition walk_entries :: "(u8 list \<Rightarrow> fnode option) \<Rightarrow> u8 list \<Rightarrow> (u16 \<times> u8 list) list \<Rightarrow> u8 list list" where
  "walk_entries fs path es = concat (map (\<lambda>e. if skip_entry e then [] else walk fs (entry_path path (snd e))) es)"

lemma ndirs_simps: "ndirs fs [] = 0" "ndirs fs (p # ps) = (if is_dir fs p then 1 else 0) + ndirs fs ps"
  "ndirs fs (ps @ qs) = ndirs fs ps + ndirs fs qs"
  by (simp_all add: ndirs_def)

lemma hits_simps: "hits fs t [] = []" "hits fs t (ps @ qs) = hits fs t ps @ hits fs t qs"
  "hits fs t (p # ps) = (if \<not> is_dir fs p \<and> to_file_name p = t then [(1, p @ [10])] else []) @ hits fs t ps"
  by (simp_all add: hits_def)

lemma find_walk:
  "\<lbrakk>n + ndirs fs (walk fs path) < NOFILE; \<forall>p \<in> set (walk fs path). fs p \<noteq> None \<and> length p + 16 \<le> 512\<rbrakk> \<Longrightarrow>
    find_file fs path target n = (hits fs target (walk fs path), n + ndirs fs (walk fs path))"
  "\<lbrakk>n + ndirs fs (walk_entries fs path es) < NOFILE; length path + 16 \<le> 512;
    \<forall>p \<in> set (walk_entries fs path es). fs p \<noteq> None \<and> length p + 16 \<le> 512\<rbrakk> \<Longrightarrow>
    find_entries fs path target es n = (hits fs target (walk_entries fs path es), n + ndirs fs (walk_entries fs path es))"
proof (induction fs path target n and fs path target es n rule: find_file_find_entries.induct)
  case (1 fs path target n)
  have ex: "fs path \<noteq> None" and len: "length path + 16 \<le> 512" using 1(3) by (subst (asm) walk.simps, simp)+
  have n: "n < NOFILE" using 1(2) by simp
  show ?case
  proof (cases "\<exists>es. fs path = Some (FDir es)")
    case True
    then obtain es where es: "fs path = Some (FDir es)" by blast
    have w: "walk fs path = path # walk_entries fs path es" using es len by (subst walk.simps) (simp add: walk_entries_def)
    have d: "is_dir fs path" using es by (simp add: is_dir_def)
    have "find_entries fs path target es (Suc n) =
        (hits fs target (walk_entries fs path es), Suc n + ndirs fs (walk_entries fs path es))"
      using 1(1) [of "FDir es" es] 1(2,3) es n len w d by (simp add: ndirs_simps)
    then show ?thesis using es n len w d by (subst find_file.simps) (simp add: ndirs_simps hits_simps)
  next
    case False
    then have "fs path = Some FFile \<or> fs path = Some FDevice" using ex by (metis fnode.exhaust option.exhaust)
    then show ?thesis using n
      by (subst find_file.simps, subst (1 2) walk.simps) (auto simp: ndirs_simps hits_simps is_dir_def)
  qed
next
  case (3 fs path target e es n)
  show ?case
  proof (cases "skip_entry e")
    case True
    then have "walk_entries fs path (e # es) = walk_entries fs path es" by (simp add: walk_entries_def)
    then show ?thesis using 3 True by simp
  next
    case False
    let ?p = "entry_path path (snd e)"
    have w: "walk_entries fs path (e # es) = walk fs ?p @ walk_entries fs path es" using False by (simp add: walk_entries_def)
    have c: "\<not> (skip_entry e \<or> length path + 1 + 14 + 1 > 512)" using False 3(5) by simp
    have a: "find_file fs ?p target n = (hits fs target (walk fs ?p), n + ndirs fs (walk fs ?p))"
      using 3(2) [OF c] 3(4,6) w by (simp add: ndirs_simps)
    have b: "find_entries fs path target es (n + ndirs fs (walk fs ?p)) =
        (hits fs target (walk_entries fs path es), n + ndirs fs (walk fs ?p) + ndirs fs (walk_entries fs path es))"
      using 3(3) [OF c a [symmetric]] 3(4-6) w by (simp add: ndirs_simps)
    show ?thesis using a b c w by (simp add: ndirs_simps hits_simps add.assoc)
  qed
qed (simp add: walk_entries_def ndirs_def hits_def)

text \<open>A directory with \<open>k\<close> empty subdirectories and then the file \<^verbatim>\<open>x\<close>, in the current directory.\<close>

definition wide_tree :: "nat \<Rightarrow> u8 list \<Rightarrow> fnode option" where
  "wide_tree k p =
     (if p = cs ''.'' then Some (FDir (map (\<lambda>i. (1, [100, 65 + of_nat i])) [0..<k] @ [(1, cs ''x'')]))
      else if p = cs ''./x'' then Some FFile
      else if length p = 4 then Some (FDir [])
      else None)"

text \<open>
  C27. \<^verbatim>\<open>find\<close> searches the tree below a path in the order of the directories and prints the paths of the files and
  devices, and not of the directories, with the wanted name. The directories of the tree must be fewer than the free
  descriptors, since \<^verbatim>\<open>find\<close> never closes the descriptor of a directory; every path of the tree must lead to something
  and leave room for a name in a buffer of 512 bytes.
\<close>

theorem find_correct:
  assumes "n + ndirs fs (walk fs path) < NOFILE"
    "\<forall>p \<in> set (walk fs path). fs p \<noteq> None \<and> length p + 16 \<le> 512"
  shows "find_file fs path target n = (hits fs target (walk fs path), n + ndirs fs (walk fs path))"
  using find_walk(1) [OF assms] .

lemma walk_wide_2: "walk (wide_tree 2) (cs ''.'') = [cs ''.'', cs ''./dA'', cs ''./dB'', cs ''./x'']"
  by (simp add: walk.simps wide_tree_def cs_def entry_path_def skip_entry_def upt_rec)

theorem find_correct_witness:
  "find_file (wide_tree 2) (cs ''.'') (cs ''x'') 3 = ([(1, cs ''./x'' @ [10])], 6)"
proof -
  have "3 + ndirs (wide_tree 2) (walk (wide_tree 2) (cs ''.'')) < NOFILE"
    "\<forall>p \<in> set (walk (wide_tree 2) (cs ''.'')). wide_tree 2 p \<noteq> None \<and> length p + 16 \<le> 512"
    unfolding walk_wide_2 by (simp_all add: ndirs_def is_dir_def wide_tree_def cs_def NOFILE_def)
  from find_correct [OF this, of "cs ''x''"] show ?thesis
    unfolding walk_wide_2
    by (simp add: ndirs_def hits_def is_dir_def wide_tree_def cs_def to_file_name_def)
qed

text \<open>The descriptors \<^verbatim>\<open>find\<close> has open in the end: one more for each directory, until there are no more.\<close>

lemma find_count:
  "\<lbrakk>n \<le> NOFILE; \<forall>p \<in> set (walk fs path). fs p \<noteq> None \<and> length p + 16 \<le> 512\<rbrakk> \<Longrightarrow>
    snd (find_file fs path target n) = min NOFILE (n + ndirs fs (walk fs path))"
  "\<lbrakk>n \<le> NOFILE; length path + 16 \<le> 512; \<forall>p \<in> set (walk_entries fs path es). fs p \<noteq> None \<and> length p + 16 \<le> 512\<rbrakk> \<Longrightarrow>
    snd (find_entries fs path target es n) = min NOFILE (n + ndirs fs (walk_entries fs path es))"
proof (induction fs path target n and fs path target es n rule: find_file_find_entries.induct)
  case (1 fs path target n)
  have ex: "fs path \<noteq> None" and len: "length path + 16 \<le> 512" using 1(3) by (subst (asm) walk.simps, simp)+
  show ?case
  proof (cases "n < NOFILE \<and> (\<exists>es. fs path = Some (FDir es))")
    case True
    then obtain es where es: "fs path = Some (FDir es)" and n: "n < NOFILE" by blast
    have w: "walk fs path = path # walk_entries fs path es" using es len by (subst walk.simps) (simp add: walk_entries_def)
    have d: "is_dir fs path" using es by (simp add: is_dir_def)
    have "snd (find_entries fs path target es (Suc n)) = min NOFILE (Suc n + ndirs fs (walk_entries fs path es))"
      using 1(1) [of "FDir es" es] 1(2,3) es n len w by simp
    then show ?thesis using es n len w d by (subst find_file.simps) (simp add: ndirs_simps)
  next
    case False
    then consider "n = NOFILE" | "n < NOFILE" "fs path = Some FFile \<or> fs path = Some FDevice"
      using ex 1(2) by (metis fnode.exhaust le_neq_implies_less option.exhaust)
    then show ?thesis
    proof cases
      case 1
      then show ?thesis by (subst find_file.simps) simp
    next
      case 2
      then have "ndirs fs (walk fs path) = 0" by (subst walk.simps) (auto simp: ndirs_simps is_dir_def)
      then show ?thesis using 2 by (subst find_file.simps) auto
    qed
  qed
next
  case (3 fs path target e es n)
  show ?case
  proof (cases "skip_entry e")
    case True
    then have "walk_entries fs path (e # es) = walk_entries fs path es" by (simp add: walk_entries_def)
    then show ?thesis using 3 True by simp
  next
    case False
    let ?p = "entry_path path (snd e)"
    have w: "walk_entries fs path (e # es) = walk fs ?p @ walk_entries fs path es" using False by (simp add: walk_entries_def)
    have c: "\<not> (skip_entry e \<or> length path + 1 + 14 + 1 > 512)" using False 3(5) by simp
    obtain o1 n1 where a: "find_file fs ?p target n = (o1, n1)" by (meson surj_pair)
    have n1: "n1 = min NOFILE (n + ndirs fs (walk fs ?p))" using 3(2) [OF c] 3(4,6) w a by simp
    have "snd (find_entries fs path target es n1) = min NOFILE (n1 + ndirs fs (walk_entries fs path es))"
      using 3(3) [OF c a [symmetric]] 3(5,6) w n1 by simp
    then show ?thesis using a c w n1 by (simp add: ndirs_simps case_prod_beta)
  qed
qed (simp add: walk_entries_def ndirs_def)

lemma find_entries_append:
  "find_entries fs path target (es @ es') n =
     (case find_entries fs path target es n of (out, n) \<Rightarrow> case find_entries fs path target es' n of (out', n) \<Rightarrow> (out @ out', n))"
  by (induction es arbitrary: n) (simp_all add: case_prod_beta)

lemma find_entries_exhausted:
  assumes "length path + 16 \<le> 512"
  shows "find_entries fs path target es NOFILE =
    (map (\<lambda>e. (2, cs ''find: cannot stat '' @ entry_path path (snd e) @ [10])) (filter (\<lambda>e. \<not> skip_entry e) es), NOFILE)"
  using assms by (induction es) (simp_all add: find_file.simps)

text \<open>
  C38. The leak of descriptors makes \<^verbatim>\<open>find\<close> miss files. When the directories in and under the first entries of a
  directory are as many as the descriptors that were left once it was open, each later entry of it is reported as one
  that cannot be examined, whatever it is, and neither it nor anything below it is searched.
\<close>

theorem find_leaks_descriptors:
  assumes "fs path = Some (FDir (es @ es'))" "n < NOFILE" "NOFILE \<le> Suc n + ndirs fs (walk_entries fs path es)"
    "length path + 16 \<le> 512" "\<forall>p \<in> set (walk_entries fs path es). fs p \<noteq> None \<and> length p + 16 \<le> 512"
  shows "find_file fs path target n =
    (fst (find_entries fs path target es (Suc n)) @
       map (\<lambda>e. (2, cs ''find: cannot stat '' @ entry_path path (snd e) @ [10])) (filter (\<lambda>e. \<not> skip_entry e) es'), NOFILE)"
proof -
  obtain o1 where e: "find_entries fs path target es (Suc n) = (o1, NOFILE)"
    using find_count(2) [of "Suc n" path fs es target] assms(2-5) by (cases "find_entries fs path target es (Suc n)") simp
  have "find_file fs path target n = find_entries fs path target (es @ es') (Suc n)"
    using assms(1,2,4) by (subst find_file.simps) simp
  then show ?thesis using e find_entries_exhausted [OF assms(4)] by (simp add: find_entries_append)
qed

theorem find_leaks_descriptors_witness:
  "find_file (wide_tree 12) (cs ''.'') (cs ''x'') 3 =
     (fst (find_entries (wide_tree 12) (cs ''.'') (cs ''x'') (map (\<lambda>i. (1, [100, 65 + of_nat i])) [0..<12]) 4) @
        [(2, cs ''find: cannot stat ./x'' @ [10])], NOFILE)"
proof -
  let ?es = "map (\<lambda>i. (1 :: u16, [100, 65 + of_nat i :: u8])) [0..<12]"
  have w: "walk_entries (wide_tree 12) (cs ''.'') ?es = map (\<lambda>i. cs ''./d'' @ [65 + of_nat i]) [0..<12]"
    by (simp add: walk_entries_def walk.simps wide_tree_def cs_def entry_path_def skip_entry_def upt_rec)
  have h: "\<forall>p \<in> set (walk_entries (wide_tree 12) (cs ''.'') ?es). wide_tree 12 p \<noteq> None \<and> length p + 16 \<le> 512"
    "NOFILE \<le> Suc 3 + ndirs (wide_tree 12) (walk_entries (wide_tree 12) (cs ''.'') ?es)"
    unfolding w by (simp_all add: wide_tree_def cs_def ndirs_def is_dir_def upt_rec NOFILE_def)
  have f: "wide_tree 12 (cs ''.'') = Some (FDir (?es @ [(1, cs ''x'')]))" by (simp add: wide_tree_def)
  have "length (cs ''.'') + 16 \<le> 512" "3 < NOFILE" by (simp_all add: cs_def NOFILE_def)
  from find_leaks_descriptors [OF f this(2) h(2) this(1) h(1), of "cs ''x''"] show ?thesis
    by (simp add: entry_path_def skip_entry_def cs_def)
qed

section \<open>\<open>xargs\<close>\<close>

definition MAX_LENGTH :: nat where
  "MAX_LENGTH = 30"

text \<open>
  The array \<^verbatim>\<open>params\<close>: each pointer is null or leads to its own buffer of 31 bytes. A store through a null pointer, or
  behind the array or a buffer, is an error, and the model ends there: the source goes on, and writes to the page at
  address 0, which holds its own code, or to the memory behind.
\<close>

type_synonym params = "nat \<Rightarrow> (nat \<Rightarrow> u8) option"

datatype 'a xres = XOk 'a | XNull | XOverflow

definition store_byte :: "params \<Rightarrow> nat \<Rightarrow> nat \<Rightarrow> u8 \<Rightarrow> params xres" where
  "store_byte ps c l b =
     (if c \<ge> MAXARG then XOverflow
      else case ps c of None \<Rightarrow> XNull | Some buf \<Rightarrow> if l > MAX_LENGTH then XOverflow else XOk (ps(c \<mapsto> buf(l := b))))"

primrec store_bytes :: "params \<Rightarrow> nat \<Rightarrow> nat \<Rightarrow> u8 list \<Rightarrow> params xres" where
  "store_bytes ps c l [] = XOk ps"
| "store_bytes ps c l (b # bs) =
     (case store_byte ps c l b of XOk ps \<Rightarrow> store_bytes ps c (Suc l) bs | XNull \<Rightarrow> XNull | XOverflow \<Rightarrow> XOverflow)"

text \<open>The first loop of \<^verbatim>\<open>more_to_read\<close> copies the arguments, with their NULs.\<close>

primrec copy_args :: "params \<Rightarrow> nat \<Rightarrow> u8 list list \<Rightarrow> params xres" where
  "copy_args ps c [] = XOk ps"
| "copy_args ps c (a # argv) =
     (case store_bytes ps c 0 (a @ [0]) of XOk ps \<Rightarrow> copy_args ps (Suc c) argv | XNull \<Rightarrow> XNull | XOverflow \<Rightarrow> XOverflow)"

text \<open>The second reads the standard input, a byte at a time, up to a newline; at the end of the input it returns 0.\<close>

primrec more_loop :: "params \<Rightarrow> nat \<Rightarrow> nat \<Rightarrow> u8 list \<Rightarrow> (params \<times> u8 list \<times> bool) xres" where
  "more_loop ps c l [] = XOk (ps, [], False)"
| "more_loop ps c l (a # inp) =
     (if a = 32
      then (case store_byte ps c l 0 of XOk ps \<Rightarrow> more_loop ps (Suc c) 0 inp | XNull \<Rightarrow> XNull | XOverflow \<Rightarrow> XOverflow)
      else if a = 10
      then (case store_byte ps c l 0 of
              XOk ps \<Rightarrow> if Suc c \<ge> MAXARG then XOverflow else XOk (ps(Suc c := None), inp, True)
            | XNull \<Rightarrow> XNull | XOverflow \<Rightarrow> XOverflow)
      else (case store_byte ps c l a of XOk ps \<Rightarrow> more_loop ps c (Suc l) inp | XNull \<Rightarrow> XNull | XOverflow \<Rightarrow> XOverflow))"

definition more_to_read :: "u8 list list \<Rightarrow> params \<Rightarrow> u8 list \<Rightarrow> (params \<times> u8 list \<times> bool) xres" where
  "more_to_read argv ps inp =
     (case copy_args ps 0 argv of
        XOk ps \<Rightarrow> more_loop ps (length argv) 0 inp | XNull \<Rightarrow> XNull | XOverflow \<Rightarrow> XOverflow)"

text \<open>The argument vector \<^verbatim>\<open>exec\<close> reads: the strings up to the first null pointer.\<close>

definition c_string :: "(nat \<Rightarrow> u8) \<Rightarrow> u8 list" where
  "c_string buf = takeWhile (\<lambda>b. b \<noteq> 0) (map buf [0..<Suc MAX_LENGTH])"

definition arg_vector :: "params \<Rightarrow> u8 list list" where
  "arg_vector ps = map (\<lambda>i. case ps i of Some buf \<Rightarrow> c_string buf | None \<Rightarrow> []) (takeWhile (\<lambda>i. ps i \<noteq> None) [0..<MAXARG])"

lemma more_loop_shorter:
  "more_loop ps c l inp = XOk (ps', inp', True) \<Longrightarrow> length inp' < length inp"
proof (induction inp arbitrary: ps c l)
  case (Cons a inp)
  show ?case using Cons.prems Cons.IH
    by (fastforce split: if_splits xres.splits intro: less_SucI)
qed simp

lemma more_to_read_shorter: "more_to_read argv ps inp = XOk (ps', inp', True) \<Longrightarrow> length inp' < length inp"
  unfolding more_to_read_def by (auto split: xres.splits dest: more_loop_shorter)

text \<open>The loop of \<^verbatim>\<open>main\<close>: the argument vectors of the commands run, and how it ends.\<close>

function xargs_loop :: "u8 list list \<Rightarrow> params \<Rightarrow> u8 list \<Rightarrow> u8 list list list \<times> unit xres" where
  "xargs_loop argv ps inp =
     (case more_to_read argv ps inp of
        XOk (ps', inp', True) \<Rightarrow> (case xargs_loop argv ps' inp' of (cmds, r) \<Rightarrow> (arg_vector ps' # cmds, r))
      | XOk (ps', inp', False) \<Rightarrow> ([], XOk ())
      | XNull \<Rightarrow> ([], XNull)
      | XOverflow \<Rightarrow> ([], XOverflow))"
  by pat_completeness auto
termination
  by (relation "measure (\<lambda>(argv, ps, inp). length inp)") (auto dest: more_to_read_shorter)

declare xargs_loop.simps [simp del]

text \<open>Fresh buffers have the contents \<open>junk\<close>.\<close>

definition xargs_main :: "(nat \<Rightarrow> nat \<Rightarrow> u8) \<Rightarrow> u8 list list \<Rightarrow> u8 list \<Rightarrow> outs \<times> u8 list list list \<times> unit xres" where
  "xargs_main junk argv inp =
     (if argv = [] then [(1, cs ''Xargs needs at least one params!'')] else [],
      xargs_loop argv (\<lambda>i. Some (junk i)) inp)"

subsection \<open>What a line does\<close>

definition filled :: "params \<Rightarrow> nat \<Rightarrow> u8 list list \<Rightarrow> bool" where
  "filled ps c ws \<longleftrightarrow> (\<forall>j < length ws. \<exists>buf. ps (c + j) = Some buf \<and> c_string buf = ws ! j)"

definition good_word :: "u8 list \<Rightarrow> bool" where
  "good_word w \<longleftrightarrow> length w \<le> MAX_LENGTH \<and> 0 \<notin> set w \<and> 10 \<notin> set w \<and> 32 \<notin> set w"

definition wr :: "(nat \<Rightarrow> u8) \<Rightarrow> nat \<Rightarrow> u8 list \<Rightarrow> nat \<Rightarrow> u8" where
  "wr buf l w = (\<lambda>i. if l \<le> i \<and> i < l + length w then w ! (i - l) else buf i)"

lemma wr_Cons: "wr (buf(l := b)) (Suc l) w = wr buf l (b # w)"
  by (rule ext) (auto simp: wr_def nth_Cons' less_Suc_eq_le Suc_le_eq)

lemma wr_Nil: "wr buf l [] = buf"
  by (rule ext) (auto simp: wr_def)

lemma c_string_wr:
  assumes "good_word w"
  shows "c_string ((wr buf 0 w)(length w := 0)) = w"
proof -
  let ?f = "(wr buf 0 w)(length w := 0)"
  have l: "length w \<le> MAX_LENGTH" using assms by (simp add: good_word_def)
  have "[0..<Suc MAX_LENGTH] = [0..<length w] @ [length w] @ [Suc (length w)..<Suc MAX_LENGTH]"
    using l by (metis append_Cons append_Nil le_SucI le_imp_less_Suc upt_add_eq_append upt_conv_Cons le0 le_add_diff_inverse)
  moreover have "map ?f [0..<length w] = w" by (rule nth_equalityI) (simp_all add: wr_def)
  ultimately have "map ?f [0..<Suc MAX_LENGTH] = w @ 0 # map ?f [Suc (length w)..<Suc MAX_LENGTH]"
    by (simp del: upt_Suc)
  moreover have "takeWhile (\<lambda>b. b \<noteq> 0) (w @ 0 # r) = w" for r
    using assms by (subst takeWhile_append2) (auto simp: good_word_def)
  ultimately show ?thesis by (simp only: c_string_def)
qed

lemma store_byte_ok: "\<lbrakk>c < MAXARG; ps c = Some buf; l \<le> MAX_LENGTH\<rbrakk> \<Longrightarrow> store_byte ps c l b = XOk (ps(c \<mapsto> buf(l := b)))"
  by (simp add: store_byte_def)

lemma store_bytes_ok:
  "\<lbrakk>c < MAXARG; ps c = Some buf; l + length w \<le> Suc MAX_LENGTH\<rbrakk> \<Longrightarrow> store_bytes ps c l w = XOk (ps(c \<mapsto> wr buf l w))"
proof (induction w arbitrary: ps buf l)
  case (Cons b w)
  have "store_bytes (ps(c \<mapsto> buf(l := b))) c (Suc l) w = XOk (ps(c \<mapsto> wr buf l (b # w)))"
    by (rule Cons.IH [of "ps(c \<mapsto> buf(l := b))" "buf(l := b)" "Suc l", unfolded wr_Cons fun_upd_upd])
      (use Cons.prems in \<open>simp_all add: fun_upd_same del: fun_upd_apply\<close>)
  moreover have "store_byte ps c l b = XOk (ps(c \<mapsto> buf(l := b)))" using Cons.prems by (intro store_byte_ok) simp_all
  ultimately show ?case by (simp only: store_bytes.simps xres.case)
qed (simp add: wr_Nil fun_upd_idem)

lemma more_loop_word:
  "\<lbrakk>c < MAXARG; ps c = Some buf; l + length w \<le> MAX_LENGTH; 10 \<notin> set w; 32 \<notin> set w\<rbrakk> \<Longrightarrow>
    more_loop ps c l (w @ rest) = more_loop (ps(c \<mapsto> wr buf l w)) c (l + length w) rest"
proof (induction w arbitrary: ps buf l)
  case (Cons b w)
  have "more_loop (ps(c \<mapsto> buf(l := b))) c (Suc l) (w @ rest) = more_loop (ps(c \<mapsto> wr buf l (b # w))) c (Suc l + length w) rest"
    by (rule Cons.IH [of "ps(c \<mapsto> buf(l := b))" "buf(l := b)" "Suc l", unfolded wr_Cons fun_upd_upd])
      (use Cons.prems in \<open>simp_all add: fun_upd_same del: fun_upd_apply\<close>)
  moreover have "store_byte ps c l b = XOk (ps(c \<mapsto> buf(l := b)))" using Cons.prems by (intro store_byte_ok) simp_all
  moreover have "b \<noteq> 10" "b \<noteq> 32" using Cons.prems by simp_all
  ultimately show ?case by (simp only: append_Cons more_loop.simps xres.case if_False list.size add_Suc_right add_Suc add_0_right)
qed (simp add: wr_Nil fun_upd_idem)

lemma store_end:
  assumes "c < MAXARG" "good_word w"
  shows "store_byte (ps(c \<mapsto> wr buf 0 w)) c (0 + length w) 0 = XOk (ps(c \<mapsto> (wr buf 0 w)(length w := 0)))"
  using assms store_byte_ok [of c "ps(c \<mapsto> wr buf 0 w)" "wr buf 0 w" "length w" 0]
  unfolding fun_upd_upd by (simp add: good_word_def)

lemma more_loop_space:
  assumes "c < MAXARG" "ps c = Some buf" "good_word w"
  shows "more_loop ps c 0 (w @ 32 # rest) = more_loop (ps(c \<mapsto> (wr buf 0 w)(length w := 0))) (Suc c) 0 rest"
proof -
  have "more_loop ps c 0 (w @ 32 # rest) = more_loop (ps(c \<mapsto> wr buf 0 w)) c (0 + length w) (32 # rest)"
    using assms by (intro more_loop_word) (simp_all add: good_word_def)
  also have "\<dots> = (case store_byte (ps(c \<mapsto> wr buf 0 w)) c (0 + length w) 0 of
      XOk ps \<Rightarrow> more_loop ps (Suc c) 0 rest | XNull \<Rightarrow> XNull | XOverflow \<Rightarrow> XOverflow)" by (subst more_loop.simps) (rule if_P, rule refl)
  finally show ?thesis unfolding store_end [OF assms(1,3)] by (simp only: xres.case)
qed

lemma more_loop_end:
  assumes "c < MAXARG" "ps c = Some buf" "good_word w" "Suc c < MAXARG"
  shows "more_loop ps c 0 (w @ 10 # rest) = XOk (ps(c \<mapsto> (wr buf 0 w)(length w := 0), Suc c := None), rest, True)"
proof -
  have "more_loop ps c 0 (w @ 10 # rest) = more_loop (ps(c \<mapsto> wr buf 0 w)) c (0 + length w) (10 # rest)"
    using assms by (intro more_loop_word) (simp_all add: good_word_def)
  also have "\<dots> = (case store_byte (ps(c \<mapsto> wr buf 0 w)) c (0 + length w) 0 of
      XOk ps \<Rightarrow> if Suc c \<ge> MAXARG then XOverflow else XOk (ps(Suc c := None), rest, True) | XNull \<Rightarrow> XNull | XOverflow \<Rightarrow> XOverflow)"
    by (subst more_loop.simps) (subst if_not_P, simp, subst if_P, rule refl, rule refl)
  finally show ?thesis unfolding store_end [OF assms(1,3)] using assms(4) by (simp only: xres.case not_le [symmetric] if_False)
qed

text \<open>The words of a line, each followed by a space but the last.\<close>

fun line :: "u8 list list \<Rightarrow> u8 list" where
  "line [] = []"
| "line [w] = w"
| "line (w # v # ws) = w @ 32 # line (v # ws)"

lemma wr_snoc: "(wr buf 0 w)(length w := b) = wr buf 0 (w @ [b])"
  by (rule ext) (auto simp: wr_def nth_append)

lemma more_loop_line:
  "\<lbrakk>ws \<noteq> []; \<forall>w \<in> set ws. good_word w; c + length ws < MAXARG; \<forall>j < length ws. ps (c + j) \<noteq> None\<rbrakk> \<Longrightarrow>
    \<exists>ps'. more_loop ps c 0 (line ws @ 10 # rest) = XOk (ps', rest, True) \<and> filled ps' c ws \<and>
      ps' (c + length ws) = None \<and> (\<forall>k. k < c \<or> c + length ws < k \<longrightarrow> ps' k = ps k)"
proof (induction ws arbitrary: ps c rule: line.induct)
  case (2 w)
  obtain buf where b: "ps c = Some buf" using 2(4) by auto
  have g: "good_word w" using 2(2) by simp
  have "more_loop ps c 0 (line [w] @ 10 # rest) = XOk (ps(c \<mapsto> (wr buf 0 w)(length w := 0), Suc c := None), rest, True)"
    using 2(3) more_loop_end [of c ps buf w rest] b g by simp
  then show ?case by (intro exI conjI, assumption) (auto simp: filled_def c_string_wr [OF g])
next
  case (3 w v ws)
  obtain buf where b: "ps c = Some buf" using 3(5) by (metis add_0_right length_greater_0_conv list.distinct(1) option.exhaust)
  have g: "good_word w" using 3(3) by simp
  let ?ps = "ps(c \<mapsto> (wr buf 0 w)(length w := 0))"
  have step: "more_loop ps c 0 (line (w # v # ws) @ 10 # rest) = more_loop ?ps (Suc c) 0 (line (v # ws) @ 10 # rest)"
    using 3(4) more_loop_space [of c ps buf w "line (v # ws) @ 10 # rest"] b g by simp
  have "\<forall>j < length (v # ws). ?ps (Suc c + j) \<noteq> None"
  proof (intro allI impI)
    fix j assume "j < length (v # ws)"
    then show "?ps (Suc c + j) \<noteq> None" using 3(5) [rule_format, of "Suc j"] by simp
  qed
  then obtain ps' where p: "more_loop ?ps (Suc c) 0 (line (v # ws) @ 10 # rest) = XOk (ps', rest, True)"
    "filled ps' (Suc c) (v # ws)" "ps' (Suc c + length (v # ws)) = None" "\<forall>k. k < Suc c \<or> Suc c + length (v # ws) < k \<longrightarrow> ps' k = ?ps k"
    using 3(1) [of "Suc c" ?ps] 3(3,4) by (auto simp del: fun_upd_apply)
  have "filled ps' c (w # v # ws)"
    unfolding filled_def
  proof (intro allI impI)
    fix j assume j: "j < length (w # v # ws)"
    show "\<exists>buf. ps' (c + j) = Some buf \<and> c_string buf = (w # v # ws) ! j"
    proof (cases j)
      case 0
      then show ?thesis using p(4) c_string_wr [OF g] by simp
    next
      case (Suc i)
      then show ?thesis using p(2) j unfolding filled_def by (auto dest: spec [of _ i])
    qed
  qed
  then show ?case using step p(1,3,4) by (intro exI [of _ ps'] conjI) auto
qed simp

lemma copy_args_ok:
  "\<lbrakk>\<forall>w \<in> set argv. good_word w; c + length argv \<le> MAXARG; \<forall>j < length argv. ps (c + j) \<noteq> None\<rbrakk> \<Longrightarrow>
    \<exists>ps'. copy_args ps c argv = XOk ps' \<and> filled ps' c argv \<and> (\<forall>k. k < c \<or> c + length argv \<le> k \<longrightarrow> ps' k = ps k)"
proof (induction argv arbitrary: ps c)
  case (Cons w argv)
  obtain buf where b: "ps c = Some buf" using Cons(4) by (metis add_0_right length_greater_0_conv list.distinct(1) option.exhaust)
  have g: "good_word w" using Cons(2) by simp
  let ?ps = "ps(c \<mapsto> (wr buf 0 w)(length w := 0))"
  have step: "store_bytes ps c 0 (w @ [0]) = XOk ?ps"
    using store_bytes_ok [of c ps buf 0 "w @ [0]"] Cons(3) g b by (simp add: good_word_def wr_snoc)
  have "\<forall>j < length argv. ?ps (Suc c + j) \<noteq> None"
  proof (intro allI impI)
    fix j assume "j < length argv"
    then show "?ps (Suc c + j) \<noteq> None" using Cons(4) [rule_format, of "Suc j"] by simp
  qed
  then obtain ps' where p: "copy_args ?ps (Suc c) argv = XOk ps'" "filled ps' (Suc c) argv"
    "\<forall>k. k < Suc c \<or> Suc c + length argv \<le> k \<longrightarrow> ps' k = ?ps k"
    using Cons(1) [of "Suc c" ?ps] Cons(2,3) by (auto simp del: fun_upd_apply)
  have "filled ps' c (w # argv)"
    unfolding filled_def
  proof (intro allI impI)
    fix j assume j: "j < length (w # argv)"
    show "\<exists>buf. ps' (c + j) = Some buf \<and> c_string buf = (w # argv) ! j"
    proof (cases j)
      case 0
      then show ?thesis using p(3) c_string_wr [OF g] by simp
    next
      case (Suc i)
      then show ?thesis using p(2) j unfolding filled_def by (auto dest: spec [of _ i])
    qed
  qed
  then show ?case using step p(1,3) by (intro exI [of _ ps'] conjI) auto
qed (simp add: filled_def)

lemma more_to_read_line:
  assumes "\<forall>w \<in> set argv. good_word w" "\<forall>w \<in> set ws. good_word w" "ws \<noteq> []" "length argv + length ws < MAXARG"
    "\<forall>j < length argv + length ws. ps j \<noteq> None"
  shows "\<exists>ps'. more_to_read argv ps (line ws @ 10 # rest) = XOk (ps', rest, True) \<and> arg_vector ps' = argv @ ws \<and>
    (\<forall>j < length argv + length ws. ps' j \<noteq> None) \<and> ps' (length argv + length ws) = None"
proof -
  let ?c = "length argv"
  have "\<forall>j < length argv. ps (0 + j) \<noteq> None" using assms(5) by simp
  from copy_args_ok [OF assms(1) _ this] obtain p where p: "copy_args ps 0 argv = XOk p" "filled p 0 argv"
    "\<forall>k. ?c \<le> k \<longrightarrow> p k = ps k" using assms(4) by auto
  have "\<forall>j < length ws. p (?c + j) \<noteq> None" using p(3) assms(5) by simp
  from more_loop_line [OF assms(3,2,4) this] obtain q where q: "more_loop p ?c 0 (line ws @ 10 # rest) = XOk (q, rest, True)"
    "filled q ?c ws" "q (?c + length ws) = None" "\<forall>k. k < ?c \<longrightarrow> q k = p k" by blast
  have el: "\<exists>buf. q j = Some buf \<and> c_string buf = (argv @ ws) ! j" if "j < ?c + length ws" for j
  proof (cases "j < ?c")
    case True
    then show ?thesis using q(4) p(2) by (auto simp: filled_def nth_append)
  next
    case False
    then show ?thesis using q(2) [unfolded filled_def, rule_format, of "j - ?c"] that by (simp add: nth_append)
  qed
  let ?n = "?c + length ws"
  have "[0..<MAXARG] = [0..<?n] @ ?n # [Suc ?n..<MAXARG]"
    using assms(4) by (metis append_Cons append_Nil le0 le_add_diff_inverse less_imp_le_nat upt_add_eq_append upt_conv_Cons)
  then have "takeWhile (\<lambda>i. q i \<noteq> None) [0..<MAXARG] = [0..<?n]"
    using el q(3) by (simp only:) (subst takeWhile_append2, auto)
  then have "arg_vector q = map (\<lambda>i. case q i of Some buf \<Rightarrow> c_string buf | None \<Rightarrow> []) [0..<?n]"
    by (simp add: arg_vector_def)
  also have "\<dots> = argv @ ws" using el by (intro nth_equalityI) (force split: option.split)+
  finally have "arg_vector q = argv @ ws" .
  moreover have "\<forall>j < ?n. q j \<noteq> None" using el by blast
  ultimately show ?thesis using p(1) q(1,3) by (intro exI [of _ q]) (simp add: more_to_read_def)
qed

text \<open>The input made of lines of words, and the condition that no line has more words than the one before.\<close>

definition input :: "u8 list list list \<Rightarrow> u8 list" where
  "input lss = concat (map (\<lambda>ws. line ws @ [10]) lss)"

lemma more_loop_partial:
  "10 \<notin> set inp \<Longrightarrow> more_loop ps c l inp \<noteq> XOk (ps', inp', True)"
  by (induction inp arbitrary: ps c l) (auto split: xres.splits)

lemma xargs_loop_lines:
  "\<lbrakk>\<forall>w \<in> set argv. good_word w; \<forall>ws \<in> set lss. ws \<noteq> [] \<and> (\<forall>w \<in> set ws. good_word w) \<and> length argv + length ws < MAXARG;
    sorted_wrt (\<lambda>ws vs. length vs \<le> length ws) lss; \<forall>ws \<in> set lss. \<forall>j < length argv + length ws. ps j \<noteq> None;
    \<forall>j < length argv. ps j \<noteq> None; length argv \<le> MAXARG\<rbrakk> \<Longrightarrow>
    xargs_loop argv ps (input lss) = (map ((@) argv) lss, XOk ())"
proof (induction lss arbitrary: ps)
  case Nil
  have "\<forall>j < length argv. ps (0 + j) \<noteq> None" using Nil(5) by simp
  from copy_args_ok [OF Nil(1) _ this] obtain p where "copy_args ps 0 argv = XOk p" using Nil(6) by auto
  then show ?case by (subst xargs_loop.simps) (simp add: input_def more_to_read_def)
next
  case (Cons ws lss)
  have ws: "\<forall>w \<in> set ws. good_word w" "ws \<noteq> []" "length argv + length ws < MAXARG" "\<forall>j < length argv + length ws. ps j \<noteq> None"
    using Cons(3,5) by simp_all
  obtain q where q: "more_to_read argv ps (line ws @ 10 # input lss) = XOk (q, input lss, True)" "arg_vector q = argv @ ws"
    "\<forall>j < length argv + length ws. q j \<noteq> None" using more_to_read_line [OF Cons(2) ws(1-4), of "input lss"] by blast
  have le: "\<forall>vs \<in> set lss. length vs \<le> length ws" using Cons(4) by simp
  have "xargs_loop argv q (input lss) = (map ((@) argv) lss, XOk ())"
  proof (rule Cons.IH)
    show "\<forall>vs \<in> set lss. \<forall>j < length argv + length vs. q j \<noteq> None" using le q(3) by (meson add_le_cancel_left less_le_trans)
  qed (use Cons q(3) in auto)
  then show ?case using q(1,2) by (subst xargs_loop.simps) (simp add: input_def)
qed



text \<open>A null pointer in the array is reached by a line with too many words.\<close>

lemma more_loop_null:
  "\<lbrakk>\<forall>w \<in> set ws. good_word w; m < length ws; c + m < MAXARG; \<forall>j < m. ps (c + j) \<noteq> None; ps (c + m) = None\<rbrakk> \<Longrightarrow>
    more_loop ps c 0 (line ws @ 10 # rest) = XNull"
proof (induction ws arbitrary: ps c m rule: line.induct)
  case (2 w)
  then have n: "ps c = None" "c < MAXARG" "10 \<notin> set w" "32 \<notin> set w" by (simp_all add: good_word_def)
  then show ?case by (cases w) (auto simp: store_byte_def)
next
  case (3 w v ws)
  have g: "good_word w" using 3(2) by simp
  show ?case
  proof (cases m)
    case 0
    then have n: "ps c = None" "c < MAXARG" "10 \<notin> set w" "32 \<notin> set w" using 3(4,6) g by (simp_all add: good_word_def)
    then show ?thesis by (cases w) (auto simp: store_byte_def)
  next
    case (Suc k)
    then obtain buf where b: "ps c = Some buf" using 3(5) by (metis add_0_right option.exhaust zero_less_Suc)
    let ?ps = "ps(c \<mapsto> (wr buf 0 w)(length w := 0))"
    have step: "more_loop ps c 0 (line (w # v # ws) @ 10 # rest) = more_loop ?ps (Suc c) 0 (line (v # ws) @ 10 # rest)"
      using 3(4) more_loop_space [of c ps buf w "line (v # ws) @ 10 # rest"] b g by simp
    have "?ps (Suc c + j) \<noteq> None" if "j < k" for j using 3(5) [rule_format, of "Suc j"] that Suc by simp
    then have "more_loop ?ps (Suc c) 0 (line (v # ws) @ 10 # rest) = XNull"
      using 3(2,3,4,6) Suc by (intro 3(1) [of k]) (simp_all del: fun_upd_apply, simp)
    then show ?thesis using step by simp
  qed
qed simp

lemma more_loop_unterminated:
  "\<lbrakk>\<forall>w \<in> set ws. good_word w; c + length ws \<le> MAXARG; \<forall>j < length ws. ps (c + j) \<noteq> None\<rbrakk> \<Longrightarrow>
    \<exists>ps'. more_loop ps c 0 (line ws) = XOk (ps', [], False)"
proof (induction ws arbitrary: ps c rule: line.induct)
  case (2 w)
  then obtain buf where "ps c = Some buf" by auto
  then show ?case using 2 more_loop_word [of c ps buf 0 w "[]"] by (simp add: good_word_def)
next
  case (3 w v ws)
  have g: "good_word w" using 3(2) by simp
  obtain buf where b: "ps c = Some buf" using 3(4) by (metis add_0_right length_greater_0_conv list.distinct(1) option.exhaust)
  let ?ps = "ps(c \<mapsto> (wr buf 0 w)(length w := 0))"
  have step: "more_loop ps c 0 (line (w # v # ws)) = more_loop ?ps (Suc c) 0 (line (v # ws))"
    using 3(3) more_loop_space [of c ps buf w "line (v # ws)"] b g by simp
  have "?ps (Suc c + j) \<noteq> None" if "j < length (v # ws)" for j using 3(4) [rule_format, of "Suc j"] that by simp
  then have "\<exists>ps'. more_loop ?ps (Suc c) 0 (line (v # ws)) = XOk (ps', [], False)"
    using 3(2,3) by (intro 3(1)) (simp_all del: fun_upd_apply)
  then show ?case using step by simp
qed simp

text \<open>
  After lines it handles, \<^verbatim>\<open>xargs\<close> goes on with the rest of the input, with the null pointer that ended the arguments of
  the last line still in the array.
\<close>

lemma xargs_loop_prefix:
  "\<lbrakk>\<forall>w \<in> set argv. good_word w; \<forall>ws \<in> set lss. ws \<noteq> [] \<and> (\<forall>w \<in> set ws. good_word w) \<and> length argv + length ws < MAXARG;
    sorted_wrt (\<lambda>ws vs. length vs \<le> length ws) lss; \<forall>ws \<in> set lss. \<forall>j < length argv + length ws. ps j \<noteq> None; lss \<noteq> []\<rbrakk> \<Longrightarrow>
    \<exists>q. xargs_loop argv ps (input lss @ rest) = (case xargs_loop argv q rest of (cmds, r) \<Rightarrow> (map ((@) argv) lss @ cmds, r)) \<and>
      (\<forall>j < length argv + length (last lss). q j \<noteq> None) \<and> q (length argv + length (last lss)) = None"
proof (induction lss arbitrary: ps)
  case (Cons ws lss)
  have ws: "\<forall>w \<in> set ws. good_word w" "ws \<noteq> []" "length argv + length ws < MAXARG" "\<forall>j < length argv + length ws. ps j \<noteq> None"
    using Cons(3,5) by simp_all
  obtain q where q: "more_to_read argv ps (line ws @ 10 # input lss @ rest) = XOk (q, input lss @ rest, True)" "arg_vector q = argv @ ws"
    "\<forall>j < length argv + length ws. q j \<noteq> None" "q (length argv + length ws) = None"
    using more_to_read_line [OF Cons(2) ws(1-4), of "input lss @ rest"] by blast
  have step: "xargs_loop argv ps (input (ws # lss) @ rest) =
      (case xargs_loop argv q (input lss @ rest) of (cmds, r) \<Rightarrow> ((argv @ ws) # cmds, r))"
    using q(1,2) by (subst xargs_loop.simps) (simp add: input_def)
  show ?case
  proof (cases "lss = []")
    case True
    then show ?thesis using step q(3,4) by (intro exI [of _ q]) (simp add: input_def)
  next
    case False
    have le: "\<forall>vs \<in> set lss. length vs \<le> length ws" using Cons(4) by simp
    then have "\<forall>vs \<in> set lss. \<forall>j < length argv + length vs. q j \<noteq> None" using q(3) by (meson add_le_cancel_left less_le_trans)
    then obtain q' where "xargs_loop argv q (input lss @ rest) = (case xargs_loop argv q' rest of (cmds, r) \<Rightarrow> (map ((@) argv) lss @ cmds, r))"
      "\<forall>j < length argv + length (last lss). q' j \<noteq> None" "q' (length argv + length (last lss)) = None"
      using Cons.IH [of q] Cons(2-4) False by auto
    then show ?thesis using step False by (intro exI [of _ q']) (simp add: case_prod_beta)
  qed
qed simp


text \<open>
  C40. A last line that does not end with a newline is not run by \<^verbatim>\<open>xargs\<close>: after any lines that are run, such a line, with
  no more words than they have, is read and dropped.
\<close>

theorem xargs_last_line:
  assumes "\<forall>w \<in> set argv. good_word w"
    "\<forall>ws \<in> set (lss @ [vs]). ws \<noteq> [] \<and> (\<forall>w \<in> set ws. good_word w) \<and> length argv + length ws < MAXARG"
    "sorted_wrt (\<lambda>ws vs. length vs \<le> length ws) (lss @ [vs])" "0 < length argv"
  shows "xargs_main junk argv (input lss @ line vs) = ([], map ((@) argv) lss, XOk ())"
proof -
  let ?ps = "\<lambda>i. Some (junk i)" and ?c = "length argv"
  obtain q where q: "xargs_loop argv ?ps (input lss @ line vs) = (case xargs_loop argv q (line vs) of (cmds, r) \<Rightarrow> (map ((@) argv) lss @ cmds, r))"
    "\<forall>j < ?c + length vs. q j \<noteq> None"
  proof (cases "lss = []")
    case True
    then show ?thesis using that [of ?ps] by (simp add: input_def case_prod_beta)
  next
    case False
    have "length vs \<le> length (last lss)" using assms(3) False by (simp add: sorted_wrt_append)
    then show ?thesis
      using that xargs_loop_prefix [OF assms(1) _ _ _ False, of ?ps "line vs"] assms(2,3) by (fastforce simp: sorted_wrt_append)
  qed
  have l: "?c + length vs < MAXARG" using assms(2) by simp
  have "\<forall>j < ?c. q (0 + j) \<noteq> None" using q(2) by simp
  from copy_args_ok [OF assms(1) _ this] obtain p where p: "copy_args q 0 argv = XOk p" "\<forall>k. ?c \<le> k \<longrightarrow> p k = q k" using l by auto
  obtain p' where "more_loop p ?c 0 (line vs) = XOk (p', [], False)"
    using more_loop_unterminated [of vs ?c p] assms(2) l p(2) q(2) by auto
  then have "xargs_loop argv q (line vs) = ([], XOk ())" using p(1) by (subst xargs_loop.simps) (simp add: more_to_read_def)
  then show ?thesis using q(1) assms(4) by (simp add: xargs_main_def)
qed


theorem xargs_last_line_witness:
  "xargs_main (\<lambda>_ _. 7) [cs ''echo''] (cs ''a b'' @ [10] @ cs ''c'') = ([], [[cs ''echo'', cs ''a'', cs ''b'']], XOk ())"
proof -
  have "input [[cs ''a'', cs ''b'']] @ line [cs ''c''] = cs ''a b'' @ [10] @ cs ''c''" by (simp add: input_def cs_def)
  moreover have "xargs_main (\<lambda>_ _. 7) [cs ''echo''] (input [[cs ''a'', cs ''b'']] @ line [cs ''c'']) =
      ([], map ((@) [cs ''echo'']) [[cs ''a'', cs ''b'']], XOk ())"
    by (rule xargs_last_line) (simp_all add: good_word_def cs_def MAX_LENGTH_def MAXARG_def)
  ultimately show ?thesis by simp
qed

end
