(* ===== verification/Sh.thy ===== *)
theory Sh
  imports Uprogs
begin

text \<open>
  The shell, \<^verbatim>\<open>user/sh.c\<close>. The text of a command is the list of its bytes without the terminating NUL; a pointer into it is
  a position, and the parsed command holds the positions of its strings, as in the source, until \<^verbatim>\<open>nulterminate\<close> ends
  each string in place. A \<^verbatim>\<open>panic\<close> of the shell is \<open>Panic\<close>. Memory for commands does not run out.
\<close>

section \<open>Tokens\<close>

definition whitespace :: "u8 list" where
  "whitespace = [32, 9, 13, 10, 11]"

definition symbols :: "u8 list" where
  "symbols = [60, 124, 62, 38, 59, 40, 41]"

definition is_ws :: "u8 \<Rightarrow> bool" where
  "is_ws b \<longleftrightarrow> strchr whitespace b \<noteq> None"

definition is_sym :: "u8 \<Rightarrow> bool" where
  "is_sym b \<longleftrightarrow> strchr symbols b \<noteq> None"

text \<open>The character at a position: the NUL that ends the text is at its end.\<close>

definition chr_at :: "u8 list \<Rightarrow> nat \<Rightarrow> u8" where
  "chr_at buf s = (if s < length buf then buf ! s else 0)"

function skip_ws :: "u8 list \<Rightarrow> nat \<Rightarrow> nat" where
  "skip_ws buf s = (if s < length buf \<and> is_ws (chr_at buf s) then skip_ws buf (Suc s) else s)"
  by pat_completeness auto
termination
  by (relation "measure (\<lambda>(buf, s). length buf - s)") auto

function skip_word :: "u8 list \<Rightarrow> nat \<Rightarrow> nat" where
  "skip_word buf s =
     (if s < length buf \<and> \<not> is_ws (chr_at buf s) \<and> \<not> is_sym (chr_at buf s) then skip_word buf (Suc s) else s)"
  by pat_completeness auto
termination
  by (relation "measure (\<lambda>(buf, s). length buf - s)") auto

declare skip_ws.simps [simp del] skip_word.simps [simp del]

text \<open>\<^verbatim>\<open>gettoken\<close> returns the token, its start and end, and the new position.\<close>

definition gettoken :: "u8 list \<Rightarrow> nat \<Rightarrow> u8 \<times> nat \<times> nat \<times> nat" where
  "gettoken buf s =
     (let q = skip_ws buf s; c = chr_at buf q;
          (ret, eq) =
            (if c = 0 then (0, q)
             else if c \<in> {124, 40, 41, 59, 38, 60} then (c, Suc q)
             else if c = 62 then (if chr_at buf (Suc q) = 62 then (43, Suc (Suc q)) else (62, Suc q))
             else (97, skip_word buf q))
      in (ret, q, eq, skip_ws buf eq))"

definition peek :: "u8 list \<Rightarrow> nat \<Rightarrow> u8 list \<Rightarrow> nat \<times> bool" where
  "peek buf s toks =
     (let s = skip_ws buf s in (s, chr_at buf s \<noteq> 0 \<and> strchr toks (chr_at buf s) \<noteq> None))"

section \<open>Parsing\<close>

text \<open>A command over its strings \<open>'s\<close>: while parsing, the positions of the start and the end.\<close>

datatype 's cmd =
    EXEC "'s list"
  | REDIR "'s cmd" 's int int
  | PIPE "'s cmd" "'s cmd"
  | LIST "'s cmd" "'s cmd"
  | BACK "'s cmd"

type_synonym span = "nat \<times> nat"

abbreviation MAXARGS :: nat where "MAXARGS \<equiv> 10"
abbreviation O_RDONLY :: int where "O_RDONLY \<equiv> 0"
abbreviation O_WRONLY :: int where "O_WRONLY \<equiv> 1"
abbreviation O_CREATE :: int where "O_CREATE \<equiv> 0x200"
abbreviation O_TRUNC :: int where "O_TRUNC \<equiv> 0x400"

lemma skip_ws_le: "s \<le> skip_ws buf s"
proof (induction buf s rule: skip_ws.induct)
  case (1 buf s)
  then show ?case by (subst skip_ws.simps) (auto dest: Suc_leD)
qed

lemma skip_ws_bound: "s \<le> length buf \<Longrightarrow> skip_ws buf s \<le> length buf"
proof (induction buf s rule: skip_ws.induct)
  case (1 buf s)
  then show ?case by (subst skip_ws.simps) auto
qed

lemma skip_word_le: "s \<le> skip_word buf s"
proof (induction buf s rule: skip_word.induct)
  case (1 buf s)
  then show ?case by (subst skip_word.simps) (auto dest: Suc_leD)
qed

lemma skip_word_bound: "s \<le> length buf \<Longrightarrow> skip_word buf s \<le> length buf"
proof (induction buf s rule: skip_word.induct)
  case (1 buf s)
  then show ?case by (subst skip_word.simps) auto
qed

lemma chr_at_nz: "chr_at buf s \<noteq> 0 \<Longrightarrow> s < length buf"
  by (simp add: chr_at_def split: if_splits)

lemma gettoken_mono:
  assumes "gettoken buf s = (t, q, eq, s')"
  shows "s \<le> s'" "t \<noteq> 0 \<Longrightarrow> t \<noteq> 97 \<Longrightarrow> s < s'"
proof -
  let ?q = "skip_ws buf s"
  have "?q \<le> eq \<and> (t \<noteq> 0 \<longrightarrow> t \<noteq> 97 \<longrightarrow> ?q < eq) \<and> s' = skip_ws buf eq"
    using assms skip_word_le [of ?q buf] by (auto simp: gettoken_def Let_def split: if_splits)
  then show "s \<le> s'" "t \<noteq> 0 \<Longrightarrow> t \<noteq> 97 \<Longrightarrow> s < s'"
    using skip_ws_le [of s buf] skip_ws_le [of eq buf] by auto
qed

text \<open>A word that \<^verbatim>\<open>peek\<close> saw no symbol before is not empty.\<close>

lemma gettoken_word:
  assumes "gettoken buf s = (97, q, eq, s')"
  shows "q = skip_ws buf s \<and> eq = skip_word buf q \<and> s' = skip_ws buf eq \<and> chr_at buf q \<noteq> 0 \<and> chr_at buf q \<notin> {124, 40, 41, 59, 38, 60, 62}"
  using assms by (auto simp: gettoken_def Let_def split: if_splits)

lemma is_sym_iff: "is_sym c \<longleftrightarrow> c \<in> {60, 124, 62, 38, 59, 40, 41}"
  by (auto simp: is_sym_def symbols_def)

lemma is_ws_iff: "is_ws c \<longleftrightarrow> c \<in> {32, 9, 13, 10, 11}"
  by (auto simp: is_ws_def whitespace_def)

lemma skip_ws_stop: "skip_ws buf s < length buf \<Longrightarrow> \<not> is_ws (chr_at buf (skip_ws buf s))"
proof (induction buf s rule: skip_ws.induct)
  case (1 buf s)
  then show ?case by (subst skip_ws.simps, subst (asm) (2) skip_ws.simps) (auto split: if_splits)
qed

lemma gettoken_advances:
  assumes "gettoken buf s = (t, q, eq, s')" "t \<noteq> 0"
  shows "s < s'"
proof (cases "t = 97")
  case True
  note w = gettoken_word [OF assms(1) [unfolded True]]
  have q: "q < length buf" using w chr_at_nz by blast
  have "\<not> is_ws (chr_at buf q)" using skip_ws_stop [of buf s] w q by simp
  moreover have "\<not> is_sym (chr_at buf q)" using w by (auto simp: is_sym_iff)
  ultimately have "eq = skip_word buf (Suc q)" using w q by (metis skip_word.simps)
  then have "q < eq" using skip_word_le [of "Suc q" buf] by simp
  then show ?thesis using w skip_ws_le [of s buf] skip_ws_le [of eq buf] by simp
next
  case False
  then show ?thesis using gettoken_mono(2) [OF assms(1,2)] by blast
qed

lemma gettoken_bound:
  assumes "gettoken buf s = (t, q, eq, s')" "s \<le> length buf"
  shows "s' \<le> length buf"
proof -
  let ?q = "skip_ws buf s"
  have q: "?q \<le> length buf" by (rule skip_ws_bound [OF assms(2)])
  have "eq \<le> length buf" "s' = skip_ws buf eq"
    using assms(1) q skip_word_bound [OF q] chr_at_nz [of buf ?q] chr_at_nz [of buf "Suc ?q"]
    by (auto simp: gettoken_def Let_def split: if_splits)
  then show ?thesis using skip_ws_bound by blast
qed

lemma peekD: "peek buf s toks = (s', b) \<Longrightarrow> s' = skip_ws buf s \<and> s \<le> s' \<and> (b \<longrightarrow> s' < length buf)"
  unfolding peek_def Let_def using skip_ws_le [of s buf] chr_at_nz [of buf "skip_ws buf s"] by auto

definition redircmd :: "span cmd \<Rightarrow> span \<Rightarrow> u8 \<Rightarrow> span cmd" where
  "redircmd c sp tok =
     (if tok = 60 then REDIR c sp O_RDONLY 0
      else if tok = 62 then REDIR c sp (O_WRONLY + O_CREATE + O_TRUNC) 1
      else if tok = 43 then REDIR c sp (O_WRONLY + O_CREATE) 1
      else c)"

lemma redir_advances:
  assumes "peek buf s toks = (s1, True)" "gettoken buf s1 = (tok, q0, e0, s2)" "gettoken buf s2 = (97, q, eq, s3)"
  shows "s < s3 \<and> s < length buf"
  using peekD [OF assms(1)] gettoken_mono(1) [OF assms(2)] gettoken_advances [OF assms(3)] by auto

lemma amp_advances:
  assumes "peek buf s [c] = (s1, True)" "gettoken buf s1 = (tok, q, eq, s2)" "c \<in> {124, 40, 41, 59, 38, 60}"
  shows "s < s2 \<and> s < length buf"
proof -
  have p: "s \<le> s1" "s1 < length buf" "s1 = skip_ws buf s" using peekD [OF assms(1)] by auto
  have "chr_at buf s1 = c" "c \<noteq> 0" using assms(1) by (auto simp: peek_def Let_def split: if_splits)
  moreover have "skip_ws buf s1 = s1" using skip_ws_stop [of buf s] p by (subst skip_ws.simps) auto
  ultimately have "tok = c" using assms(2,3) by (auto simp: gettoken_def Let_def)
  then have "s1 < s2" using gettoken_advances [OF assms(2)] \<open>c \<noteq> 0\<close> by simp
  then show ?thesis using p by simp
qed

function parseredirs :: "u8 list \<Rightarrow> span cmd \<Rightarrow> nat \<Rightarrow> (span cmd \<times> nat) kres" where
  "parseredirs buf c s =
     (case peek buf s [60, 62] of (s, b) \<Rightarrow>
        if b
        then case gettoken buf s of (tok, _, _, s) \<Rightarrow>
             case gettoken buf s of (t, q, eq, s) \<Rightarrow>
               if t \<noteq> 97 then Panic ''missing file for redirection''
               else parseredirs buf (redircmd c (q, eq) tok) s
        else Ok (c, s))"
  by pat_completeness auto
termination
proof (relation "measure (\<lambda>(buf, c, s). Suc (length buf) - s)", force)
  fix buf c s x s1 b y tok y1 y2 y3 y4 s2 z t z1 q z2 eq s3
  assume "(s1, b) = peek buf s [60, 62]" "b" "(tok, y1) = gettoken buf s1" "(y2, y3) = y1" "(y4, s2) = y3"
    "(t, z1) = gettoken buf s2" "(q, z2) = z1" "(eq, s3) = z2" "\<not> t \<noteq> (97 :: u8)"
  then show "((buf, redircmd c (q, eq) tok, s3), buf, c, s) \<in> measure (\<lambda>(buf, c, s). Suc (length buf) - s)"
    using redir_advances [of buf s "[60, 62]" s1 tok y2 y4 s2 q eq s3] by auto
qed

declare parseredirs.simps [simp del]

lemma parseredirs_mono: "parseredirs buf c s = Ok (c', s') \<Longrightarrow> s \<le> s' \<and> (s \<le> length buf \<longrightarrow> s' \<le> length buf)"
proof (induction buf c s rule: parseredirs.induct)
  case (1 buf c s)
  obtain s1 b where p: "peek buf s [60, 62] = (s1, b)" by (meson surj_pair)
  show ?case
  proof (cases b)
    case False
    then have "s' = s1" using 1(2) p by (subst (asm) parseredirs.simps) simp
    then show ?thesis using peekD [OF p] skip_ws_bound by auto
  next
    case True
    obtain tok q0 e0 s2 where g1: "gettoken buf s1 = (tok, q0, e0, s2)" by (metis surj_pair)
    obtain t q eq s3 where g2: "gettoken buf s2 = (t, q, eq, s3)" by (metis surj_pair)
    have t: "t = 97" "parseredirs buf (redircmd c (q, eq) tok) s3 = Ok (c', s')"
      using 1(2) p True g1 g2 by (subst (asm) parseredirs.simps, simp split: if_splits)+
    have "s3 \<le> s' \<and> (s3 \<le> length buf \<longrightarrow> s' \<le> length buf)"
      using 1(1) p True g1 g2 t by auto
    then show ?thesis
      using peekD [OF p] skip_ws_bound [of s buf] gettoken_mono(1) [OF g1] gettoken_mono(1) [OF g2] gettoken_bound [OF g1] gettoken_bound [OF g2] by auto
  qed
qed

text \<open>\<^verbatim>\<open>cmd->argv[argc] = q\<close>: the arguments are stored in the command the redirections are around.\<close>

fun add_arg :: "span \<Rightarrow> span cmd \<Rightarrow> span cmd" where
  "add_arg a (EXEC as) = EXEC (as @ [a])"
| "add_arg a (REDIR c sp m fd) = REDIR (add_arg a c) sp m fd"
| "add_arg a c = c"

function parse_args :: "u8 list \<Rightarrow> nat \<Rightarrow> span cmd \<Rightarrow> nat \<Rightarrow> (span cmd \<times> nat) kres" where
  "parse_args buf argc ret s =
     (case peek buf s [124, 41, 38, 59] of (s, b) \<Rightarrow>
        if \<not> b
        then case gettoken buf s of (tok, q, eq, s) \<Rightarrow>
             if tok = 0 then Ok (ret, s)
             else if tok \<noteq> 97 then Panic ''syntax''
             else if Suc argc \<ge> MAXARGS then Panic ''too many args''
             else kbind (parseredirs buf (add_arg (q, eq) ret) s) (\<lambda>(ret, s).
               parse_args buf (Suc argc) ret s)
        else Ok (ret, s))"
  by pat_completeness auto
termination
proof (relation "measure (\<lambda>(buf, argc, ret, s). MAXARGS - argc)", goal_cases)
  case 1
  then show ?case by simp
qed auto

declare parse_args.simps [simp del]

function parse_back :: "u8 list \<Rightarrow> span cmd \<Rightarrow> nat \<Rightarrow> span cmd \<times> nat" where
  "parse_back buf c s =
     (case peek buf s [38] of (s, b) \<Rightarrow>
        if b then case gettoken buf s of (_, _, _, s) \<Rightarrow> parse_back buf (BACK c) s
        else (c, s))"
  by pat_completeness auto
termination
proof (relation "measure (\<lambda>(buf, c, s). Suc (length buf) - s)", force)
  fix buf c s x s1 b tok y1 q y2 eq s2
  assume "(s1, b) = peek buf s [38]" "b" "(tok, y1) = gettoken buf s1" "(q, y2) = y1" "(eq, s2) = y2"
  then show "((buf, BACK c, s2), buf, c, s) \<in> measure (\<lambda>(buf, c, s). Suc (length buf) - s)"
    using amp_advances [of buf s 38 s1 tok q eq s2] by auto
qed

declare parse_back.simps [simp del]

text \<open>
  The mutually recursive part. Each level of recursion takes one unit of fuel; \<open>Hang\<close> is the lack of it.
\<close>

fun parseline :: "nat \<Rightarrow> u8 list \<Rightarrow> nat \<Rightarrow> (span cmd \<times> nat) kres"
  and parsepipe :: "nat \<Rightarrow> u8 list \<Rightarrow> nat \<Rightarrow> (span cmd \<times> nat) kres"
  and parseexec :: "nat \<Rightarrow> u8 list \<Rightarrow> nat \<Rightarrow> (span cmd \<times> nat) kres"
  and parseblock :: "nat \<Rightarrow> u8 list \<Rightarrow> nat \<Rightarrow> (span cmd \<times> nat) kres" where
  "parseline 0 buf s = Hang"
| "parseline (Suc n) buf s =
     kbind (parsepipe n buf s) (\<lambda>(c, s).
       case parse_back buf c s of (c, s) \<Rightarrow>
       case peek buf s [59] of (s, b) \<Rightarrow>
         if b
         then case gettoken buf s of (_, _, _, s) \<Rightarrow>
              kbind (parseline n buf s) (\<lambda>(r, s). Ok (LIST c r, s))
         else Ok (c, s))"
| "parsepipe 0 buf s = Hang"
| "parsepipe (Suc n) buf s =
     kbind (parseexec n buf s) (\<lambda>(c, s).
       case peek buf s [124] of (s, b) \<Rightarrow>
         if b
         then case gettoken buf s of (_, _, _, s) \<Rightarrow>
              kbind (parsepipe n buf s) (\<lambda>(r, s). Ok (PIPE c r, s))
         else Ok (c, s))"
| "parseexec 0 buf s = Hang"
| "parseexec (Suc n) buf s =
     (case peek buf s [40] of (s, b) \<Rightarrow>
        if b then parseblock n buf s
        else kbind (parseredirs buf (EXEC []) s) (\<lambda>(ret, s).
          parse_args buf 0 ret s))"
| "parseblock 0 buf s = Hang"
| "parseblock (Suc n) buf s =
     (case peek buf s [40] of (s, b) \<Rightarrow>
        if \<not> b then Panic ''parseblock''
        else case gettoken buf s of (_, _, _, s) \<Rightarrow>
             kbind (parseline n buf s) (\<lambda>(c, s).
               case peek buf s [41] of (s, b) \<Rightarrow>
                 if \<not> b then Panic ''syntax - missing )''
                 else case gettoken buf s of (_, _, _, s) \<Rightarrow> parseredirs buf c s))"

definition parsecmd_tree :: "u8 list \<Rightarrow> span cmd kres" where
  "parsecmd_tree buf =
     kbind (parseline (4 * length buf + 4) buf 0) (\<lambda>(c, s).
       case peek buf s [] of (s, _) \<Rightarrow>
         if s \<noteq> length buf then Panic ''syntax'' else Ok c)"

text \<open>\<^verbatim>\<open>nulterminate\<close> works on the text with its NUL.\<close>

fun nulterminate :: "span cmd \<Rightarrow> u8 list \<Rightarrow> u8 list" where
  "nulterminate (EXEC as) buf = fold (\<lambda>(q, eq) buf. buf[eq := 0]) as buf"
| "nulterminate (REDIR c sp m fd) buf = (nulterminate c buf)[snd sp := 0]"
| "nulterminate (PIPE l r) buf = nulterminate r (nulterminate l buf)"
| "nulterminate (LIST l r) buf = nulterminate r (nulterminate l buf)"
| "nulterminate (BACK c) buf = nulterminate c buf"

definition parsecmd :: "u8 list \<Rightarrow> (span cmd \<times> u8 list) kres" where
  "parsecmd buf = kbind (parsecmd_tree buf) (\<lambda>c. Ok (c, nulterminate c (buf @ [0])))"

section \<open>Running commands\<close>

text \<open>
  What a descriptor refers to; pipes are numbered as they are made.
\<close>

datatype fobj = Std nat | Console | FileObj "u8 list" int | PipeR nat | PipeW nat

type_synonym fds = "nat \<Rightarrow> fobj option"

text \<open>
  A process of the shell is the tree of its system calls: a call that can fail has a branch for each outcome, and \<^verbatim>\<open>fork\<close>
  one for the child, one for the parent and one for the failure. The descriptors \<open>'d\<close> are noted where the process lets go
  of the processor for good or for long: when it runs a program and when it waits for a child. A message is noted with
  what descriptor 2 refers to.
\<close>

datatype 'd sproc =
    Exit int
  | Exec "u8 list list" 'd "'d sproc"
  | Open "u8 list" int "'d sproc" "'d sproc"
  | MkPipe nat "'d sproc" "'d sproc"
  | Fork "'d sproc" "'d sproc" "'d sproc"
  | Wait 'd "'d sproc"
  | Print "fobj option" "u8 list" "'d sproc"

definition low_fd :: "fds \<Rightarrow> nat option" where
  "low_fd fds = scan NOFILE 0 (\<lambda>i. fds i = None)"

definition dup_fd :: "nat \<Rightarrow> fds \<Rightarrow> fds" where
  "dup_fd d fds = (case low_fd fds of Some i \<Rightarrow> fds(i := fds d) | None \<Rightarrow> fds)"

definition pipe_fds :: "nat \<Rightarrow> fds \<Rightarrow> (fds \<times> nat \<times> nat) option" where
  "pipe_fds k fds =
     (case low_fd fds of
        None \<Rightarrow> None
      | Some p0 \<Rightarrow>
          (case low_fd (fds(p0 \<mapsto> PipeR k)) of
             None \<Rightarrow> None
           | Some p1 \<Rightarrow> Some (fds(p0 \<mapsto> PipeR k, p1 \<mapsto> PipeW k), p0, p1)))"

definition sh_panic :: "u8 list \<Rightarrow> fds \<Rightarrow> fds sproc" where
  "sh_panic msg fds = Print (fds 2) (msg @ [10]) (Exit 1)"

definition fork1 :: "fds \<Rightarrow> fds sproc \<Rightarrow> fds sproc \<Rightarrow> fds sproc" where
  "fork1 fds child parent = Fork child parent (sh_panic (cs ''fork'') fds)"

text \<open>\<^verbatim>\<open>runcmd\<close> does not return; the number of the next pipe is passed along, so that two pipes have two numbers.\<close>

primrec runcmd :: "u8 list cmd \<Rightarrow> fds \<Rightarrow> nat \<Rightarrow> fds sproc \<times> nat" where
  "runcmd (EXEC argv) fds k =
     (if argv = [] then (Exit 1, k)
      else (Exec argv fds (Print (fds 2) (cs ''exec '' @ hd argv @ cs '' failed'' @ [10]) (Exit 0)), k))"
| "runcmd (REDIR c file mode fd) fds k =
     (let fds = fds(nat fd := None);
          failed = Print (fds 2) (cs ''open '' @ file @ cs '' failed'' @ [10]) (Exit 1) in
      case low_fd fds of
        None \<Rightarrow> (failed, k)
      | Some i \<Rightarrow> (case runcmd c (fds(i \<mapsto> FileObj file mode)) k of (p, k) \<Rightarrow> (Open file mode p failed, k)))"
| "runcmd (LIST l r) fds k =
     (case runcmd l fds k of (a, k) \<Rightarrow>
      case runcmd r fds k of (b, k) \<Rightarrow> (fork1 fds a (Wait fds b), k))"
| "runcmd (PIPE l r) fds k =
     (case pipe_fds k fds of
        None \<Rightarrow> (sh_panic (cs ''pipe'') fds, k)
      | Some (pfds, p0, p1) \<Rightarrow>
          (case runcmd l ((dup_fd p1 (pfds(1 := None)))(p0 := None, p1 := None)) (Suc k) of (a, k') \<Rightarrow>
           case runcmd r ((dup_fd p0 (pfds(0 := None)))(p0 := None, p1 := None)) k' of (b, k') \<Rightarrow>
             let cfds = pfds(p0 := None, p1 := None) in
             (MkPipe k
                (fork1 pfds a
                  (fork1 pfds b
                    (Wait cfds (Wait cfds (Exit 0)))))
                (sh_panic (cs ''pipe'') fds), k')))"
| "runcmd (BACK c) fds k =
     (case runcmd c fds k of (a, k) \<Rightarrow> (fork1 fds a (Exit 0), k))"

section \<open>The loop of the shell\<close>

text \<open>\<^verbatim>\<open>open("console")\<close> until a descriptor above 2 is returned; \<open>n\<close> bounds the calls.\<close>

primrec open_console :: "nat \<Rightarrow> fds \<Rightarrow> fds" where
  "open_console 0 fds = fds"
| "open_console (Suc n) fds =
     (case low_fd fds of
        None \<Rightarrow> fds
      | Some i \<Rightarrow> if i \<ge> 3 then fds else open_console n (fds(i \<mapsto> Console)))"

definition getcmd :: "u8 list \<Rightarrow> (u8 list \<times> u8 list) option" where
  "getcmd inp =
     (case gets 100 inp of (l, rest) \<Rightarrow>
        let buf = takeWhile (\<lambda>b. b \<noteq> 0) l in if buf = [] then None else Some (buf, rest))"

datatype shact = Cd "u8 list" | Run "(span cmd \<times> u8 list) kres"

lemma gets_loop_length: "gets_loop i mx inp = (l, rest) \<Longrightarrow> length inp = length l + length rest"
proof (induction i mx inp arbitrary: l rest rule: gets_loop.induct)
  case (2 i mx c inp)
  then show ?case by (auto split: if_splits prod.splits)
qed simp

lemma getcmd_shorter: "getcmd inp = Some (buf, rest) \<Longrightarrow> length rest < length inp"
proof -
  assume g: "getcmd inp = Some (buf, rest)"
  obtain l r where l: "gets 100 inp = (l, r)" by (meson surj_pair)
  then have "r = rest" "l \<noteq> []" using g by (auto simp: getcmd_def Let_def split: if_splits)
  then show ?thesis using gets_loop_length [of 0 100 inp l r] l by (simp add: gets_def)
qed

function sh_loop :: "u8 list \<Rightarrow> shact list" where
  "sh_loop inp =
     (case getcmd inp of
        None \<Rightarrow> []
      | Some (buf, rest) \<Rightarrow>
          (if take 3 buf = cs ''cd '' then Cd (butlast (drop 3 buf)) else Run (parsecmd buf)) # sh_loop rest)"
  by pat_completeness auto
termination
  by (relation "measure length") (auto simp: getcmd_shorter)

declare sh_loop.simps [simp del]

end
