(* ===== verification/Sh_Parse.thy ===== *)
theory Sh_Parse
  imports Sh
begin

text \<open>
  The shell parser: it always returns, the strings it finds are exactly delimited and survive \<^verbatim>\<open>nulterminate\<close>, and it
  inverts the printing of commands. The last section is about the descriptors of the processes of a command.
\<close>

section \<open>Termination\<close>

lemma parseredirs_not_Hang: "parseredirs buf c s \<noteq> Hang"
proof (induction buf c s rule: parseredirs.induct)
  case (1 buf c s)
  then show ?case by (subst parseredirs.simps) (simp split: prod.splits if_splits)
qed

lemma parse_args_not_Hang: "parse_args buf argc ret s \<noteq> Hang"
proof (induction buf argc ret s rule: parse_args.induct)
  case (1 buf argc ret s)
  obtain s1 b where p: "peek buf s [124, 41, 38, 59] = (s1, b)" by (meson surj_pair)
  obtain t q eq s2 where g: "gettoken buf s1 = (t, q, eq, s2)" by (metis surj_pair)
  show ?case
  proof (cases "b \<or> t \<noteq> 97 \<or> Suc argc \<ge> MAXARGS")
    case True
    then show ?thesis using p g by (subst parse_args.simps) auto
  next
    case False
    let ?r = "parseredirs buf (add_arg (q, eq) ret) s2"
    have e: "parse_args buf argc ret s = kbind ?r (\<lambda>(ret, s). parse_args buf (Suc argc) ret s)"
      using False p g by (subst parse_args.simps) simp
    show ?thesis
    proof (cases ?r)
      case (Ok x)
      then have "parse_args buf (Suc argc) (fst x) (snd x) \<noteq> Hang" using 1 p g False by (cases x) auto
      then show ?thesis unfolding e Ok by (simp add: case_prod_beta)
    qed (use e parseredirs_not_Hang in simp_all)
  qed
qed

lemma parse_args_mono: "parse_args buf argc ret s = Ok (c', s') \<Longrightarrow> s \<le> s' \<and> (s \<le> length buf \<longrightarrow> s' \<le> length buf)"
proof (induction buf argc ret s rule: parse_args.induct)
  case (1 buf argc ret s)
  obtain s1 b where p: "peek buf s [124, 41, 38, 59] = (s1, b)" by (meson surj_pair)
  obtain t q eq s2 where g: "gettoken buf s1 = (t, q, eq, s2)" by (metis surj_pair)
  note m = peekD [OF p] skip_ws_bound [of s buf] gettoken_mono(1) [OF g] gettoken_bound [OF g]
  show ?case
  proof (cases "b \<or> t = 0")
    case True
    then have "s' = s1 \<or> s' = s2" using 1(2) p g by (subst (asm) parse_args.simps) (auto split: if_splits)
    then show ?thesis using m by auto
  next
    case False
    then obtain c3 s3 where r: "t = 97" "\<not> Suc argc \<ge> MAXARGS" "parseredirs buf (add_arg (q, eq) ret) s2 = Ok (c3, s3)"
      "parse_args buf (Suc argc) c3 s3 = Ok (c', s')"
      using 1(2) p g by (subst (asm) parse_args.simps) (auto simp: kres_simps split: if_splits)
    have "s3 \<le> s' \<and> (s3 \<le> length buf \<longrightarrow> s' \<le> length buf)" using 1(1) p g r False by auto
    then show ?thesis using m parseredirs_mono [OF r(3)] by auto
  qed
qed

lemma parse_back_mono: "parse_back buf c s = (c', s') \<Longrightarrow> s \<le> s' \<and> (s \<le> length buf \<longrightarrow> s' \<le> length buf)"
proof (induction buf c s rule: parse_back.induct)
  case (1 buf c s)
  obtain s1 b where p: "peek buf s [38] = (s1, b)" by (meson surj_pair)
  obtain t q eq s2 where g: "gettoken buf s1 = (t, q, eq, s2)" by (metis surj_pair)
  note m = peekD [OF p] skip_ws_bound [of s buf] gettoken_mono(1) [OF g] gettoken_bound [OF g]
  show ?case
  proof (cases b)
    case True
    then have "parse_back buf (BACK c) s2 = (c', s')" using 1(2) p g by (subst (asm) parse_back.simps) simp
    then have "s2 \<le> s' \<and> (s2 \<le> length buf \<longrightarrow> s' \<le> length buf)" using 1(1) p g True by auto
    then show ?thesis using m by auto
  next
    case False
    then show ?thesis using 1(2) p m by (subst (asm) parse_back.simps) auto
  qed
qed

lemma sym_step:
  assumes "peek buf s [c] = (s1, True)" "gettoken buf s1 = (t, q, eq, s2)" "c \<in> {124, 40, 41, 59, 38, 60}" "s \<le> length buf"
  shows "s < s2 \<and> s2 \<le> length buf"
  using amp_advances [OF assms(1-3)] gettoken_bound [OF assms(2)] peekD [OF assms(1)] by auto

lemma parse_mono:
  "parseline n buf s = Ok (c, s') \<Longrightarrow> s \<le> length buf \<Longrightarrow> s \<le> s' \<and> s' \<le> length buf"
  "parsepipe n buf s = Ok (c, s') \<Longrightarrow> s \<le> length buf \<Longrightarrow> s \<le> s' \<and> s' \<le> length buf"
  "parseexec n buf s = Ok (c, s') \<Longrightarrow> s \<le> length buf \<Longrightarrow> s \<le> s' \<and> s' \<le> length buf"
  "parseblock n buf s = Ok (c, s') \<Longrightarrow> s \<le> length buf \<Longrightarrow> s \<le> s' \<and> s' \<le> length buf"
proof (induction n arbitrary: s c s')
  case (Suc n)
  {
    case 1
    obtain c1 s1 where a: "parsepipe n buf s = Ok (c1, s1)" using 1 by (auto simp: kres_simps)
    obtain c2 s2 where b: "parse_back buf c1 s1 = (c2, s2)" by (meson surj_pair)
    obtain s3 pk where p: "peek buf s2 [59] = (s3, pk)" by (meson surj_pair)
    obtain t q eq s4 where g: "gettoken buf s3 = (t, q, eq, s4)" by (metis surj_pair)
    note m = Suc.IH(2) [OF a 1(2)] parse_back_mono [OF b]
    show ?case
    proof (cases pk)
      case True
      then obtain r where "parseline n buf s4 = Ok (r, s')" using 1(1) a b p g by (auto simp: kres_simps)
      then show ?thesis using Suc.IH(1) m sym_step [of buf s2 59 s3 t q eq s4] p g True by fastforce
    next
      case False
      then have "s' = s3" using 1(1) a b p by simp
      then show ?thesis using m peekD [OF p] skip_ws_bound [of s2 buf] by auto
    qed
  next
    case 2
    obtain c1 s2 where a: "parseexec n buf s = Ok (c1, s2)" using 2 by (auto simp: kres_simps)
    obtain s3 pk where p: "peek buf s2 [124] = (s3, pk)" by (meson surj_pair)
    obtain t q eq s4 where g: "gettoken buf s3 = (t, q, eq, s4)" by (metis surj_pair)
    note m = Suc.IH(3) [OF a 2(2)]
    show ?case
    proof (cases pk)
      case True
      then obtain r where "parsepipe n buf s4 = Ok (r, s')" using 2(1) a p g by (auto simp: kres_simps)
      then show ?thesis using Suc.IH(2) m sym_step [of buf s2 124 s3 t q eq s4] p g True by fastforce
    next
      case False
      then have "s' = s3" using 2(1) a p by simp
      then show ?thesis using m peekD [OF p] skip_ws_bound [of s2 buf] by auto
    qed
  next
    case 3
    obtain s1 pk where p: "peek buf s [40] = (s1, pk)" by (meson surj_pair)
    have m: "s \<le> s1" "s1 \<le> length buf" using peekD [OF p] skip_ws_bound [OF 3(2)] by auto
    show ?case
    proof (cases pk)
      case True
      then have "parseblock n buf s1 = Ok (c, s')" using 3(1) p by simp
      then show ?thesis using Suc.IH(4) m by fastforce
    next
      case False
      then obtain r s2 where "parseredirs buf (EXEC []) s1 = Ok (r, s2)" "parse_args buf 0 r s2 = Ok (c, s')" using 3(1) p by (auto simp: kres_simps)
      then show ?thesis using m parseredirs_mono parse_args_mono by fastforce
    qed
  next
    case 4
    obtain s1 pk where p: "peek buf s [40] = (s1, pk)" by (meson surj_pair)
    obtain t q eq s2 where g: "gettoken buf s1 = (t, q, eq, s2)" by (metis surj_pair)
    have pk: pk using 4(1) p by (simp split: if_splits)
    obtain c1 s3 where a: "parseline n buf s2 = Ok (c1, s3)" using 4(1) p g pk by (auto simp: kres_simps)
    obtain s4 pk' where p': "peek buf s3 [41] = (s4, pk')" by (meson surj_pair)
    obtain t' q' eq' s5 where g': "gettoken buf s4 = (t', q', eq', s5)" by (metis surj_pair)
    have r: "pk'" "parseredirs buf c1 s5 = Ok (c, s')" using 4(1) p g pk a p' g' by (auto split: if_splits)
    have "s < s2 \<and> s2 \<le> length buf" using sym_step [of buf s 40 s1 t q eq s2] p g pk 4(2) by simp
    moreover have "s2 \<le> s3 \<and> s3 \<le> length buf" using Suc.IH(1) [OF a] calculation by blast
    moreover have "s3 < s5 \<and> s5 \<le> length buf" using sym_step [of buf s3 41 s4 t' q' eq' s5] p' g' r(1) calculation by simp
    ultimately show ?case using parseredirs_mono [OF r(2)] by auto
  }
qed simp_all

lemma parse_not_Hang:
  "4 * (length buf - s) + 4 \<le> n \<Longrightarrow> s \<le> length buf \<Longrightarrow> parseline n buf s \<noteq> Hang"
  "4 * (length buf - s) + 3 \<le> n \<Longrightarrow> s \<le> length buf \<Longrightarrow> parsepipe n buf s \<noteq> Hang"
  "4 * (length buf - s) + 2 \<le> n \<Longrightarrow> s \<le> length buf \<Longrightarrow> parseexec n buf s \<noteq> Hang"
  "4 * (length buf - s) + 1 \<le> n \<Longrightarrow> s \<le> length buf \<Longrightarrow> parseblock n buf s \<noteq> Hang"
proof (induction n arbitrary: s)
  case (Suc n)
  {
    case 1
    show ?case
    proof (cases "parsepipe n buf s")
      case (Ok x)
      obtain c1 s1 where x: "x = (c1, s1)" by (cases x)
      obtain c2 s2 where b: "parse_back buf c1 s1 = (c2, s2)" by (meson surj_pair)
      obtain s3 pk where p: "peek buf s2 [59] = (s3, pk)" by (meson surj_pair)
      obtain t q eq s4 where g: "gettoken buf s3 = (t, q, eq, s4)" by (metis surj_pair)
      have m: "s \<le> s1" "s1 \<le> length buf" using parse_mono(2) [of n buf s c1 s1] Ok x 1(2) by auto
      then have m2: "s \<le> s2" "s2 \<le> length buf" using parse_back_mono [OF b] by auto
      show ?thesis
      proof (cases pk)
        case True
        then have "s2 < s4 \<and> s4 \<le> length buf" using sym_step [of buf s2 59 s3 t q eq s4] p g m2 by simp
        then have "parseline n buf s4 \<noteq> Hang" using 1(1) m2 by (intro Suc.IH(1)) auto
        then show ?thesis using Ok x b p g True by (cases "parseline n buf s4") auto
      qed (use Ok x b p in simp)
    next
      case Hang
      then show ?thesis using Suc.IH(2) [of s] 1 by simp
    qed simp_all
  next
    case 2
    show ?case
    proof (cases "parseexec n buf s")
      case (Ok x)
      obtain c1 s2 where x: "x = (c1, s2)" by (cases x)
      obtain s3 pk where p: "peek buf s2 [124] = (s3, pk)" by (meson surj_pair)
      obtain t q eq s4 where g: "gettoken buf s3 = (t, q, eq, s4)" by (metis surj_pair)
      have m2: "s \<le> s2" "s2 \<le> length buf" using parse_mono(3) [of n buf s c1 s2] Ok x 2(2) by auto
      show ?thesis
      proof (cases pk)
        case True
        then have "s2 < s4 \<and> s4 \<le> length buf" using sym_step [of buf s2 124 s3 t q eq s4] p g m2 by simp
        then have "parsepipe n buf s4 \<noteq> Hang" using 2(1) m2 by (intro Suc.IH(2)) auto
        then show ?thesis using Ok x p g True by (cases "parsepipe n buf s4") auto
      qed (use Ok x p in simp)
    next
      case Hang
      then show ?thesis using Suc.IH(3) [of s] 2 by simp
    qed simp_all
  next
    case 3
    obtain s1 pk where p: "peek buf s [40] = (s1, pk)" by (meson surj_pair)
    have m: "s \<le> s1" "s1 \<le> length buf" using peekD [OF p] skip_ws_bound [OF 3(2)] by auto
    show ?case
    proof (cases pk)
      case True
      have "parseblock n buf s1 \<noteq> Hang" using 3(1) m by (intro Suc.IH(4)) auto
      then show ?thesis using p True by simp
    next
      case False
      then show ?thesis using p parseredirs_not_Hang [of buf "EXEC []" s1] parse_args_not_Hang
        by (cases "parseredirs buf (EXEC []) s1") auto
    qed
  next
    case 4
    obtain s1 pk where p: "peek buf s [40] = (s1, pk)" by (meson surj_pair)
    obtain t q eq s2 where g: "gettoken buf s1 = (t, q, eq, s2)" by (metis surj_pair)
    show ?case
    proof (cases pk)
      case True
      then have m: "s < s2 \<and> s2 \<le> length buf" using sym_step [of buf s 40 s1 t q eq s2] p g 4(2) by simp
      then have "parseline n buf s2 \<noteq> Hang" using 4(1) by (intro Suc.IH(1)) auto
      then show ?thesis using p g True parseredirs_not_Hang by (cases "parseline n buf s2") (auto split: prod.splits)
    qed (use p in simp)
  }
qed simp_all

text \<open>
  C18. The parser of the shell always returns: for every text it builds a command or stops with a message, and the
  recursion, four levels for each character at most, never runs out of its bound.
\<close>

theorem parsecmd_terminates: "parsecmd buf \<noteq> Hang"
proof -
  have "parseline (4 * length buf + 4) buf 0 \<noteq> Hang" by (rule parse_not_Hang(1)) simp_all
  then show ?thesis unfolding parsecmd_def parsecmd_tree_def
    by (cases "parseline (4 * length buf + 4) buf 0") (auto split: prod.splits)
qed

section \<open>The strings of a command\<close>

text \<open>
  A word of the text is a maximal run of characters that are neither white space nor symbols: it begins at the start of the
  text or after such a character, and ends at the end of the text or before one.
\<close>

definition edge :: "u8 list \<Rightarrow> nat \<Rightarrow> bool" where
  "edge buf i \<longleftrightarrow> is_ws (buf ! i) \<or> is_sym (buf ! i)"

definition word_span :: "u8 list \<Rightarrow> span \<Rightarrow> bool" where
  "word_span buf sp \<longleftrightarrow> fst sp < snd sp \<and> snd sp \<le> length buf \<and> (\<forall>i. fst sp \<le> i \<and> i < snd sp \<longrightarrow> \<not> edge buf i) \<and>
     (0 < fst sp \<longrightarrow> edge buf (fst sp - 1)) \<and> (snd sp < length buf \<longrightarrow> edge buf (snd sp))"

text \<open>The words that begin between two positions.\<close>

definition words_in :: "u8 list \<Rightarrow> nat \<Rightarrow> nat \<Rightarrow> span set" where
  "words_in buf s s' = {sp. word_span buf sp \<and> s \<le> fst sp \<and> fst sp < s'}"

text \<open>A position of the parser is never inside a word.\<close>

definition between :: "u8 list \<Rightarrow> nat \<Rightarrow> bool" where
  "between buf s \<longleftrightarrow> s = 0 \<or> length buf \<le> s \<or> edge buf (s - 1) \<or> edge buf s"

lemma words_in_same [simp]: "words_in buf s s = {}"
  by (auto simp: words_in_def)

lemma words_in_split: "s \<le> s1 \<Longrightarrow> s1 \<le> s2 \<Longrightarrow> words_in buf s s2 = words_in buf s s1 \<union> words_in buf s1 s2"
  by (auto simp: words_in_def)

lemma words_in_edges:
  assumes "\<And>i. s \<le> i \<Longrightarrow> i < s' \<Longrightarrow> edge buf i"
  shows "words_in buf s s' = {}"
proof -
  have False if "word_span buf sp" "s \<le> fst sp" "fst sp < s'" for sp
    using assms [OF that(2,3)] that(1) by (auto simp: word_span_def)
  then show ?thesis by (auto simp: words_in_def)
qed

lemma skip_word_all: "q \<le> i \<Longrightarrow> i < skip_word buf q \<Longrightarrow> i < length buf \<and> \<not> is_ws (buf ! i) \<and> \<not> is_sym (buf ! i)"
proof (induction buf q rule: skip_word.induct)
  case (1 buf q)
  show ?case
  proof (cases "q < length buf \<and> \<not> is_ws (chr_at buf q) \<and> \<not> is_sym (chr_at buf q)")
    case True
    then have e: "skip_word buf q = skip_word buf (Suc q)" by (subst skip_word.simps) simp
    show ?thesis
    proof (cases "i = q")
      case True
      then show ?thesis using \<open>q < length buf \<and> _\<close> by (auto simp: chr_at_def)
    next
      case False
      then show ?thesis using 1(1) [OF True] 1(2,3) e by simp
    qed
  next
    case False
    then have "skip_word buf q = q" by (subst skip_word.simps) auto
    then show ?thesis using 1(2,3) by simp
  qed
qed

lemma skip_word_stop: "skip_word buf q < length buf \<Longrightarrow> is_ws (buf ! skip_word buf q) \<or> is_sym (buf ! skip_word buf q)"
proof (induction buf q rule: skip_word.induct)
  case (1 buf q)
  show ?case
  proof (cases "q < length buf \<and> \<not> is_ws (chr_at buf q) \<and> \<not> is_sym (chr_at buf q)")
    case True
    then have e: "skip_word buf q = skip_word buf (Suc q)" by (subst skip_word.simps) simp
    then show ?thesis using 1(1) [OF True] 1(2) by simp
  next
    case False
    then have "skip_word buf q = q" by (subst skip_word.simps) auto
    then show ?thesis using 1(2) False by (auto simp: chr_at_def)
  qed
qed

lemma words_in_word:
  assumes "word_span buf (q, eq)"
  shows "words_in buf q eq = {(q, eq)}"
proof -
  have w: "q < eq" "eq \<le> length buf" "\<And>i. q \<le> i \<Longrightarrow> i < eq \<Longrightarrow> \<not> edge buf i" "eq < length buf \<Longrightarrow> edge buf eq"
    using assms by (auto simp: word_span_def)
  have "sp = (q, eq)" if sp: "word_span buf sp" "q \<le> fst sp" "fst sp < eq" for sp
  proof -
    have f: "fst sp = q"
    proof (rule ccontr)
      assume "fst sp \<noteq> q"
      then have "0 < fst sp" "q \<le> fst sp - 1" "fst sp - 1 < eq" using sp(2,3) by linarith+
      then show False using w(3) [of "fst sp - 1"] sp(1) by (simp add: word_span_def)
    qed
    moreover have "snd sp = eq"
    proof (rule linorder_cases [of "snd sp" eq])
      assume a: "snd sp < eq"
      then have "edge buf (snd sp)" "q \<le> snd sp" using sp(1) f w(2) by (simp_all add: word_span_def)
      then show ?thesis using w(3) [of "snd sp"] a by simp
    next
      assume a: "eq < snd sp"
      then have "\<not> edge buf eq" "eq < length buf" using sp(1) f w(1) by (simp_all add: word_span_def)
      then show ?thesis using w(4) by simp
    qed simp
    ultimately show ?thesis by (cases sp) simp
  qed
  then have "words_in buf q eq \<subseteq> {(q, eq)}" unfolding words_in_def by blast
  moreover have "(q, eq) \<in> words_in buf q eq" using assms w(1) by (simp add: words_in_def)
  ultimately show ?thesis by blast
qed

lemma skip_ws_all: "s \<le> i \<Longrightarrow> i < skip_ws buf s \<Longrightarrow> edge buf i"
proof (induction buf s rule: skip_ws.induct)
  case (1 buf s)
  show ?case
  proof (cases "s < length buf \<and> is_ws (chr_at buf s)")
    case True
    then have e: "skip_ws buf s = skip_ws buf (Suc s)" by (subst skip_ws.simps) simp
    show ?thesis using 1(1) [OF True] 1(2,3) e True by (cases "i = s") (auto simp: chr_at_def edge_def)
  next
    case False
    then have "skip_ws buf s = s" by (subst skip_ws.simps) auto
    then show ?thesis using 1(2,3) by simp
  qed
qed

lemma skip_ws_words: "between buf s \<Longrightarrow> between buf (skip_ws buf s) \<and> words_in buf s (skip_ws buf s) = {}"
proof -
  assume b: "between buf s"
  have "words_in buf s (skip_ws buf s) = {}" by (rule words_in_edges) (rule skip_ws_all)
  moreover have "between buf (skip_ws buf s)"
  proof (cases "skip_ws buf s = s")
    case False
    then have "s \<le> skip_ws buf s - 1" "skip_ws buf s - 1 < skip_ws buf s" using skip_ws_le [of s buf] by auto
    then show ?thesis using skip_ws_all [of s "skip_ws buf s - 1" buf] by (simp add: between_def)
  qed (use b in simp)
  ultimately show ?thesis by simp
qed

lemma gettoken_span:
  assumes "gettoken buf s = (97, q, eq, s')" "between buf s"
  shows "word_span buf (q, eq)"
proof -
  note w = gettoken_word [OF assms(1)]
  have q: "q < length buf" using w chr_at_nz by blast
  have n: "\<not> is_ws (chr_at buf q)" "\<not> is_sym (chr_at buf q)" using skip_ws_stop [of buf s] w q by (auto simp: is_sym_iff)
  then have "eq = skip_word buf (Suc q)" using w q by (metis skip_word.simps)
  then have "q < eq" using skip_word_le [of "Suc q" buf] by simp
  moreover have "eq \<le> length buf" using skip_word_bound [of q buf] q w by simp
  moreover have "0 < q \<longrightarrow> edge buf (q - 1)"
    using skip_ws_words [OF assms(2)] w q n by (auto simp: between_def edge_def chr_at_def)
  ultimately show ?thesis unfolding word_span_def edge_def
    using skip_word_all [of q _ buf] skip_word_stop [of buf q] w by auto
qed

text \<open>A token is a word, or it has no word in it.\<close>

lemma gettoken_words:
  assumes "gettoken buf s = (t, q, eq, s')" "between buf s" "0 \<notin> set buf"
  shows "between buf s' \<and> words_in buf s s' = (if t = 97 then {(q, eq)} else {})"
proof -
  let ?q = "skip_ws buf s"
  have s: "q = ?q" "s' = skip_ws buf eq" "?q \<le> eq" "s \<le> ?q" "eq \<le> s'"
    using assms(1) skip_word_le [of ?q buf] skip_ws_le [of s buf] skip_ws_le [of eq buf]
    by (auto simp: gettoken_def Let_def split: if_splits)
  note b = skip_ws_words [OF assms(2)]
  have m: "between buf eq \<and> words_in buf ?q eq = (if t = 97 then {(q, eq)} else {})"
  proof (cases "t = 97")
    case True
    note w = gettoken_span [OF assms(1) [unfolded True] assms(2)]
    have "between buf eq" using w by (auto simp: between_def word_span_def)
    then show ?thesis using words_in_word [OF w] True s(1) by simp
  next
    case f: False
    show ?thesis
    proof (cases "t = 0")
      case True
      then have "eq = ?q" using assms(1) by (auto simp: gettoken_def Let_def split: if_splits)
      then show ?thesis using b f by simp
    next
      case False
      have c: "chr_at buf ?q \<noteq> 0" using False assms(1) by (auto simp: gettoken_def Let_def split: if_splits)
      have e: "edge buf i" if i: "?q \<le> i" "i < eq" for i
      proof -
        have "is_sym (chr_at buf i) \<and> i < length buf"
          using i False f assms(1) chr_at_nz [OF c] chr_at_nz [of buf "Suc ?q"]
          by (auto simp: gettoken_def Let_def is_sym_iff le_Suc_eq less_Suc_eq split: if_splits)
        then show ?thesis by (auto simp: edge_def chr_at_def)
      qed
      have "?q < eq" using f False assms(1) by (auto simp: gettoken_def Let_def split: if_splits)
      then have "edge buf (eq - 1)" using e [of "eq - 1"] by simp
      then show ?thesis using words_in_edges [OF e] f by (simp add: between_def)
    qed
  qed
  have "words_in buf s s' = words_in buf s ?q \<union> (words_in buf ?q eq \<union> words_in buf eq s')"
    using words_in_split [of s ?q s' buf] words_in_split [of ?q eq s' buf] s by simp
  then show ?thesis using b m skip_ws_words [of buf eq] s(2) by simp
qed

lemma peek_words:
  assumes "peek buf s toks = (s1, b)" "between buf s"
  shows "between buf s1 \<and> s \<le> s1 \<and> words_in buf s s1 = {}"
  using peekD [OF assms(1)] skip_ws_words [OF assms(2)] by simp

text \<open>Looking at a symbol and taking it.\<close>

lemma peek_gettoken_words:
  assumes "peek buf s [c] = (s1, True)" "gettoken buf s1 = (t, q, eq, s2)" "c \<in> {124, 40, 41, 59, 38, 60}"
    "between buf s" "0 \<notin> set buf"
  shows "between buf s2 \<and> s \<le> s2 \<and> words_in buf s s2 = {}"
proof -
  have p: "s1 = skip_ws buf s" "chr_at buf s1 = c" "s1 < length buf"
    using assms(1) peekD [OF assms(1)] by (auto simp: peek_def Let_def split: if_splits)
  have "skip_ws buf s1 = s1" using skip_ws_stop [of buf s] p by (subst skip_ws.simps) auto
  then have "t \<noteq> 97" using assms(2,3) p(2) by (auto simp: gettoken_def Let_def)
  then show ?thesis
    using peek_words [OF assms(1,4)] gettoken_words [OF assms(2) _ assms(5)] gettoken_mono(1) [OF assms(2)]
      words_in_split [of s s1 s2 buf] by auto
qed

lemma peek_redir:
  assumes "peek buf s [60, 62] = (s1, True)" "gettoken buf s1 = (t, q, eq, s2)"
  shows "t \<in> {60, 62, 43}"
proof -
  have p: "s1 = skip_ws buf s" "chr_at buf s1 \<in> {60, 62}" "s1 < length buf"
    using assms(1) peekD [OF assms(1)] by (auto simp: peek_def Let_def split: if_splits)
  have "skip_ws buf s1 = s1" using skip_ws_stop [of buf s] p by (subst skip_ws.simps) auto
  then show ?thesis using assms(2) p(2) by (auto simp: gettoken_def Let_def split: if_splits)
qed

lemma set_redircmd: "tok \<in> {60, 62, 43} \<Longrightarrow> set_cmd (redircmd c sp tok) = insert sp (set_cmd c)"
  by (auto simp: redircmd_def)

text \<open>A program with its redirections, which \<^verbatim>\<open>parseexec\<close> adds arguments to.\<close>

fun is_prog :: "'s cmd \<Rightarrow> bool" where
  "is_prog (EXEC as) = True"
| "is_prog (REDIR c sp m fd) = is_prog c"
| "is_prog c = False"

lemma set_add_arg: "is_prog c \<Longrightarrow> set_cmd (add_arg a c) = insert a (set_cmd c) \<and> is_prog (add_arg a c)"
  by (induction a c rule: add_arg.induct) auto

lemma parseredirs_words:
  "parseredirs buf c s = Ok (c', s') \<Longrightarrow> between buf s \<Longrightarrow> 0 \<notin> set buf \<Longrightarrow>
   between buf s' \<and> set_cmd c' = set_cmd c \<union> words_in buf s s' \<and> (is_prog c \<longrightarrow> is_prog c')"
proof (induction buf c s rule: parseredirs.induct)
  case (1 buf c s)
  obtain s1 b where p: "peek buf s [60, 62] = (s1, b)" by (meson surj_pair)
  show ?case
  proof (cases b)
    case False
    then have "c' = c" "s' = s1" using 1(2) p by (subst (asm) parseredirs.simps, simp)+
    then show ?thesis using peek_words [OF p 1(3)] by simp
  next
    case True
    obtain tok q0 e0 s2 where g1: "gettoken buf s1 = (tok, q0, e0, s2)" by (metis surj_pair)
    obtain t q eq s3 where g2: "gettoken buf s2 = (t, q, eq, s3)" by (metis surj_pair)
    have t: "t = 97" "parseredirs buf (redircmd c (q, eq) tok) s3 = Ok (c', s')"
      using 1(2) p True g1 g2 by (subst (asm) parseredirs.simps, simp split: if_splits)+
    have tok: "tok \<in> {60, 62, 43}" using peek_redir [OF p [unfolded eqTrueI [OF True]] g1] .
    note w0 = peek_words [OF p 1(3)]
    note w1 = gettoken_words [OF g1 conjunct1 [OF w0] 1(4)]
    note w2 = gettoken_words [OF g2 conjunct1 [OF w1] 1(4)]
    have w: "between buf s3" "words_in buf s s3 = {(q, eq)}" "s \<le> s3"
      using w0 w1 w2 tok t(1) gettoken_mono(1) [OF g1] gettoken_mono(1) [OF g2]
        words_in_split [of s s1 s3 buf] words_in_split [of s1 s2 s3 buf] by auto
    have ih: "between buf s' \<and> set_cmd c' = set_cmd (redircmd c (q, eq) tok) \<union> words_in buf s3 s' \<and>
        (is_prog (redircmd c (q, eq) tok) \<longrightarrow> is_prog c')"
      by (rule 1(1) [OF p [symmetric] True g1 [symmetric] refl refl g2 [symmetric] refl refl _ t(2) w(1) 1(4)]) (simp add: t(1))
    have "words_in buf s s' = {(q, eq)} \<union> words_in buf s3 s'"
      using words_in_split [of s s3 s' buf] parseredirs_mono [OF t(2)] w by simp
    moreover have "is_prog c \<Longrightarrow> is_prog (redircmd c (q, eq) tok)" by (simp add: redircmd_def)
    ultimately show ?thesis using ih set_redircmd [OF tok] by auto
  qed
qed

lemma parse_args_words:
  "parse_args buf argc c s = Ok (c', s') \<Longrightarrow> between buf s \<Longrightarrow> 0 \<notin> set buf \<Longrightarrow> is_prog c \<Longrightarrow>
   between buf s' \<and> set_cmd c' = set_cmd c \<union> words_in buf s s'"
proof (induction buf argc c s rule: parse_args.induct)
  case (1 buf argc c s)
  obtain s1 b where p: "peek buf s [124, 41, 38, 59] = (s1, b)" by (meson surj_pair)
  obtain t q eq s2 where g: "gettoken buf s1 = (t, q, eq, s2)" by (metis surj_pair)
  note w0 = peek_words [OF p 1(3)]
  note w1 = gettoken_words [OF g conjunct1 [OF w0] 1(4)]
  have w: "words_in buf s s2 = words_in buf s1 s2" "s \<le> s2"
    using words_in_split [of s s1 s2 buf] w0 gettoken_mono(1) [OF g] by auto
  show ?case
  proof (cases "b \<or> t = 0")
    case True
    then have "c' = c \<and> s' = (if b then s1 else s2)" using 1(2) p g by (subst (asm) parse_args.simps) (auto split: if_splits)
    then show ?thesis using w0 w1 w True by auto
  next
    case False
    then obtain c3 s3 where r: "t = 97" "\<not> Suc argc \<ge> MAXARGS" "parseredirs buf (add_arg (q, eq) c) s2 = Ok (c3, s3)"
      "parse_args buf (Suc argc) c3 s3 = Ok (c', s')"
      using 1(2) p g by (subst (asm) parse_args.simps) (auto simp: kres_simps split: if_splits)
    note a = set_add_arg [OF 1(5), of "(q, eq)"]
    note w2 = parseredirs_words [OF r(3) conjunct1 [OF w1] 1(4)]
    have b3: "between buf s3" "is_prog c3" using w2 a by blast+
    have ih: "between buf s' \<and> set_cmd c' = set_cmd c3 \<union> words_in buf s3 s'"
      by (rule 1(1) [OF p [symmetric] _ g [symmetric] refl refl _ _ _ r(3) refl r(4) b3(1) 1(4) b3(2)]) (use r False in simp_all)
    have "words_in buf s s' = words_in buf s s2 \<union> (words_in buf s2 s3 \<union> words_in buf s3 s')"
      using words_in_split [of s s2 s' buf] words_in_split [of s2 s3 s' buf] parseredirs_mono [OF r(3)] parse_args_mono [OF r(4)] w(2) by simp
    then show ?thesis using ih w2 a w w1 r(1) by auto
  qed
qed

lemma parse_back_words:
  "parse_back buf c s = (c', s') \<Longrightarrow> between buf s \<Longrightarrow> 0 \<notin> set buf \<Longrightarrow>
   set_cmd c' = set_cmd c \<and> between buf s' \<and> words_in buf s s' = {}"
proof (induction buf c s rule: parse_back.induct)
  case (1 buf c s)
  obtain s1 b where p: "peek buf s [38] = (s1, b)" by (meson surj_pair)
  obtain t q eq s2 where g: "gettoken buf s1 = (t, q, eq, s2)" by (metis surj_pair)
  show ?case
  proof (cases b)
    case True
    note w = peek_gettoken_words [OF p [unfolded eqTrueI [OF True]] g _ 1(3,4)]
    have r: "parse_back buf (BACK c) s2 = (c', s')" using 1(2) p g True by (subst (asm) parse_back.simps) simp
    have "set_cmd c' = set_cmd (BACK c) \<and> between buf s' \<and> words_in buf s2 s' = {}" using 1(1) p g True r w 1(4) by auto
    then show ?thesis using words_in_split [of s s2 s' buf] w parse_back_mono [OF r] by auto
  next
    case False
    then show ?thesis using 1(2) p peek_words [OF p 1(3)] by (subst (asm) parse_back.simps) auto
  qed
qed

lemma parse_words:
  assumes "0 \<notin> set buf"
  shows "parseline n buf s = Ok (c, s') \<Longrightarrow> between buf s \<Longrightarrow> s \<le> length buf \<Longrightarrow> between buf s' \<and> set_cmd c = words_in buf s s'"
    "parsepipe n buf s = Ok (c, s') \<Longrightarrow> between buf s \<Longrightarrow> s \<le> length buf \<Longrightarrow> between buf s' \<and> set_cmd c = words_in buf s s'"
    "parseexec n buf s = Ok (c, s') \<Longrightarrow> between buf s \<Longrightarrow> s \<le> length buf \<Longrightarrow> between buf s' \<and> set_cmd c = words_in buf s s'"
    "parseblock n buf s = Ok (c, s') \<Longrightarrow> between buf s \<Longrightarrow> s \<le> length buf \<Longrightarrow> between buf s' \<and> set_cmd c = words_in buf s s'"
proof (induction n arbitrary: s c s')
  case (Suc n)
  {
    case 1
    obtain c1 s1 where a: "parsepipe n buf s = Ok (c1, s1)" using 1 by (auto simp: kres_simps)
    obtain c2 s2 where b: "parse_back buf c1 s1 = (c2, s2)" by (meson surj_pair)
    note wa = Suc.IH(2) [OF a 1(2,3)] parse_mono(2) [OF a 1(3)]
    note wb = parse_back_words [OF b conjunct1 [OF wa(1)] assms] parse_back_mono [OF b]
    have w2: "set_cmd c2 = words_in buf s s2" "s \<le> s2" "s2 \<le> length buf" "between buf s2"
      using wa wb words_in_split [of s s1 s2 buf] by auto
    obtain s3 pk where p: "peek buf s2 [59] = (s3, pk)" by (meson surj_pair)
    obtain t q eq s4 where g: "gettoken buf s3 = (t, q, eq, s4)" by (metis surj_pair)
    show ?case
    proof (cases pk)
      case True
      then obtain r where r: "parseline n buf s4 = Ok (r, s')" "c = LIST c2 r" using 1 a b p g by (auto simp: kres_simps)
      note pt = p [unfolded eqTrueI [OF True]]
      have w4: "between buf s4" "s2 \<le> s4" "words_in buf s2 s4 = {}" "s4 \<le> length buf"
        using peek_gettoken_words [OF pt g _ w2(4) assms] sym_step [OF pt g _ w2(3)] by auto
      note wr = Suc.IH(1) [OF r(1) w4(1,4)] parse_mono(1) [OF r(1) w4(4)]
      have "words_in buf s s' = words_in buf s s2 \<union> (words_in buf s2 s4 \<union> words_in buf s4 s')"
        using words_in_split [of s s2 s' buf] words_in_split [of s2 s4 s' buf] w2(2) w4(2) wr(2) by simp
      then show ?thesis using r(2) w2(1) w4(3) wr(1) by simp
    next
      case False
      then have "c = c2" "s' = s3" using 1 a b p by simp_all
      then show ?thesis using peek_words [OF p w2(4)] w2 words_in_split [of s s2 s3 buf] by auto
    qed
  next
    case 2
    obtain c1 s2 where a: "parseexec n buf s = Ok (c1, s2)" using 2 by (auto simp: kres_simps)
    note wa = Suc.IH(3) [OF a 2(2,3)] parse_mono(3) [OF a 2(3)]
    obtain s3 pk where p: "peek buf s2 [124] = (s3, pk)" by (meson surj_pair)
    obtain t q eq s4 where g: "gettoken buf s3 = (t, q, eq, s4)" by (metis surj_pair)
    show ?case
    proof (cases pk)
      case True
      then obtain r where r: "parsepipe n buf s4 = Ok (r, s')" "c = PIPE c1 r" using 2 a p g by (auto simp: kres_simps)
      note pt = p [unfolded eqTrueI [OF True]]
      have w4: "between buf s4" "s2 \<le> s4" "words_in buf s2 s4 = {}" "s4 \<le> length buf"
        using peek_gettoken_words [OF pt g _ conjunct1 [OF wa(1)] assms] sym_step [OF pt g] wa(2) by auto
      note wr = Suc.IH(2) [OF r(1) w4(1,4)] parse_mono(2) [OF r(1) w4(4)]
      have "words_in buf s s' = words_in buf s s2 \<union> (words_in buf s2 s4 \<union> words_in buf s4 s')"
        using words_in_split [of s s2 s' buf] words_in_split [of s2 s4 s' buf] wa(2) w4(2) wr(2) by simp
      then show ?thesis using r(2) wa(1) w4(3) wr(1) by simp
    next
      case False
      then have "c = c1" "s' = s3" using 2 a p by simp_all
      then show ?thesis using peek_words [OF p conjunct1 [OF wa(1)]] wa words_in_split [of s s2 s3 buf] by auto
    qed
  next
    case 3
    obtain s1 pk where p: "peek buf s [40] = (s1, pk)" by (meson surj_pair)
    note w0 = peek_words [OF p 3(2)]
    have s1: "s1 \<le> length buf" using peekD [OF p] skip_ws_bound [OF 3(3)] by simp
    show ?case
    proof (cases pk)
      case True
      then have a: "parseblock n buf s1 = Ok (c, s')" using 3 p by simp
      show ?thesis
        using Suc.IH(4) [OF a conjunct1 [OF w0] s1] parse_mono(4) [OF a s1] w0 words_in_split [of s s1 s' buf] by auto
    next
      case False
      then obtain r s2 where r: "parseredirs buf (EXEC []) s1 = Ok (r, s2)" "parse_args buf 0 r s2 = Ok (c, s')" using 3 p by (auto simp: kres_simps)
      note wr = parseredirs_words [OF r(1) conjunct1 [OF w0] assms] parseredirs_mono [OF r(1)]
      have "between buf s2" "is_prog r" using wr by auto
      note wa = parse_args_words [OF r(2) this(1) assms this(2)] parse_args_mono [OF r(2)]
      have "words_in buf s s' = words_in buf s s1 \<union> (words_in buf s1 s2 \<union> words_in buf s2 s')"
        using words_in_split [of s s1 s' buf] words_in_split [of s1 s2 s' buf] w0 wr(2) wa(2) by simp
      then show ?thesis using w0 wr(1) wa(1) by simp
    qed
  next
    case 4
    obtain s1 pk where p: "peek buf s [40] = (s1, pk)" by (meson surj_pair)
    obtain t q eq s2 where g: "gettoken buf s1 = (t, q, eq, s2)" by (metis surj_pair)
    have pk: pk using 4 p by (simp split: if_splits)
    obtain c1 s3 where a: "parseline n buf s2 = Ok (c1, s3)" using 4 p g pk by (auto simp: kres_simps)
    obtain s4 pk' where p': "peek buf s3 [41] = (s4, pk')" by (meson surj_pair)
    obtain t' q' eq' s5 where g': "gettoken buf s4 = (t', q', eq', s5)" by (metis surj_pair)
    have r: "parseredirs buf c1 s5 = Ok (c, s')" and pk': pk' using 4 p g pk a p' g' by (auto split: if_splits)
    note pt = p [unfolded eqTrueI [OF pk]] and pt' = p' [unfolded eqTrueI [OF pk']]
    have w2: "between buf s2" "s \<le> s2" "words_in buf s s2 = {}" "s2 \<le> length buf"
      using peek_gettoken_words [OF pt g _ 4(2) assms] sym_step [OF pt g _ 4(3)] by auto
    note wa = Suc.IH(1) [OF a w2(1,4)] parse_mono(1) [OF a w2(4)]
    have w5: "between buf s5" "s3 \<le> s5" "words_in buf s3 s5 = {}"
      using peek_gettoken_words [OF pt' g' _ conjunct1 [OF wa(1)] assms] by auto
    note wr = parseredirs_words [OF r w5(1) assms] parseredirs_mono [OF r]
    have "words_in buf s s' = words_in buf s s2 \<union> (words_in buf s2 s3 \<union> (words_in buf s3 s5 \<union> words_in buf s5 s'))"
      using words_in_split [of s s2 s' buf] words_in_split [of s2 s3 s' buf] words_in_split [of s3 s5 s' buf] w2(2) wa(2) w5(2) wr(2) by simp
    then show ?case using w2(3) wa(1) w5(3) wr(1) by simp
  }
qed simp_all

text \<open>\<open>nulterminate\<close> stores a NUL at the end of each string and nothing else.\<close>

lemma fold_ends: "length (fold (\<lambda>(q, eq) b. b[eq := 0]) as buf) = length buf \<and>
  (i < length buf \<longrightarrow> fold (\<lambda>(q, eq) b. b[eq := 0 :: u8]) as buf ! i = (if i \<in> snd ` set as then 0 else buf ! i))"
proof (induction as arbitrary: buf)
  case (Cons a as)
  obtain q eq where a: "a = (q, eq)" by (meson surj_pair)
  show ?case using Cons [of "buf[eq := 0]"] unfolding a by (simp add: nth_list_update)
qed simp

lemma nulterminate_nth:
  "length (nulterminate c buf) = length buf \<and>
   (i < length buf \<longrightarrow> nulterminate c buf ! i = (if i \<in> snd ` set_cmd c then 0 else buf ! i))"
proof (induction c buf rule: nulterminate.induct)
  case (1 as buf)
  show ?case using fold_ends [of as buf i] by (simp del: fold_simps)
next
  case (2 c sp m fd buf)
  then show ?case by (cases "snd sp = i") (auto simp: nth_list_update image_iff)
qed (auto simp: nth_list_update image_Un)

definition string_at :: "u8 list \<Rightarrow> nat \<Rightarrow> u8 list" where
  "string_at b q = takeWhile (\<lambda>x. x \<noteq> 0) (drop q b)"

definition span_text :: "u8 list \<Rightarrow> span \<Rightarrow> u8 list" where
  "span_text buf sp = take (snd sp - fst sp) (drop (fst sp) buf)"

lemma string_at_span:
  assumes "0 \<notin> set buf" "\<forall>sp \<in> set_cmd c. word_span buf sp" "(q, eq) \<in> set_cmd c"
  shows "string_at (nulterminate c (buf @ [0])) q = span_text buf (q, eq)"
proof -
  let ?b = "nulterminate c (buf @ [0])"
  have w: "q < eq" "eq \<le> length buf" "\<And>i. q \<le> i \<Longrightarrow> i < eq \<Longrightarrow> \<not> is_ws (buf ! i) \<and> \<not> is_sym (buf ! i)"
    using assms(2,3) unfolding word_span_def edge_def by fastforce+
  note n = nulterminate_nth [of c "buf @ [0]"]
  have keep: "?b ! i = buf ! i" if "q \<le> i" "i < eq" for i
  proof -
    have "i \<notin> snd ` set_cmd c"
    proof
      assume "i \<in> snd ` set_cmd c"
      then obtain sp where "sp \<in> set_cmd c" "snd sp = i" by auto
      then have "is_ws (buf ! i) \<or> is_sym (buf ! i)" using assms(2) that w(2) unfolding word_span_def edge_def by fastforce
      then show False using w(3) [OF that] by simp
    qed
    then show ?thesis using n [of i] that w(2) by (simp add: nth_append)
  qed
  have z: "?b ! eq = 0" using n [of eq] assms(3) w(2) by force
  have len: "length ?b = Suc (length buf)" using n by simp
  have d: "drop q ?b = span_text buf (q, eq) @ 0 # drop (Suc eq) ?b"
  proof -
    have "drop q ?b = take (eq - q) (drop q ?b) @ drop eq ?b" using w(1) by (metis append_take_drop_id drop_drop le_add_diff_inverse2 less_imp_le)
    moreover have "drop eq ?b = 0 # drop (Suc eq) ?b" using z len w(2) by (metis Cons_nth_drop_Suc le_imp_less_Suc)
    moreover have "take (eq - q) (drop q ?b) = span_text buf (q, eq)"
      by (rule nth_equalityI) (use keep len w in \<open>auto simp: span_text_def\<close>)
    ultimately show ?thesis by simp
  qed
  have "x \<noteq> 0" if "x \<in> set (span_text buf (q, eq))" for x
    using that assms(1) unfolding span_text_def by (auto dest!: in_set_takeD in_set_dropD)
  then show ?thesis unfolding string_at_def d by (subst takeWhile_append2) auto
qed

text \<open>
  C11. The strings of a parsed command are exactly the words of the text. Whatever text is accepted, every string of the
  command is a maximal run of characters that are neither white space nor operators, every such run is a string of the
  command, and after \<^verbatim>\<open>nulterminate\<close>, which ends the strings in place in the shared text, each string is still complete.
\<close>

theorem parsecmd_strings:
  assumes "0 \<notin> set buf" "parsecmd buf = Ok (c, buf')"
  shows "set_cmd c = {sp. word_span buf sp} \<and> (\<forall>sp \<in> set_cmd c. string_at buf' (fst sp) = span_text buf sp)"
proof -
  obtain s' where p: "parseline (4 * length buf + 4) buf 0 = Ok (c, s')" and b: "buf' = nulterminate c (buf @ [0])"
    and e: "skip_ws buf s' = length buf"
    using assms(2) unfolding parsecmd_def parsecmd_tree_def by (auto simp: kres_simps case_prod_beta peek_def Let_def split: if_splits)
  note w = parse_words(1) [OF assms(1) p] parse_mono(1) [OF p]
  have "set_cmd c = words_in buf 0 s'" "between buf s'" "s' \<le> length buf" using w by (auto simp: between_def)
  moreover have "words_in buf 0 (length buf) = words_in buf 0 s' \<union> words_in buf s' (length buf)"
    using words_in_split [of 0 s' "length buf" buf] calculation(3) by simp
  moreover have "words_in buf s' (length buf) = {}" using skip_ws_words [OF calculation(2)] e by simp
  moreover have "words_in buf 0 (length buf) = {sp. word_span buf sp}" by (auto simp: words_in_def word_span_def)
  ultimately have s: "set_cmd c = {sp. word_span buf sp}" by simp
  then have "string_at buf' (fst sp) = span_text buf sp" if "sp \<in> set_cmd c" for sp
    using string_at_span [OF assms(1), of c "fst sp" "snd sp"] b that by simp
  then show ?thesis using s by blast
qed

section \<open>Printing and parsing\<close>

text \<open>
  Commands written out as tokens, each after a blank. A part that is at a lower level of the grammar than its place is put
  in parentheses: \<open>level\<close> 0 is a program with its redirections, 1 a pipeline, 2 a background command and 3 a list.
\<close>

primrec level :: "'s cmd \<Rightarrow> nat" where
  "level (EXEC as) = 0"
| "level (REDIR c f m fd) = 0"
| "level (PIPE l r) = 1"
| "level (BACK c) = 2"
| "level (LIST l r) = 3"

definition wrap :: "nat \<Rightarrow> nat \<Rightarrow> u8 list list \<Rightarrow> u8 list list" where
  "wrap k l ts = (if l \<le> k then ts else [40] # ts @ [[41]])"

definition redir_op :: "int \<Rightarrow> u8 list" where
  "redir_op m = (if m = O_RDONLY then [60] else if m = O_WRONLY + O_CREATE + O_TRUNC then [62] else [62, 62])"

primrec cmd_tokens :: "u8 list cmd \<Rightarrow> u8 list list" where
  "cmd_tokens (EXEC as) = as"
| "cmd_tokens (REDIR c f m fd) = wrap 0 (level c) (cmd_tokens c) @ [redir_op m, f]"
| "cmd_tokens (PIPE l r) = wrap 0 (level l) (cmd_tokens l) @ [124] # wrap 1 (level r) (cmd_tokens r)"
| "cmd_tokens (BACK c) = wrap 2 (level c) (cmd_tokens c) @ [[38]]"
| "cmd_tokens (LIST l r) = wrap 2 (level l) (cmd_tokens l) @ [59] # cmd_tokens r"

definition spaced :: "u8 list list \<Rightarrow> u8 list" where
  "spaced ts = concat (map ((#) 32) ts)"

definition print_cmd :: "u8 list cmd \<Rightarrow> u8 list" where
  "print_cmd c = spaced (cmd_tokens c)"

definition word_ok :: "u8 list \<Rightarrow> bool" where
  "word_ok w \<longleftrightarrow> w \<noteq> [] \<and> (\<forall>x \<in> set w. x \<noteq> 0 \<and> \<not> is_ws x \<and> \<not> is_sym x)"

primrec cmd_ok :: "u8 list cmd \<Rightarrow> bool" where
  "cmd_ok (EXEC as) \<longleftrightarrow> length as < MAXARGS \<and> (\<forall>w \<in> set as. word_ok w)"
| "cmd_ok (REDIR c f m fd) \<longleftrightarrow> cmd_ok c \<and> word_ok f \<and>
     (m, fd) \<in> {(O_RDONLY, 0), (O_WRONLY + O_CREATE + O_TRUNC, 1), (O_WRONLY + O_CREATE, 1)}"
| "cmd_ok (PIPE l r) \<longleftrightarrow> cmd_ok l \<and> cmd_ok r"
| "cmd_ok (BACK c) \<longleftrightarrow> cmd_ok c"
| "cmd_ok (LIST l r) \<longleftrightarrow> cmd_ok l \<and> cmd_ok r"

subsection \<open>Tokens in the text\<close>

definition tok_ok :: "u8 list \<Rightarrow> bool" where
  "tok_ok t \<longleftrightarrow> word_ok t \<or> t \<in> {[124], [40], [41], [59], [38], [60], [62], [62, 62]}"

definition tok_code :: "u8 list \<Rightarrow> u8" where
  "tok_code t = (if word_ok t then 97 else if t = [62, 62] then 43 else hd t)"

text \<open>The tokens \<open>ts\<close> are what is left of the text at position \<open>s\<close>.\<close>

definition left_at :: "u8 list \<Rightarrow> nat \<Rightarrow> u8 list list \<Rightarrow> bool" where
  "left_at buf s ts \<longleftrightarrow> (\<forall>t \<in> set ts. tok_ok t) \<and> 
     drop (skip_ws buf s) buf = (case ts of [] \<Rightarrow> [] | t # ts \<Rightarrow> t @ spaced ts)"

lemma tok_okD: "tok_ok t \<Longrightarrow> t \<noteq> [] \<and> 0 \<notin> set t \<and> (\<forall>x \<in> set t. \<not> is_ws x)"
  by (auto simp: tok_ok_def word_ok_def is_ws_iff)

lemma skip_ws_idem [simp]: "skip_ws buf (skip_ws buf s) = skip_ws buf s"
proof (cases "skip_ws buf s < length buf")
  case True
  then show ?thesis using skip_ws_stop [of buf s] by (subst skip_ws.simps) simp
next
  case False
  then show ?thesis by (subst skip_ws.simps) simp
qed

lemma left_at_skip [simp]: "left_at buf (skip_ws buf s) ts = left_at buf s ts"
  by (simp add: left_at_def)

lemma chr_at_drop: "chr_at buf s = (case drop s buf of [] \<Rightarrow> 0 | x # _ \<Rightarrow> x)"
  by (auto simp: chr_at_def Cons_nth_drop_Suc [symmetric])

lemma drop_shift: "drop s buf = xs @ ys \<Longrightarrow> drop (s + length xs) buf = ys"
  by (metis add.commute append_eq_conv_conj drop_drop)

lemma skip_ws_blank: "drop s buf = 32 # ys \<Longrightarrow> skip_ws buf s = skip_ws buf (Suc s)"
proof -
  assume d: "drop s buf = 32 # ys"
  then have "s < length buf" "chr_at buf s = 32" by (auto simp: chr_at_drop intro: ccontr)
  then show ?thesis by (subst skip_ws.simps) (simp add: is_ws_iff)
qed

lemma skip_ws_none: "drop s buf = ys \<Longrightarrow> ys = [] \<or> \<not> is_ws (hd ys) \<Longrightarrow> skip_ws buf s = s"
  by (subst skip_ws.simps) (auto simp: chr_at_drop split: list.splits)

lemma left_at_spaced:
  assumes "drop s buf = spaced ts" "\<forall>t \<in> set ts. tok_ok t"
  shows "left_at buf s ts"
proof (cases ts)
  case Nil
  then show ?thesis using assms skip_ws_none [of s buf "[]"] by (simp add: left_at_def spaced_def)
next
  case (Cons t us)
  then have d: "drop s buf = 32 # t @ spaced us" using assms(1) by (simp add: spaced_def)
  then have e: "drop (Suc s) buf = t @ spaced us" using drop_shift [of s buf "[32]"] by simp
  have "skip_ws buf (Suc s) = Suc s"
    by (rule skip_ws_none [OF e]) (use assms(2) tok_okD [of t] Cons in \<open>auto simp: hd_append\<close>)
  then show ?thesis using e d skip_ws_blank [OF d] Cons assms(2) by (simp add: left_at_def)
qed

lemma strchr_None_iff: "strchr xs c = None \<longleftrightarrow> c \<notin> set xs"
  by (induction xs) auto

lemma peek_left:
  assumes "left_at buf s ts" "peek buf s toks = (s', b)" "0 \<notin> set toks"
  shows "left_at buf s' ts" "b \<longleftrightarrow> ts \<noteq> [] \<and> hd (hd ts) \<in> set toks"
proof -
  have s': "s' = skip_ws buf s" using assms(2) by (simp add: peek_def Let_def)
  then show "left_at buf s' ts" using assms(1) by simp
  have b: "b \<longleftrightarrow> chr_at buf s' \<noteq> 0 \<and> strchr toks (chr_at buf s') \<noteq> None" using assms(2) s' by (auto simp: peek_def Let_def)
  show "b \<longleftrightarrow> ts \<noteq> [] \<and> hd (hd ts) \<in> set toks"
  proof (cases ts)
    case Nil
    then show ?thesis using b assms(1) s' by (simp add: left_at_def chr_at_drop)
  next
    case (Cons t us)
    then have t: "tok_ok t" using assms(1) by (simp add: left_at_def)
    then obtain x xs where x: "t = x # xs" "x \<noteq> 0" using tok_okD [OF t] by (cases t) auto
    then have "chr_at buf s' = x" using assms(1) Cons s' by (simp add: left_at_def chr_at_drop)
    then show ?thesis using b Cons x strchr_None_iff by simp
  qed
qed

lemma skip_word_run:
  "drop s buf = w @ ys \<Longrightarrow> \<forall>x \<in> set w. \<not> is_ws x \<and> \<not> is_sym x \<Longrightarrow> ys = [] \<or> is_ws (hd ys) \<Longrightarrow>
   skip_word buf s = s + length w"
proof (induction w arbitrary: s)
  case Nil
  then show ?case by (subst skip_word.simps) (auto simp: chr_at_drop split: list.splits)
next
  case (Cons x w)
  have "drop (Suc s) buf = w @ ys" using drop_shift [of s buf "[x]"] Cons.prems(1) by simp
  then have "skip_word buf (Suc s) = Suc s + length w" using Cons by simp
  moreover have "chr_at buf s = x" "s < length buf" using Cons.prems(1) by (auto simp: chr_at_drop intro: ccontr)
  ultimately show ?case using Cons.prems(2) by (subst skip_word.simps) simp
qed

lemma gettoken_left:
  assumes "left_at buf s (t # ts)" "gettoken buf s = (c, q, eq, s')"
  shows "c = tok_code t" "span_text buf (q, eq) = t" "left_at buf s' ts"
proof -
  let ?q = "skip_ws buf s"
  have d: "drop ?q buf = t @ spaced ts" and t: "tok_ok t" and ts: "\<forall>t \<in> set ts. tok_ok t" using assms(1) by (auto simp: left_at_def)
  have sp: "spaced ts = [] \<or> hd (spaced ts) = 32" by (cases ts) (auto simp: spaced_def)
  have q: "q = ?q" "s' = skip_ws buf eq" using assms(2) by (auto simp: gettoken_def Let_def split: if_splits)
  have e: "c = tok_code t \<and> eq = ?q + length t"
  proof (cases "word_ok t")
    case True
    then obtain x xs where x: "t = x # xs" "x \<noteq> 0" "\<not> is_sym x" by (cases t) (auto simp: word_ok_def)
    then have ch: "chr_at buf ?q = x" using d by (simp add: chr_at_drop)
    have "skip_word buf ?q = ?q + length t" by (rule skip_word_run [OF d]) (use True sp in \<open>auto simp: word_ok_def is_ws_iff\<close>)
    then show ?thesis using assms(2) ch x True by (auto simp: gettoken_def Let_def tok_code_def is_sym_iff)
  next
    case False
    then consider x where "t = [x]" "x \<in> {124, 40, 41, 59, 38, 60}" | "t = [62]" | "t = [62, 62]" using t by (auto simp: tok_ok_def)
    then show ?thesis
    proof cases
      case 1
      then show ?thesis using assms(2) d False by (auto simp: gettoken_def Let_def tok_code_def chr_at_drop)
    next
      case 2
      then have "drop (Suc ?q) buf = spaced ts" using d drop_shift [of ?q buf "[62]"] by simp
      then have "chr_at buf (Suc ?q) \<noteq> 62" using sp by (auto simp: chr_at_drop split: list.splits)
      then show ?thesis using assms(2) d False 2 by (auto simp: gettoken_def Let_def tok_code_def chr_at_drop [of _ ?q])
    next
      case 3
      then have "drop (Suc ?q) buf = 62 # spaced ts" using d drop_shift [of ?q buf "[62]"] by simp
      then have "chr_at buf (Suc ?q) = 62" by (simp add: chr_at_drop)
      then show ?thesis using assms(2) d False 3 by (auto simp: gettoken_def Let_def tok_code_def chr_at_drop [of _ ?q])
    qed
  qed
  then show "c = tok_code t" by simp
  show "span_text buf (q, eq) = t" using e q d by (simp add: span_text_def)
  have "left_at buf eq ts" by (rule left_at_spaced) (use e drop_shift [OF d] ts in simp_all)
  then show "left_at buf s' ts" using q by simp
qed

subsection \<open>More fuel does not change the result\<close>

lemma kbind_fuel:
  "kbind r f \<noteq> Hang \<Longrightarrow> (r \<noteq> Hang \<Longrightarrow> r' = r) \<Longrightarrow> (\<And>y. f y \<noteq> Hang \<Longrightarrow> g y = f y) \<Longrightarrow> kbind r' g = kbind r f"
  by (cases r) auto

lemma parse_fuel_Suc:
  "parseline n buf s \<noteq> Hang \<Longrightarrow> parseline (Suc n) buf s = parseline n buf s"
  "parsepipe n buf s \<noteq> Hang \<Longrightarrow> parsepipe (Suc n) buf s = parsepipe n buf s"
  "parseexec n buf s \<noteq> Hang \<Longrightarrow> parseexec (Suc n) buf s = parseexec n buf s"
  "parseblock n buf s \<noteq> Hang \<Longrightarrow> parseblock (Suc n) buf s = parseblock n buf s"
proof (induction n arbitrary: s)
  case (Suc n)
  {
    case 1
    then show ?case unfolding parseline.simps(2) [of "Suc n" buf s] parseline.simps(2) [of n buf s]
      by (intro kbind_fuel [OF _ Suc.IH(2)])
        (auto simp del: parseline.simps split: prod.splits if_splits intro!: kbind_fuel Suc.IH(1))
  next
    case 2
    then show ?case unfolding parsepipe.simps(2) [of "Suc n" buf s] parsepipe.simps(2) [of n buf s]
      by (intro kbind_fuel [OF _ Suc.IH(3)])
        (auto simp del: parsepipe.simps split: prod.splits if_splits intro!: kbind_fuel Suc.IH(2))
  next
    case 3
    then show ?case unfolding parseexec.simps(2)
      using Suc.IH(4) by (auto simp del: parseblock.simps split: prod.splits if_splits)
  next
    case 4
    then show ?case unfolding parseblock.simps(2)
      by (auto simp del: parseline.simps split: prod.splits if_splits intro!: kbind_fuel Suc.IH(1))
  }
qed simp_all

lemma parse_fuel_not_Hang:
  assumes "n \<le> m"
  shows "parseline n buf s \<noteq> Hang \<Longrightarrow> parseline m buf s = parseline n buf s"
    "parsepipe n buf s \<noteq> Hang \<Longrightarrow> parsepipe m buf s = parsepipe n buf s"
    "parseexec n buf s \<noteq> Hang \<Longrightarrow> parseexec m buf s = parseexec n buf s"
  using assms by (induction m rule: dec_induct) (simp_all add: parse_fuel_Suc del: parseline.simps parsepipe.simps parseexec.simps)

lemma parse_fuel:
  assumes "n \<le> m"
  shows "parseline n buf s = Ok r \<Longrightarrow> parseline m buf s = Ok r"
    "parsepipe n buf s = Ok r \<Longrightarrow> parsepipe m buf s = Ok r"
    "parseexec n buf s = Ok r \<Longrightarrow> parseexec m buf s = Ok r"
  using parse_fuel_not_Hang [OF assms, of buf s] by simp_all

subsection \<open>The parser on a printed command\<close>

type_synonym redir = "u8 list \<times> int \<times> int"

definition redir_toks :: "redir list \<Rightarrow> u8 list list" where
  "redir_toks rs = concat (map (\<lambda>(f, m, fd). [redir_op m, f]) rs)"

definition redir_all :: "redir list \<Rightarrow> u8 list cmd \<Rightarrow> u8 list cmd" where
  "redir_all rs c = fold (\<lambda>(f, m, fd) c. REDIR c f m fd) rs c"

definition redir_ok :: "redir \<Rightarrow> bool" where
  "redir_ok = (\<lambda>(f, m, fd). word_ok f \<and>
     (m, fd) \<in> {(O_RDONLY, 0), (O_WRONLY + O_CREATE + O_TRUNC, 1), (O_WRONLY + O_CREATE, 1)})"

text \<open>What may follow: nothing, or one of the given symbols.\<close>

definition follow :: "u8 list \<Rightarrow> u8 list list \<Rightarrow> bool" where
  "follow syms ts \<longleftrightarrow> ts = [] \<or> (\<exists>x \<in> set syms. hd ts = [x])"

abbreviation reads :: "u8 list \<Rightarrow> u8 list cmd \<Rightarrow> u8 list list \<Rightarrow> (span cmd \<times> nat) kres \<Rightarrow> bool" where
  "reads buf c ts r \<equiv> \<exists>t s'. r = Ok (t, s') \<and> map_cmd (span_text buf) t = c \<and> left_at buf s' ts"

lemma word_ok_hd: "word_ok w \<Longrightarrow> hd w \<notin> {60, 62, 124, 41, 38, 59, 40}"
  by (cases w) (auto simp: word_ok_def is_sym_iff)

lemma tok_code_word [simp]: "word_ok w \<Longrightarrow> tok_code w = 97"
  by (simp add: tok_code_def)

lemma tok_code_redir: "tok_code [60] = 60" "tok_code [62] = 62" "tok_code [62, 62] = 43"
  by (simp_all add: tok_code_def word_ok_def is_sym_iff)

lemma map_redircmd:
  assumes "redir_ok (f, m, fd)" "span_text buf sp = f"
  shows "map_cmd (span_text buf) (redircmd c sp (tok_code (redir_op m))) = REDIR (map_cmd (span_text buf) c) f m fd"
proof -
  consider "m = O_RDONLY" "fd = 0" | "m = O_WRONLY + O_CREATE + O_TRUNC" "fd = 1" | "m = O_WRONLY + O_CREATE" "fd = 1"
    using assms(1) unfolding redir_ok_def by blast
  then show ?thesis using assms(2) by cases (simp_all add: redir_op_def redircmd_def tok_code_redir)
qed

lemma hd_redir_op: "hd (redir_op m) \<in> {60, 62}" "redir_op m \<noteq> []"
  by (auto simp: redir_op_def)

lemma parseredirs_none:
  assumes "left_at buf s ts" "ts = [] \<or> hd (hd ts) \<notin> {60, 62}"
  shows "\<exists>s'. parseredirs buf c s = Ok (c, s') \<and> left_at buf s' ts"
proof -
  obtain s1 b where p: "peek buf s [60, 62] = (s1, b)" by (meson surj_pair)
  note l = peek_left [OF assms(1) p]
  have "parseredirs buf c s = Ok (c, s1)" using p l assms(2) by (subst parseredirs.simps) auto
  then show ?thesis using l by simp
qed

lemma parseredirs_reads:
  assumes "left_at buf s (redir_toks rs @ ts)" "\<forall>r \<in> set rs. redir_ok r" "ts = [] \<or> hd (hd ts) \<notin> {60, 62}"
  shows "reads buf (redir_all rs (map_cmd (span_text buf) c)) ts (parseredirs buf c s)"
  using assms
proof (induction rs arbitrary: c s)
  case Nil
  then show ?case using parseredirs_none [of buf s ts c] by (auto simp: redir_toks_def redir_all_def)
next
  case (Cons r rs)
  obtain f m fd where r: "r = (f, m, fd)" by (metis surj_pair)
  have f: "redir_ok (f, m, fd)" "word_ok f" using Cons.prems(2) r by (auto simp: redir_ok_def)
  have l0: "left_at buf s (redir_op m # f # redir_toks rs @ ts)" using Cons.prems(1) r by (simp add: redir_toks_def)
  obtain s1 b where p: "peek buf s [60, 62] = (s1, b)" by (meson surj_pair)
  obtain tok q0 e0 s2 where g1: "gettoken buf s1 = (tok, q0, e0, s2)" by (metis surj_pair)
  obtain t q eq s3 where g2: "gettoken buf s2 = (t, q, eq, s3)" by (metis surj_pair)
  note l1 = peek_left [OF l0 p]
  have b: b using l1 hd_redir_op [of m] by simp
  have l1': "left_at buf s1 (redir_op m # f # redir_toks rs @ ts)" using l1 by simp
  note l2 = gettoken_left [OF l1' g1]
  note l3 = gettoken_left [OF l2(3) g2]
  let ?c = "redircmd c (q, eq) tok"
  have "parseredirs buf c s = parseredirs buf ?c s3" using p b g1 g2 l3 f by (subst parseredirs.simps) simp
  moreover have "map_cmd (span_text buf) ?c = REDIR (map_cmd (span_text buf) c) f m fd"
    using map_redircmd [OF f(1) l3(2)] l2(1) by simp
  ultimately show ?case using Cons.IH [OF l3(3), of ?c] Cons.prems r by (simp add: redir_all_def)
qed

lemma follow_hd: "follow syms ts \<Longrightarrow> ts = [] \<or> hd (hd ts) \<in> set syms"
  by (auto simp: follow_def)

lemma parse_args_stop:
  assumes "left_at buf s ts" "follow [124, 41, 38, 59] ts"
  shows "\<exists>s'. parse_args buf argc c s = Ok (c, s') \<and> left_at buf s' ts"
proof -
  obtain s1 b where p: "peek buf s [124, 41, 38, 59] = (s1, b)" by (meson surj_pair)
  note l = peek_left [OF assms(1) p]
  show ?thesis
  proof (cases "ts = []")
    case False
    then have "parse_args buf argc c s = Ok (c, s1)" using p l follow_hd [OF assms(2)] by (subst parse_args.simps) auto
    then show ?thesis using l by simp
  next
    case True
    obtain t q eq s2 where g: "gettoken buf s1 = (t, q, eq, s2)" by (metis surj_pair)
    have l1: "left_at buf s1 []" using l True by simp
    have d: "drop (skip_ws buf s1) buf = []" using l1 by (simp add: left_at_def)
    then have "t = 0 \<and> s2 = skip_ws buf s1" using g by (auto simp: gettoken_def Let_def chr_at_drop)
    then show ?thesis using p l g True l1 by (subst parse_args.simps) simp
  qed
qed

lemma parse_args_reads:
  assumes "left_at buf s (w # ws @ redir_toks rs @ ts)" "\<forall>w \<in> set (w # ws). word_ok w" "\<forall>r \<in> set rs. redir_ok r"
    "follow [124, 41, 38, 59] ts" "argc + length (w # ws) < MAXARGS"
  shows "reads buf (redir_all rs (EXEC (map (span_text buf) as @ w # ws))) ts (parse_args buf argc (EXEC as) s)"
  using assms
proof (induction ws arbitrary: w argc as s)
  case Nil
  obtain s1 b where p: "peek buf s [124, 41, 38, 59] = (s1, b)" by (meson surj_pair)
  obtain t q eq s2 where g: "gettoken buf s1 = (t, q, eq, s2)" by (metis surj_pair)
  have w: "word_ok w" using Nil.prems(2) by simp
  have l1: "left_at buf s1 (w # redir_toks rs @ ts)" "\<not> b" using peek_left [OF Nil.prems(1) p] word_ok_hd [OF w] by auto
  note l2 = gettoken_left [OF l1(1) g]
  obtain t3 s3 where r: "parseredirs buf (EXEC (as @ [(q, eq)])) s2 = Ok (t3, s3)" "left_at buf s3 ts"
      "map_cmd (span_text buf) t3 = redir_all rs (EXEC (map (span_text buf) as @ [w]))"
    using parseredirs_reads [OF l2(3) Nil.prems(3), of "EXEC (as @ [(q, eq)])"] follow_hd [OF Nil.prems(4)] l2(2) by auto
  obtain s4 where a: "parse_args buf (Suc argc) t3 s3 = Ok (t3, s4)" "left_at buf s4 ts"
    using parse_args_stop [OF r(2) Nil.prems(4)] by blast
  have "parse_args buf argc (EXEC as) s = Ok (t3, s4)"
    using p g l1 l2 w r a Nil.prems(5) by (subst parse_args.simps) simp
  then show ?case using r a by simp
next
  case (Cons w' ws)
  obtain s1 b where p: "peek buf s [124, 41, 38, 59] = (s1, b)" by (meson surj_pair)
  obtain t q eq s2 where g: "gettoken buf s1 = (t, q, eq, s2)" by (metis surj_pair)
  have w: "word_ok w" "word_ok w'" using Cons.prems(2) by auto
  have l1: "left_at buf s1 (w # w' # ws @ redir_toks rs @ ts)" "\<not> b" using peek_left [OF Cons.prems(1) p] word_ok_hd [OF w(1)] by auto
  note l2 = gettoken_left [OF l1(1) g]
  obtain s3 where r: "parseredirs buf (EXEC (as @ [(q, eq)])) s2 = Ok (EXEC (as @ [(q, eq)]), s3)" "left_at buf s3 (w' # ws @ redir_toks rs @ ts)"
    using parseredirs_none [OF l2(3), of "EXEC (as @ [(q, eq)])"] word_ok_hd [OF w(2)] by auto
  have "parse_args buf argc (EXEC as) s = parse_args buf (Suc argc) (EXEC (as @ [(q, eq)])) s3"
    using p g l1 l2 w r Cons.prems(5) by (subst parse_args.simps) simp
  moreover have "reads buf (redir_all rs (EXEC (map (span_text buf) (as @ [(q, eq)]) @ w' # ws))) ts (parse_args buf (Suc argc) (EXEC (as @ [(q, eq)])) s3)"
    by (rule Cons.IH [OF r(2)]) (use Cons.prems in simp_all)
  ultimately show ?case using l2(2) by simp
qed

text \<open>The four levels: a command in its place is read back, whatever may follow it there.\<close>

definition reads_exec :: "u8 list \<Rightarrow> u8 list cmd \<Rightarrow> bool" where
  "reads_exec buf c \<longleftrightarrow> (\<forall>s rs ts. left_at buf s (wrap 0 (level c) (cmd_tokens c) @ redir_toks rs @ ts) \<and> (\<forall>r \<in> set rs. redir_ok r) \<and>
     follow [124, 41, 38, 59] ts \<longrightarrow> (\<exists>n. reads buf (redir_all rs c) ts (parseexec n buf s)))"

definition reads_pipe :: "u8 list \<Rightarrow> u8 list cmd \<Rightarrow> bool" where
  "reads_pipe buf c \<longleftrightarrow> (\<forall>s ts. left_at buf s (wrap 1 (level c) (cmd_tokens c) @ ts) \<and>
     follow [41, 38, 59] ts \<longrightarrow> (\<exists>n. reads buf c ts (parsepipe n buf s)))"

definition reads_back :: "u8 list \<Rightarrow> u8 list cmd \<Rightarrow> bool" where
  "reads_back buf c \<longleftrightarrow> (\<forall>s k ts. left_at buf s (wrap 2 (level c) (cmd_tokens c) @ replicate k [38] @ ts) \<and>
     follow [41, 59] ts \<longrightarrow> (\<exists>n t s'. parsepipe n buf s = Ok (t, s') \<and> reads buf ((BACK ^^ k) c) ts (Ok (parse_back buf t s'))))"

definition reads_line :: "u8 list \<Rightarrow> u8 list cmd \<Rightarrow> bool" where
  "reads_line buf c \<longleftrightarrow> (\<forall>s ts. left_at buf s (cmd_tokens c @ ts) \<and>
     follow [41] ts \<longrightarrow> (\<exists>n. reads buf c ts (parseline n buf s)))"

lemma wrap_same: "level c \<noteq> Suc k \<Longrightarrow> wrap (Suc k) (level c) ts = wrap k (level c) ts"
  by (auto simp: wrap_def)

lemma pipe_of_exec:
  assumes "reads_exec buf c" "level c \<noteq> 1"
  shows "reads_pipe buf c"
  unfolding reads_pipe_def
proof (intro allI impI, elim conjE)
  fix s ts assume l: "left_at buf s (wrap 1 (level c) (cmd_tokens c) @ ts)" and f: "follow [41, 38, 59] ts"
  have "follow [124, 41, 38, 59] ts" using f by (auto simp: follow_def)
  then obtain n t s' where e: "parseexec n buf s = Ok (t, s')" "map_cmd (span_text buf) t = c" "left_at buf s' ts"
    using assms(1) [unfolded reads_exec_def, rule_format, of s "[]" ts] l wrap_same [of c 0] assms(2)
    by (auto simp: redir_toks_def redir_all_def)
  obtain s1 b where p: "peek buf s' [124] = (s1, b)" by (meson surj_pair)
  have "\<not> b" "left_at buf s1 ts" using peek_left [OF e(3) p] follow_hd [OF f] by auto
  then have "reads buf c ts (parsepipe (Suc n) buf s)" using e p by simp
  then show "\<exists>n. reads buf c ts (parsepipe n buf s)" by blast
qed

lemma parse_back_reads:
  assumes "left_at buf s (replicate k [38] @ ts)" "follow [41, 59] ts"
  shows "reads buf ((BACK ^^ k) (map_cmd (span_text buf) t)) ts (Ok (parse_back buf t s))"
  using assms
proof (induction k arbitrary: s t)
  case 0
  obtain s1 b where p: "peek buf s [38] = (s1, b)" by (meson surj_pair)
  have "\<not> b" "left_at buf s1 ts" using peek_left [OF 0(1) p] follow_hd [OF 0(2)] by auto
  then show ?case using p by (subst parse_back.simps) simp
next
  case (Suc k)
  obtain s1 b where p: "peek buf s [38] = (s1, b)" by (meson surj_pair)
  obtain c q eq s2 where g: "gettoken buf s1 = (c, q, eq, s2)" by (metis surj_pair)
  have b: "b" "left_at buf s1 ([38] # replicate k [38] @ ts)" using peek_left [OF Suc.prems(1) p] by auto
  have "parse_back buf t s = parse_back buf (BACK t) s2" using p g b by (subst parse_back.simps) simp
  then show ?case using Suc.IH [OF gettoken_left(3) [OF b(2) g] Suc.prems(2), of "BACK t"] by (simp add: funpow_swap1)
qed

lemma follow_amps: "follow [41, 59] ts \<Longrightarrow> follow [41, 38, 59] (replicate k [38] @ ts)"
  by (cases k) (auto simp: follow_def)

lemma back_of_pipe:
  assumes "reads_pipe buf c" "level c \<noteq> 2"
  shows "reads_back buf c"
  unfolding reads_back_def
proof (intro allI impI, elim conjE)
  fix s k ts assume l: "left_at buf s (wrap 2 (level c) (cmd_tokens c) @ replicate k [38] @ ts)" and f: "follow [41, 59] ts"
  have "left_at buf s (wrap 1 (level c) (cmd_tokens c) @ replicate k [38] @ ts)" using l wrap_same [of c 1] assms(2) by (simp add: numeral_2_eq_2)
  then obtain n t s' where e: "parsepipe n buf s = Ok (t, s')" "map_cmd (span_text buf) t = c" "left_at buf s' (replicate k [38] @ ts)"
    using assms(1) [unfolded reads_pipe_def, rule_format, of s "replicate k [38] @ ts"] follow_amps [OF f, of k] by auto
  then show "\<exists>n t s'. parsepipe n buf s = Ok (t, s') \<and> reads buf ((BACK ^^ k) c) ts (Ok (parse_back buf t s'))"
    using e(1) parse_back_reads [OF e(3) f, of t, unfolded e(2)] by blast
qed

lemma line_of_back:
  assumes "reads_back buf c" "level c \<le> 2"
  shows "reads_line buf c"
  unfolding reads_line_def
proof (intro allI impI, elim conjE)
  fix s ts assume l: "left_at buf s (cmd_tokens c @ ts)" and f: "follow [41] ts"
  have f': "follow [41, 59] ts" using f by (auto simp: follow_def)
  obtain n t s' t' s2 where e: "parsepipe n buf s = Ok (t, s')" "parse_back buf t s' = (t', s2)" "map_cmd (span_text buf) t' = c" "left_at buf s2 ts"
    using assms(1) [unfolded reads_back_def, rule_format, of s 0 ts] l f' assms(2) by (auto simp: wrap_def)
  obtain s3 b where p: "peek buf s2 [59] = (s3, b)" by (meson surj_pair)
  have "\<not> b" "left_at buf s3 ts" using peek_left [OF e(4) p] follow_hd [OF f] by auto
  then have "reads buf c ts (parseline (Suc n) buf s)" using e p by simp
  then show "\<exists>n. reads buf c ts (parseline n buf s)" by blast
qed

lemma exec_of_line:
  assumes "reads_line buf c" "level c \<noteq> 0"
  shows "reads_exec buf c"
  unfolding reads_exec_def
proof (intro allI impI, elim conjE)
  fix s rs ts assume l: "left_at buf s (wrap 0 (level c) (cmd_tokens c) @ redir_toks rs @ ts)" and rs: "\<forall>r \<in> set rs. redir_ok r"
    and f: "follow [124, 41, 38, 59] ts"
  have l0: "left_at buf s ([40] # cmd_tokens c @ [41] # redir_toks rs @ ts)" using l assms(2) by (simp add: wrap_def)
  obtain s1 b where p: "peek buf s [40] = (s1, b)" by (meson surj_pair)
  have b: b "left_at buf s1 ([40] # cmd_tokens c @ [41] # redir_toks rs @ ts)" using peek_left [OF l0 p] by auto
  obtain s2 b2 where p2: "peek buf s1 [40] = (s2, b2)" by (meson surj_pair)
  have b2: b2 "left_at buf s2 ([40] # cmd_tokens c @ [41] # redir_toks rs @ ts)" using peek_left [OF b(2) p2] by auto
  obtain c3 q3 e3 s3 where g3: "gettoken buf s2 = (c3, q3, e3, s3)" by (metis surj_pair)
  note l3 = gettoken_left(3) [OF b2(2) g3]
  obtain n t s4 where e: "parseline n buf s3 = Ok (t, s4)" "map_cmd (span_text buf) t = c" "left_at buf s4 ([41] # redir_toks rs @ ts)"
    using assms(1) [unfolded reads_line_def, rule_format, of s3 "[41] # redir_toks rs @ ts"] l3 by (auto simp: follow_def)
  obtain s5 b5 where p5: "peek buf s4 [41] = (s5, b5)" by (meson surj_pair)
  have b5: b5 "left_at buf s5 ([41] # redir_toks rs @ ts)" using peek_left [OF e(3) p5] by auto
  obtain c6 q6 e6 s6 where g6: "gettoken buf s5 = (c6, q6, e6, s6)" by (metis surj_pair)
  have "reads buf (redir_all rs (map_cmd (span_text buf) t)) ts (parseredirs buf t s6)"
    by (rule parseredirs_reads [OF gettoken_left(3) [OF b5(2) g6] rs]) (use follow_hd [OF f] in auto)
  then have "reads buf (redir_all rs c) ts (parseexec (Suc (Suc n)) buf s)" using p b p2 b2 g3 e p5 b5 g6 by simp
  then show "\<exists>n. reads buf (redir_all rs c) ts (parseexec n buf s)" by blast
qed

lemma reads_all:
  assumes "reads_exec buf c" "level c = 0"
  shows "reads_exec buf c \<and> reads_pipe buf c \<and> reads_back buf c \<and> reads_line buf c"
  using pipe_of_exec [of buf c] back_of_pipe [of buf c] line_of_back [of buf c] assms by simp

lemma exec_EXEC:
  assumes "cmd_ok (EXEC as)"
  shows "reads_exec buf (EXEC as)"
  unfolding reads_exec_def
proof (intro allI impI, elim conjE)
  fix s rs ts assume l: "left_at buf s (wrap 0 (level (EXEC as)) (cmd_tokens (EXEC as)) @ redir_toks rs @ ts)" and rs: "\<forall>r \<in> set rs. redir_ok r"
    and f: "follow [124, 41, 38, 59] ts"
  have l0: "left_at buf s (as @ redir_toks rs @ ts)" using l by (simp add: wrap_def)
  obtain s1 b where p: "peek buf s [40] = (s1, b)" by (meson surj_pair)
  have l1: "left_at buf s1 (as @ redir_toks rs @ ts)" using peek_left(1) [OF l0 p] by simp
  have ts: "ts = [] \<or> hd (hd ts) \<in> {124, 41, 38, 59}" using follow_hd [OF f] by simp
  have nb: "\<not> b"
  proof (cases as)
    case Nil
    have "hd (hd (redir_toks rs @ ts)) \<noteq> 40" if "redir_toks rs @ ts \<noteq> []"
    proof (cases rs)
      case Nil
      then show ?thesis using ts that by (auto simp: redir_toks_def)
    next
      case (Cons r rs')
      then have "hd (redir_toks rs @ ts) = redir_op (fst (snd r))" by (simp add: redir_toks_def case_prod_beta)
      then show ?thesis using hd_redir_op(1) [of "fst (snd r)"] by auto
    qed
    then show ?thesis using peek_left(2) [OF l0 p] Nil by auto
  next
    case (Cons w ws)
    then have "hd w \<noteq> 40" using assms word_ok_hd [of w] by auto
    then show ?thesis using peek_left(2) [OF l0 p] Cons by simp
  qed
  have "reads buf (redir_all rs (EXEC as)) ts (parseexec (Suc 0) buf s)"
  proof (cases as)
    case Nil
    obtain t s2 where r: "parseredirs buf (EXEC []) s1 = Ok (t, s2)" "map_cmd (span_text buf) t = redir_all rs (EXEC [])" "left_at buf s2 ts"
      using parseredirs_reads [of buf s1 rs ts "EXEC []"] l1 Nil rs ts by auto
    obtain s3 where "parse_args buf 0 t s2 = Ok (t, s3)" "left_at buf s3 ts" using parse_args_stop [OF r(3) f] by blast
    then show ?thesis using p nb r Nil by simp
  next
    case (Cons w ws)
    have w: "hd w \<notin> {60, 62}" using assms Cons word_ok_hd [of w] by auto
    obtain s2 where r: "parseredirs buf (EXEC []) s1 = Ok (EXEC [], s2)" "left_at buf s2 (w # ws @ redir_toks rs @ ts)"
      using parseredirs_none [OF l1, of "EXEC []"] Cons w by auto
    have "reads buf (redir_all rs (EXEC (map (span_text buf) [] @ w # ws))) ts (parse_args buf 0 (EXEC []) s2)"
      by (rule parse_args_reads [OF r(2) _ rs f]) (use assms Cons in auto)
    then show ?thesis using p nb r Cons by simp
  qed
  then show "\<exists>n. reads buf (redir_all rs (EXEC as)) ts (parseexec n buf s)" by blast
qed

lemma exec_REDIR:
  assumes "reads_exec buf c" "cmd_ok (REDIR c f m fd)"
  shows "reads_exec buf (REDIR c f m fd)"
  unfolding reads_exec_def
proof (intro allI impI, elim conjE)
  fix s rs ts assume l: "left_at buf s (wrap 0 (level (REDIR c f m fd)) (cmd_tokens (REDIR c f m fd)) @ redir_toks rs @ ts)"
    and rs: "\<forall>r \<in> set rs. redir_ok r" and fo: "follow [124, 41, 38, 59] ts"
  have "left_at buf s (wrap 0 (level c) (cmd_tokens c) @ redir_toks ((f, m, fd) # rs) @ ts)" using l by (simp add: wrap_def [of _ 0] redir_toks_def)
  moreover have "\<forall>r \<in> set ((f, m, fd) # rs). redir_ok r" using rs assms(2) by (simp add: redir_ok_def)
  ultimately show "\<exists>n. reads buf (redir_all rs (REDIR c f m fd)) ts (parseexec n buf s)"
    using assms(1) [unfolded reads_exec_def, rule_format, of s "(f, m, fd) # rs" ts] fo by (simp add: redir_all_def)
qed

lemma pipe_PIPE:
  assumes "reads_exec buf l" "reads_pipe buf r"
  shows "reads_pipe buf (PIPE l r)"
  unfolding reads_pipe_def
proof (intro allI impI, elim conjE)
  fix s ts assume a: "left_at buf s (wrap 1 (level (PIPE l r)) (cmd_tokens (PIPE l r)) @ ts)" and f: "follow [41, 38, 59] ts"
  let ?r = "wrap 1 (level r) (cmd_tokens r) @ ts"
  have "left_at buf s (wrap 0 (level l) (cmd_tokens l) @ redir_toks [] @ [124] # ?r)" using a by (simp add: wrap_def [of _ "Suc 0"] redir_toks_def)
  then obtain n t s1 where e: "parseexec n buf s = Ok (t, s1)" "map_cmd (span_text buf) t = l" "left_at buf s1 ([124] # ?r)"
    using assms(1) [unfolded reads_exec_def, rule_format, of s "[]" "[124] # ?r"] by (auto simp: follow_def redir_all_def)
  obtain s2 b where p: "peek buf s1 [124] = (s2, b)" by (meson surj_pair)
  have b: b "left_at buf s2 ([124] # ?r)" using peek_left [OF e(3) p] by auto
  obtain c q eq s3 where g: "gettoken buf s2 = (c, q, eq, s3)" by (metis surj_pair)
  obtain m u s4 where h: "parsepipe m buf s3 = Ok (u, s4)" "map_cmd (span_text buf) u = r" "left_at buf s4 ts"
    using assms(2) [unfolded reads_pipe_def, rule_format, of s3 ts] gettoken_left(3) [OF b(2) g] f by auto
  have "parseexec (max n m) buf s = Ok (t, s1)" "parsepipe (max n m) buf s3 = Ok (u, s4)"
    using parse_fuel(3) [of n "max n m", OF _ e(1)] parse_fuel(2) [of m "max n m", OF _ h(1)] by auto
  then have "reads buf (PIPE l r) ts (parsepipe (Suc (max n m)) buf s)" using e h p b g by simp
  then show "\<exists>n. reads buf (PIPE l r) ts (parsepipe n buf s)" by blast
qed

lemma back_BACK:
  assumes "reads_back buf c"
  shows "reads_back buf (BACK c)"
  unfolding reads_back_def
proof (intro allI impI, elim conjE)
  fix s k ts assume a: "left_at buf s (wrap 2 (level (BACK c)) (cmd_tokens (BACK c)) @ replicate k [38] @ ts)" and f: "follow [41, 59] ts"
  have "left_at buf s (wrap 2 (level c) (cmd_tokens c) @ replicate (Suc k) [38] @ ts)" using a by (simp add: wrap_def [of _ 2])
  then show "\<exists>n t s'. parsepipe n buf s = Ok (t, s') \<and> reads buf ((BACK ^^ k) (BACK c)) ts (Ok (parse_back buf t s'))"
    using assms [unfolded reads_back_def, rule_format, of s "Suc k" ts] f by (simp add: funpow_swap1)
qed

lemma line_LIST:
  assumes "reads_back buf l" "reads_line buf r"
  shows "reads_line buf (LIST l r)"
  unfolding reads_line_def
proof (intro allI impI, elim conjE)
  fix s ts assume a: "left_at buf s (cmd_tokens (LIST l r) @ ts)" and f: "follow [41] ts"
  let ?r = "cmd_tokens r @ ts"
  have "left_at buf s (wrap 2 (level l) (cmd_tokens l) @ replicate 0 [38] @ [59] # ?r)" using a by simp
  then obtain n t s1 t' s2 where e: "parsepipe n buf s = Ok (t, s1)" "parse_back buf t s1 = (t', s2)" "map_cmd (span_text buf) t' = l" "left_at buf s2 ([59] # ?r)"
    using assms(1) [unfolded reads_back_def, rule_format, of s 0 "[59] # ?r"] by (auto simp: follow_def)
  obtain s3 b where p: "peek buf s2 [59] = (s3, b)" by (meson surj_pair)
  have b: b "left_at buf s3 ([59] # ?r)" using peek_left [OF e(4) p] by auto
  obtain c q eq s4 where g: "gettoken buf s3 = (c, q, eq, s4)" by (metis surj_pair)
  obtain m u s5 where h: "parseline m buf s4 = Ok (u, s5)" "map_cmd (span_text buf) u = r" "left_at buf s5 ts"
    using assms(2) [unfolded reads_line_def, rule_format, of s4 ts] gettoken_left(3) [OF b(2) g] f by auto
  have "parsepipe (max n m) buf s = Ok (t, s1)" "parseline (max n m) buf s4 = Ok (u, s5)"
    using parse_fuel(2) [of n "max n m", OF _ e(1)] parse_fuel(1) [of m "max n m", OF _ h(1)] by auto
  then have "reads buf (LIST l r) ts (parseline (Suc (max n m)) buf s)" using e h p b g by simp
  then show "\<exists>n. reads buf (LIST l r) ts (parseline n buf s)" by blast
qed

lemma reads_cmd: "cmd_ok c \<Longrightarrow> reads_exec buf c \<and> reads_pipe buf c \<and> reads_back buf c \<and> reads_line buf c"
proof (induction c)
  case (EXEC as)
  then show ?case using reads_all [OF exec_EXEC] by simp
next
  case (REDIR c f m fd)
  then show ?case using reads_all [OF exec_REDIR [of buf c f m fd]] by simp
next
  case (PIPE l r)
  then have "reads_pipe buf (PIPE l r)" using pipe_PIPE [of buf l r] by simp
  moreover have "reads_back buf (PIPE l r)" by (rule back_of_pipe [OF calculation]) simp
  moreover have "reads_line buf (PIPE l r)" by (rule line_of_back [OF calculation(2)]) simp
  ultimately show ?case using exec_of_line [of buf "PIPE l r"] by simp
next
  case (LIST l r)
  then have "reads_line buf (LIST l r)" using line_LIST [of buf l r] by simp
  moreover have "reads_exec buf (LIST l r)" by (rule exec_of_line [OF calculation]) simp
  moreover have "reads_pipe buf (LIST l r)" by (rule pipe_of_exec [OF calculation(2)]) simp
  ultimately show ?case using back_of_pipe [of buf "LIST l r"] by simp
next
  case (BACK c)
  then have "reads_back buf (BACK c)" using back_BACK [of buf c] by simp
  moreover have "reads_line buf (BACK c)" by (rule line_of_back [OF calculation]) simp
  moreover have "reads_exec buf (BACK c)" by (rule exec_of_line [OF calculation(2)]) simp
  ultimately show ?case using pipe_of_exec [of buf "BACK c"] by simp
qed

lemma tokens_ok: "cmd_ok c \<Longrightarrow> \<forall>t \<in> set (cmd_tokens c). tok_ok t"
  by (induction c) (auto simp: wrap_def tok_ok_def redir_op_def)

lemma no_nul_spaced: "\<forall>t \<in> set ts. tok_ok t \<Longrightarrow> 0 \<notin> set (spaced ts)"
  using tok_okD by (auto simp: spaced_def)

lemma map_cmd_strings: "(\<forall>sp \<in> set_cmd t. f sp = g sp) \<Longrightarrow> map_cmd f t = map_cmd g t"
  by (rule cmd.map_cong0) auto

text \<open>
  C8. Every command has a text: for each tree of programs, redirections, pipes, lists and background commands, of at most
  nine words a program, the text with the parentheses the levels of the grammar ask for is parsed to that tree, and
  the strings the tree points to when the parser returns are the words given.
\<close>

theorem parsecmd_print:
  assumes "cmd_ok c"
  shows "\<exists>t buf'. parsecmd (print_cmd c) = Ok (t, buf') \<and> map_cmd (\<lambda>sp. string_at buf' (fst sp)) t = c"
proof -
  let ?b = "print_cmd c"
  have tk: "\<forall>t \<in> set (cmd_tokens c). tok_ok t" by (rule tokens_ok [OF assms])
  have "left_at ?b 0 (cmd_tokens c @ [])" using left_at_spaced [of 0 ?b "cmd_tokens c"] tk by (simp add: print_cmd_def)
  then obtain n t s' where p: "parseline n ?b 0 = Ok (t, s')" "map_cmd (span_text ?b) t = c" "left_at ?b s' []"
    using reads_cmd [OF assms, of ?b] unfolding reads_line_def follow_def by blast
  let ?m = "4 * length ?b + 4"
  have nh: "parseline ?m ?b 0 \<noteq> Hang" using parse_not_Hang(1) [of ?b 0 ?m] by simp
  have q: "parseline ?m ?b 0 = Ok (t, s')"
    using parse_fuel_not_Hang(1) [OF max.cobounded1 [of ?m n] nh] parse_fuel(1) [OF max.cobounded2 [of n ?m] p(1)] by simp
  obtain s2 b where k: "peek ?b s' [] = (s2, b)" by (meson surj_pair)
  have "s' \<le> length ?b" using parse_mono(1) [OF q] by simp
  then have "s2 \<le> length ?b" using peekD [OF k] skip_ws_bound [of s' ?b] by simp
  moreover have "drop s2 ?b = []" using p(3) peekD [OF k] by (simp add: left_at_def)
  ultimately have s2: "s2 = length ?b" by simp
  have r: "parsecmd ?b = Ok (t, nulterminate t (?b @ [0]))" using q k s2 by (simp add: parsecmd_def parsecmd_tree_def)
  have "string_at (nulterminate t (?b @ [0])) (fst sp) = span_text ?b sp" if "sp \<in> set_cmd t" for sp
  proof (rule string_at_span [of ?b t "fst sp" "snd sp", unfolded prod.collapse])
    show n: "0 \<notin> set ?b" using no_nul_spaced [OF tk] by (simp add: print_cmd_def)
    show "\<forall>sp \<in> set_cmd t. word_span ?b sp" using parse_words(1) [OF n q] by (auto simp: between_def words_in_def)
  qed (rule that)
  then have "map_cmd (\<lambda>sp. string_at (nulterminate t (?b @ [0])) (fst sp)) t = c"
    using map_cmd_strings [of t _ "span_text ?b"] p(2) by simp
  then show ?thesis using r by blast
qed

theorem parsecmd_print_witness:
  "let c = PIPE (LIST (EXEC [[97]]) (EXEC [[98]])) (REDIR (EXEC [[99], [100]]) [101] 0x601 1) in
   cmd_ok c \<and> (\<exists>t buf'. parsecmd (print_cmd c) = Ok (t, buf') \<and> map_cmd (\<lambda>sp. string_at buf' (fst sp)) t = c)"
proof -
  let ?c = "PIPE (LIST (EXEC [[97]]) (EXEC [[98]])) (REDIR (EXEC [[99], [100]]) [101] 0x601 1) :: u8 list cmd"
  have "cmd_ok ?c" by (simp add: word_ok_def is_ws_iff is_sym_iff)
  then show ?thesis using parsecmd_print [of ?c] by (simp only: Let_def)
qed

theorem parsecmd_strings_witness:
  "parsecmd [97, 32, 98, 99, 62, 100] =
     Ok (REDIR (EXEC [(0, 1), (2, 4)]) (5, 6) 0x601 1, [97, 0, 98, 99, 0, 100, 0]) \<and>
   {sp. word_span [97, 32, 98, 99, 62, 100] sp} = {(0, 1), (2, 4), (5, 6)} \<and>
   string_at [97, 0, 98, 99, 0, 100, 0] 2 = span_text [97, 32, 98, 99, 62, 100] (2, 4)"
proof -
  have p: "parsecmd [97, 32, 98, 99, 62, 100] =
     Ok (REDIR (EXEC [(0, 1), (2, 4)]) (5, 6) 0x601 1, [97, 0, 98, 99, 0, 100, 0])" by code_simp
  have n: "0 \<notin> set [97, 32, 98, 99, 62, 100 :: u8]" by simp
  note t = parsecmd_strings [OF n p]
  have c: "set_cmd (REDIR (EXEC [(0, 1), (2, 4)]) (5, 6) 0x601 1) = {(0, 1), (2, 4), (5, 6) :: span}" by auto
  have "{sp. word_span [97, 32, 98, 99, 62, 100] sp} = {(0, 1), (2, 4), (5, 6)}" using conjunct1 [OF t] c by (simp only:)
  moreover have "string_at [97, 0, 98, 99, 0, 100, 0] (fst (2, 4 :: nat)) = span_text [97, 32, 98, 99, 62, 100] (2, 4)"
    by (rule bspec [OF conjunct2 [OF t]]) (simp only: c insert_iff simp_thms)
  ultimately show ?thesis using p by (simp only: fst_conv)
qed

end
