(* ===== verification/Sh_Run.thy ===== *)
theory Sh_Run
  imports Sh_Parse
begin

text \<open>
  What \<^verbatim>\<open>runcmd\<close> of \<^verbatim>\<open>user/sh.c\<close> does with descriptors. The meaning of a command, \<open>plan\<close>, knows no descriptors: it says
  which processes a command consists of and what each of them reads from and writes to. \<^verbatim>\<open>runcmd\<close>, with its \<^verbatim>\<open>close\<close>,
  \<^verbatim>\<open>dup\<close>, \<^verbatim>\<open>open\<close> and \<^verbatim>\<open>pipe\<close> and the rule that a call returns the lowest free descriptor, is shown to implement it.
\<close>

section \<open>Descriptors\<close>

text \<open>
  What a command means for an input, an output and an error output, with no descriptors: the processes it consists of,
  and what each of them reads from and writes to.
\<close>

type_synonym streams = "fobj \<times> fobj \<times> fobj"

definition complain :: "fobj \<Rightarrow> u8 list \<Rightarrow> int \<Rightarrow> streams sproc" where
  "complain e msg st = Print (Some e) (msg @ [10]) (Exit st)"

primrec plan :: "u8 list cmd \<Rightarrow> fobj \<Rightarrow> fobj \<Rightarrow> fobj \<Rightarrow> nat \<Rightarrow> streams sproc \<times> nat" where
  "plan (EXEC argv) i out e k =
     (if argv = [] then Exit 1 else Exec argv (i, out, e) (complain e (cs ''exec '' @ hd argv @ cs '' failed'') 0), k)"
| "plan (REDIR c f m fd) i out e k =
     (case plan c (if fd = 0 then FileObj f m else i) (if fd = 0 then out else FileObj f m) e k of
        (p, k) \<Rightarrow> (Open f m p (complain e (cs ''open '' @ f @ cs '' failed'') 1), k))"
| "plan (LIST l r) i out e k =
     (case plan l i out e k of (a, k) \<Rightarrow> case plan r i out e k of (b, k) \<Rightarrow>
        (Fork a (Wait (i, out, e) b) (complain e (cs ''fork'') 1), k))"
| "plan (PIPE l r) i out e k =
     (case plan l i (PipeW k) e (Suc k) of (a, k') \<Rightarrow> case plan r (PipeR k) out e k' of (b, k') \<Rightarrow>
        (MkPipe k
           (Fork a (Fork b (Wait (i, out, e) (Wait (i, out, e) (Exit 0))) (complain e (cs ''fork'') 1)) (complain e (cs ''fork'') 1))
           (complain e (cs ''pipe'') 1), k'))"
| "plan (BACK c) i out e k = (case plan c i out e k of (a, k) \<Rightarrow> (Fork a (Exit 0) (complain e (cs ''fork'') 1), k))"

definition std3 :: "fobj \<Rightarrow> fobj \<Rightarrow> fobj \<Rightarrow> fds" where
  "std3 i out e = [0 \<mapsto> i, 1 \<mapsto> out, 2 \<mapsto> e]"

abbreviation on_std3 :: "streams sproc \<Rightarrow> fds sproc" where
  "on_std3 \<equiv> map_sproc (\<lambda>(i, out, e). std3 i out e)"

lemma low_fd_at: "fds d = None \<Longrightarrow> \<forall>i < d. fds i \<noteq> None \<Longrightarrow> d < NOFILE \<Longrightarrow> low_fd fds = Some d"
  unfolding low_fd_def by (simp add: scan_Some)

lemma std3_redir:
  "low_fd ((std3 i out e)(0 := None)) = Some 0" "low_fd ((std3 i out e)(1 := None)) = Some 1"
  "(std3 i out e)(0 := Some x) = std3 x out e" "(std3 i out e)(1 := Some x) = std3 i x e"
proof -
  show "low_fd ((std3 i out e)(0 := None)) = Some 0" by (rule low_fd_at) (simp_all add: NOFILE_def)
  show "low_fd ((std3 i out e)(1 := None)) = Some 1" by (rule low_fd_at) (simp_all add: std3_def NOFILE_def)
qed (auto simp: std3_def fun_eq_iff)

lemma std3_pipe:
  "pipe_fds k (std3 i out e) = Some ((std3 i out e)(3 \<mapsto> PipeR k, 4 \<mapsto> PipeW k), 3, 4)"
proof -
  have "low_fd (std3 i out e) = Some 3" by (rule low_fd_at) (auto simp: std3_def NOFILE_def less_Suc_eq numeral_eq_Suc)
  moreover have "low_fd ((std3 i out e)(3 \<mapsto> PipeR k)) = Some 4"
    by (rule low_fd_at) (auto simp: std3_def NOFILE_def less_Suc_eq numeral_eq_Suc)
  ultimately show ?thesis by (simp add: pipe_fds_def)
qed

lemma std3_ends:
  fixes i out e k
  defines "f \<equiv> (std3 i out e)(3 \<mapsto> PipeR k, 4 \<mapsto> PipeW k)"
  shows "(dup_fd 4 (f(1 := None)))(3 := None, 4 := None) = std3 i (PipeW k) e"
    "(dup_fd 3 (f(0 := None)))(3 := None, 4 := None) = std3 (PipeR k) out e"
proof -
  have "low_fd (f(1 := None)) = Some 1" by (rule low_fd_at) (simp_all add: f_def std3_def NOFILE_def)
  then show "(dup_fd 4 (f(1 := None)))(3 := None, 4 := None) = std3 i (PipeW k) e"
    by (auto simp: dup_fd_def f_def std3_def fun_eq_iff)
  have "low_fd (f(0 := None)) = Some 0" by (rule low_fd_at) (simp_all add: NOFILE_def)
  then show "(dup_fd 3 (f(0 := None)))(3 := None, 4 := None) = std3 (PipeR k) out e"
    by (auto simp: dup_fd_def f_def std3_def fun_eq_iff)
qed

lemma std3_plain:
  "(std3 i out e) 2 = Some e" "((std3 i out e)(0 := None)) 2 = Some e" "((std3 i out e)(1 := None)) 2 = Some e"
  "((std3 i out e)(3 \<mapsto> x, 4 \<mapsto> y)) 2 = Some e" "(std3 i out e)(3 := None, 4 := None) = std3 i out e"
  by (auto simp: std3_def fun_eq_iff)

lemma runcmd_is_plan:
  "cmd_ok c \<Longrightarrow> runcmd c (std3 i out e) k = (case plan c i out e k of (p, k) \<Rightarrow> (on_std3 p, k))"
proof (induction c arbitrary: i out e k)
  case (REDIR c f m fd)
  then consider "fd = 0" | "fd = 1" by auto
  then show ?case
    using REDIR std3_redir [of i out e] std3_plain(2,3) [of i out e] by cases (simp_all add: complain_def split: prod.splits)
next
  case (PIPE l r)
  then show ?case
    by (simp add: std3_pipe std3_ends std3_plain fork1_def sh_panic_def complain_def Let_def del: One_nat_def split: prod.splits)
qed (simp_all add: std3_plain fork1_def sh_panic_def complain_def split: prod.splits)

text \<open>
  What the processes of a command hold: its own streams, files it opens, and pipes it makes, whose numbers are not below
  the next number at its start.
\<close>

definition stream_objs :: "streams \<Rightarrow> fobj set" where
  "stream_objs t = (case t of (i, out, e) \<Rightarrow> {i, out, e})"

definition reach :: "fobj set \<Rightarrow> nat \<Rightarrow> fobj set" where
  "reach X k = X \<union> {x. \<exists>f m. x = FileObj f m} \<union> {x. \<exists>j \<ge> k. x = PipeR j \<or> x = PipeW j}"

lemma reach_mono: "X \<subseteq> reach Y k \<Longrightarrow> k \<le> k' \<Longrightarrow> reach X k' \<subseteq> reach Y k"
  by (auto simp: reach_def)

definition held :: "streams sproc \<Rightarrow> fobj set" where
  "held p = (\<Union>t \<in> set_sproc p. stream_objs t)"

lemma held_simps [simp]:
  "held (Exit n) = {}" "held (Exec argv t p) = stream_objs t \<union> held p" "held (Open f m p q) = held p \<union> held q"
  "held (MkPipe j p q) = held p \<union> held q" "held (Fork a b c) = held a \<union> held b \<union> held c"
  "held (Wait t p) = stream_objs t \<union> held p" "held (complain e msg st) = {}"
  by (auto simp: held_def complain_def)

lemma plan_reach: "plan c i out e k = (p, k') \<Longrightarrow> k \<le> k' \<and> held p \<subseteq> reach {i, out, e} k"
proof (induction c arbitrary: i out e k p k')
  case (EXEC argv)
  then show ?case by (cases "argv = []") (auto simp: stream_objs_def reach_def)
next
  case (REDIR c f m fd)
  let ?i = "if fd = 0 then FileObj f m else i" and ?o = "if fd = 0 then out else FileObj f m"
  obtain a k1 where a: "plan c ?i ?o e k = (a, k1)" by (meson surj_pair)
  have "reach {?i, ?o, e} k \<subseteq> reach {i, out, e} k" by (rule reach_mono) (auto simp: reach_def)
  then have "held a \<subseteq> reach {i, out, e} k" using REDIR(1) [OF a] by blast
  then show ?case using REDIR(1) [OF a] REDIR(2) a by auto
next
  case (PIPE l r)
  obtain a k1 where a: "plan l i (PipeW k) e (Suc k) = (a, k1)" by (meson surj_pair)
  obtain b k2 where b: "plan r (PipeR k) out e k1 = (b, k2)" by (meson surj_pair)
  have k: "Suc k \<le> k1" "k1 \<le> k2" using PIPE(1) [OF a] PIPE(2) [OF b] by blast+
  have "reach {i, PipeW k, e} (Suc k) \<subseteq> reach {i, out, e} k" by (rule reach_mono) (auto simp: reach_def)
  then have "held a \<subseteq> reach {i, out, e} k" using PIPE(1) [OF a] by blast
  moreover have "reach {PipeR k, out, e} k1 \<subseteq> reach {i, out, e} k" by (rule reach_mono) (use k in \<open>auto simp: reach_def\<close>)
  then have "held b \<subseteq> reach {i, out, e} k" using PIPE(2) [OF b] by blast
  moreover have "p = fst (plan (PIPE l r) i out e k)" "k' = k2" using PIPE(3) a b by auto
  moreover have "stream_objs (i, out, e) \<subseteq> reach {i, out, e} k" by (auto simp: stream_objs_def reach_def)
  ultimately show ?case using a b k by simp
next
  case (LIST l r)
  obtain a k1 where a: "plan l i out e k = (a, k1)" by (meson surj_pair)
  obtain b k2 where b: "plan r i out e k1 = (b, k2)" by (meson surj_pair)
  have k: "k \<le> k1" "k1 \<le> k2" using LIST(1) [OF a] LIST(2) [OF b] by blast+
  have "reach {i, out, e} k1 \<subseteq> reach {i, out, e} k" by (rule reach_mono) (use k in \<open>auto simp: reach_def\<close>)
  then have "held b \<subseteq> reach {i, out, e} k" using LIST(2) [OF b] by blast
  moreover have "held a \<subseteq> reach {i, out, e} k" using LIST(1) [OF a] by blast
  moreover have "p = fst (plan (LIST l r) i out e k)" "k' = k2" using LIST(3) a b by auto
  moreover have "stream_objs (i, out, e) \<subseteq> reach {i, out, e} k" by (auto simp: stream_objs_def reach_def)
  ultimately show ?case using a b k by simp
next
  case (BACK c)
  obtain a k1 where a: "plan c i out e k = (a, k1)" by (meson surj_pair)
  then show ?case using BACK(1) [OF a] BACK(2) by auto
qed

lemma ran_std3: "ran (std3 i out e) = stream_objs (i, out, e)"
  by (simp add: std3_def stream_objs_def insert_commute)

lemma on_std3_held: "d \<in> set_sproc (on_std3 p) \<Longrightarrow> x \<in> ran d \<Longrightarrow> x \<in> held p"
  by (auto simp: sproc.set_map ran_std3 held_def)

text \<open>
  C17. A shell process that has only its three standard descriptors runs a command by its meaning, whatever system calls
  fail: it forks, waits and runs programs as the plan of the command says, and each program is started, and each wait is
  made, with the three descriptors of its place and with no other. The left side of a pipe has the write end as its
  output, the right side the read end as its input, and a redirection replaces one of the two.
\<close>

theorem runcmd_plan:
  "cmd_ok c \<Longrightarrow> runcmd c (std3 i out e) k = (case plan c i out e k of (p, k) \<Rightarrow> (on_std3 p, k))"
  by (rule runcmd_is_plan)

text \<open>
  C16. No end of a pipe stays open where it is not used. The shell process of a pipeline waits for its two sides with
  neither end open; no process of the left side, at any depth, waits or runs a program with the read end open, and none
  of the right side with the write end. So a reader on the right sees the end of its input once the left side is done.
\<close>

theorem runcmd_pipe_ends:
  assumes "cmd_ok (PIPE l r)" "PipeR k \<notin> {i, out, e}" "PipeW k \<notin> {i, out, e}"
  shows "\<exists>a b ff fp. fst (runcmd (PIPE l r) (std3 i out e) k) =
      MkPipe k (Fork a (Fork b (Wait (std3 i out e) (Wait (std3 i out e) (Exit 0))) ff) ff) fp \<and>
    PipeR k \<notin> ran (std3 i out e) \<and> PipeW k \<notin> ran (std3 i out e) \<and>
    (\<forall>d \<in> set_sproc a. PipeR k \<notin> ran d) \<and> (\<forall>d \<in> set_sproc b. PipeW k \<notin> ran d)"
proof -
  obtain a k1 where a: "plan l i (PipeW k) e (Suc k) = (a, k1)" by (meson surj_pair)
  obtain b k2 where b: "plan r (PipeR k) out e k1 = (b, k2)" by (meson surj_pair)
  have k: "Suc k \<le> k1" using plan_reach [OF a] by blast
  have "PipeR k \<notin> reach {i, PipeW k, e} (Suc k)" "PipeW k \<notin> reach {PipeR k, out, e} k1"
    using assms(2,3) k by (auto simp: reach_def)
  then have "\<forall>d \<in> set_sproc (on_std3 a). PipeR k \<notin> ran d" "\<forall>d \<in> set_sproc (on_std3 b). PipeW k \<notin> ran d"
    using plan_reach [OF a] plan_reach [OF b] on_std3_held by blast+
  moreover have "fst (runcmd (PIPE l r) (std3 i out e) k) =
      MkPipe k (Fork (on_std3 a) (Fork (on_std3 b) (Wait (std3 i out e) (Wait (std3 i out e) (Exit 0)))
        (on_std3 (complain e (cs ''fork'') 1))) (on_std3 (complain e (cs ''fork'') 1))) (on_std3 (complain e (cs ''pipe'') 1))"
    using runcmd_is_plan [OF assms(1)] a b by simp
  moreover have "PipeR k \<notin> ran (std3 i out e)" "PipeW k \<notin> ran (std3 i out e)"
    using assms(2,3) by (auto simp: ran_std3 stream_objs_def)
  ultimately show ?thesis by blast
qed

theorem runcmd_plan_witness:
  "let c = PIPE (EXEC [[97]]) (REDIR (EXEC [[98]]) [99] 0 0) in cmd_ok c \<and>
   runcmd c (std3 (Std 0) (Std 1) (Std 2)) 0 = (case plan c (Std 0) (Std 1) (Std 2) 0 of (p, k) \<Rightarrow> (on_std3 p, k))"
proof -
  let ?c = "PIPE (EXEC [[97]]) (REDIR (EXEC [[98]]) [99] 0 0) :: u8 list cmd"
  have "cmd_ok ?c" by (simp add: word_ok_def is_ws_iff is_sym_iff)
  then show ?thesis using runcmd_plan [of ?c "Std 0" "Std 1" "Std 2" 0] by (simp only: Let_def)
qed

theorem runcmd_pipe_ends_witness:
  "cmd_ok (PIPE (LIST (EXEC [[97]]) (EXEC [[98]])) (PIPE (EXEC [[99]]) (EXEC [[100]]))) \<and>
   (\<exists>a b ff fp. fst (runcmd (PIPE (LIST (EXEC [[97]]) (EXEC [[98]])) (PIPE (EXEC [[99]]) (EXEC [[100]])))
        (std3 (Std 0) (Std 1) (Std 2)) 0) =
      MkPipe 0 (Fork a (Fork b (Wait (std3 (Std 0) (Std 1) (Std 2)) (Wait (std3 (Std 0) (Std 1) (Std 2)) (Exit 0))) ff) ff) fp \<and>
    (\<forall>d \<in> set_sproc a. PipeR 0 \<notin> ran d) \<and> (\<forall>d \<in> set_sproc b. PipeW 0 \<notin> ran d))"
proof -
  have "cmd_ok (PIPE (LIST (EXEC [[97]]) (EXEC [[98]])) (PIPE (EXEC [[99]]) (EXEC [[100]])))"
    by (simp add: word_ok_def is_ws_iff is_sym_iff)
  then show ?thesis using runcmd_pipe_ends [where k = 0 and i = "Std 0" and out = "Std 1" and e = "Std 2"] by blast
qed

end
