(* ===== verification/Spec2Isabelle.thy ===== *)
theory Spec2Isabelle
  imports Kalloc Vm_Copy Spinlock Pipe Console Fs_Inode Proc_Sched Grep Lab_Progs Sh_Run
begin

text \<open>
  This library verifies the xv6-riscv kernel and the user programs of this repository.

  \<^bold>\<open>Conventions.\<close> A kernel routine that may stop is a function into \<open>kres\<close>: it returns, panics with the message of
  the source, waits on a channel (\<open>Sleep\<close>: the call cannot go on from this state and is made again after a wakeup), or
  runs for ever. Machine integers are words of their width, physical memory is a function from 64-bit addresses to
  bytes, on-disk structures are bytes. A pointer into a static table is its index, a null pointer is \<open>None\<close> or 0 as in
  the source. The section a spin lock protects is one step; where the interleaving of such sections matters it is a
  step relation. Linker symbols, device registers and the system calls of user programs are parameters.

  \<^bold>\<open>Parts and theories.\<close>
  \<^item> \<open>Xv6_Prelude\<close>, \<open>Bytes\<close>: types, outcomes, memory, little-endian fields, table scans (\<^verbatim>\<open>kernel/types.h\<close>, \<^verbatim>\<open>kernel/param.h\<close>).
  \<^item> \<open>Kstring\<close> (\<^verbatim>\<open>kernel/string.c\<close>): every routine; \<^verbatim>\<open>memmove\<close> under every overlap, \<^verbatim>\<open>safestrcpy\<close> terminates its copy.
  \<^item> \<open>Riscv\<close> (\<^verbatim>\<open>kernel/riscv.h\<close>, \<^verbatim>\<open>kernel/memlayout.h\<close>): page-table format and address layout.
  \<^item> \<open>Kalloc\<close> (\<^verbatim>\<open>kernel/kalloc.c\<close>): the free list in the free pages; exclusive ownership in every run from boot.
  \<^item> \<open>Vm\<close>, \<open>Vm_Map\<close>, \<open>Vm_Copy\<close>, \<open>Ucopy\<close> (\<^verbatim>\<open>kernel/vm.c\<close>, the copy routines of \<^verbatim>\<open>kernel/proc.c\<close>): three-level page tables in physical
    memory; \<^verbatim>\<open>mappages\<close> sets the entries asked for and nothing else, \<^verbatim>\<open>copyout\<close> and \<^verbatim>\<open>copyin\<close> are inverse.
  \<^item> \<open>Spinlock\<close>, \<open>Sleeplock\<close> (\<^verbatim>\<open>kernel/spinlock.c\<close>, \<^verbatim>\<open>kernel/sleeplock.c\<close>): mutual exclusion on any number of CPUs.
  \<^item> \<open>Ring\<close>: the interface of a bounded queue in a ring buffer, interpreted for the pipe and for the UART.
  \<^item> \<open>Pipe\<close> (\<^verbatim>\<open>kernel/pipe.c\<close>), \<open>Uart\<close> (\<^verbatim>\<open>kernel/uart.c\<close>), \<open>Console\<close> (\<^verbatim>\<open>kernel/console.c\<close>): order and completeness of what is
    transmitted, wrap-around of the counters, the line discipline as a refinement of a line editor.
  \<^item> \<open>Bio\<close> (\<^verbatim>\<open>kernel/bio.c\<close>): the LRU list link by link; a read returns what was last stored, one buffer per block.
  \<^item> \<open>Log\<close> (\<^verbatim>\<open>kernel/log.c\<close>): a commit is atomic under a crash after any prefix of its disk writes.
  \<^item> \<open>Fs\<close>, \<open>Fs_Block\<close>, \<open>Fs_Inode\<close> (\<^verbatim>\<open>kernel/fs.c\<close>): allocation bitmap, inodes on disk and in the cache, contents, directories, paths.
  \<^item> \<open>File\<close> (\<^verbatim>\<open>kernel/file.c\<close>, \<^verbatim>\<open>pipealloc\<close>): open files. \<open>Proc\<close>, \<open>Proc_Sched\<close> (\<^verbatim>\<open>kernel/proc.c\<close>): the process table, and its
    invariant in every interleaving of the sections its locks protect.
  \<^item> \<open>Ulib\<close> (\<^verbatim>\<open>user/ulib.c\<close>, \<^verbatim>\<open>user/printf.c\<close>), \<open>Grep\<close> (\<^verbatim>\<open>user/grep.c\<close>), \<open>Uprogs\<close> (\<^verbatim>\<open>wc\<close>, \<^verbatim>\<open>cat\<close>, \<^verbatim>\<open>echo\<close>, \<^verbatim>\<open>kill\<close>, \<^verbatim>\<open>ln\<close>, \<^verbatim>\<open>mkdir\<close>, \<^verbatim>\<open>rm\<close>,
    \<^verbatim>\<open>sleep\<close>, \<^verbatim>\<open>primes\<close>), \<open>Lab_Progs\<close> (\<^verbatim>\<open>find\<close>, \<^verbatim>\<open>xargs\<close>).

  \<^bold>\<open>Loops and fuel.\<close> Every loop that the source bounds is a terminating function with a measure. No theorem is about a
  result that fuel cuts short.
\<close>

end
